(* ===== verification/CkptPrelude.thy ===== *)
theory CkptPrelude
  imports Main "HOL-Library.Word"
begin

unbundle bit_operations_syntax

text \<open>
  Shared vocabulary of the development: machine integers at the widths of the C++ code,
  results of code that may go wrong, little-endian byte encodings (what \<open>fwrite\<close> and
  \<open>fread\<close> of a \<open>uint64_t\<close> move), byte-addressed memory, and files that are read through
  a cursor. Nothing here models a source file; it is the language and the C library the
  sources rely on.
\<close>

section \<open>Machine integers and results\<close>

type_synonym u8 = "8 word"
type_synonym u16 = "16 word"
type_synonym u32 = "32 word"
type_synonym u64 = "64 word"
type_synonym bytes = "u8 list"

text \<open>
  How a routine of the sources can leave its intended behaviour: an access outside an array
  or buffer, a read of a variable that was never written, a dereference of an end iterator
  or null pointer, a call of \<open>exit\<close> with its status, a loop that never ends, a write to a file
  that was closed, a failed \<open>assert\<close>.
\<close>

datatype fault =
    OutOfBounds
  | UninitRead
  | EndDeref
  | NullDeref
  | ExitProg nat
  | Endless
  | ClosedFile
  | AssertFailed

type_synonym 'a res = "fault + 'a"

definition res_bind :: "'a res \<Rightarrow> ('a \<Rightarrow> 'b res) \<Rightarrow> 'b res" where
  "res_bind r f = (case r of Inl e \<Rightarrow> Inl e | Inr x \<Rightarrow> f x)"

lemma res_bind_simps [simp]:
  "res_bind (Inl e) f = Inl e"
  "res_bind (Inr x) f = f x"
  by (simp_all add: res_bind_def)

lemma res_bind_eq_Inr: "res_bind r f = Inr y \<longleftrightarrow> (\<exists>x. r = Inr x \<and> f x = Inr y)"
  by (cases r) simp_all

lemma res_bind_eq_Inl: "res_bind r f = Inl e \<longleftrightarrow> r = Inl e \<or> (\<exists>x. r = Inr x \<and> f x = Inl e)"
  by (cases r) simp_all

lemma res_bind_assoc: "res_bind (res_bind r f) g = res_bind r (\<lambda>x. res_bind (f x) g)"
  by (cases r) simp_all

lemma res_bind_cong [fundef_cong]:
  "r = r' \<Longrightarrow> (\<And>x. r' = Inr x \<Longrightarrow> f x = f' x) \<Longrightarrow> res_bind r f = res_bind r' f'"
  by (cases r') simp_all

text \<open>A left fold whose step may go wrong: the shape of a loop that can hit a fault.\<close>

fun res_fold :: "('a \<Rightarrow> 's \<Rightarrow> 's res) \<Rightarrow> 'a list \<Rightarrow> 's \<Rightarrow> 's res" where
  "res_fold f [] s = Inr s"
| "res_fold f (x # xs) s = res_bind (f x s) (res_fold f xs)"

lemma res_fold_append: "res_fold f (xs @ ys) s = res_bind (res_fold f xs s) (res_fold f ys)"
proof (induction xs arbitrary: s)
  case (Cons x xs)
  then show ?case by (cases "f x s") simp_all
qed simp

lemma res_fold_invariant:
  assumes "res_fold f xs s = Inr s'" and "P s"
    and "\<And>x t t'. x \<in> set xs \<Longrightarrow> P t \<Longrightarrow> f x t = Inr t' \<Longrightarrow> P t'"
  shows "P s'"
  using assms by (induction xs arbitrary: s) (auto simp: res_bind_eq_Inr)

lemma res_fold_total:
  assumes "P s" and "\<And>x t. x \<in> set xs \<Longrightarrow> P t \<Longrightarrow> \<exists>t'. f x t = Inr t' \<and> P t'"
  shows "\<exists>s'. res_fold f xs s = Inr s' \<and> P s'"
  using assms
proof (induction xs arbitrary: s)
  case (Cons x xs)
  then obtain t where "f x s = Inr t" "P t" by fastforce
  with Cons show ?case by simp
qed simp

text \<open>
  A computation that another one follows step by step, through a map of the states: every run of
  the one is the image of a run of the other, faults included.
\<close>

definition res_image :: "('a \<Rightarrow> 'b) \<Rightarrow> 'a res \<Rightarrow> 'b res" where
  "res_image h r = res_bind r (\<lambda>x. Inr (h x))"

lemma res_image_simps [simp]:
  "res_image h (Inl e) = Inl e"
  "res_image h (Inr x) = Inr (h x)"
  by (simp_all add: res_image_def)

lemma res_image_bind: "res_image h (res_bind r f) = res_bind r (\<lambda>x. res_image h (f x))"
  by (cases r) simp_all

lemma res_bind_image: "res_bind (res_image h r) f = res_bind r (\<lambda>x. f (h x))"
  by (cases r) simp_all

lemma res_fold_sim:
  assumes "\<And>x s. x \<in> set xs \<Longrightarrow> f x (h s) = res_image h (g x s)"
  shows "res_fold f xs (h s) = res_image h (res_fold g xs s)"
  using assms
proof (induction xs arbitrary: s)
  case (Cons x xs)
  then show ?case by (cases "g x s") simp_all
qed simp

section \<open>Collections of rewrite rules\<close>

named_theorems ckpt_word "facts on machine words"
named_theorems ckpt_le "facts on little-endian encodings"
named_theorems ckpt_mem "facts on byte-addressed memory"
named_theorems ckpt_file "facts on reading and writing files"

section \<open>Words\<close>

lemma unat_less_u64 [simp]: "unat (x :: u64) < 18446744073709551616"
  using unsigned_less [of x, where 'a = nat] by simp

lemma unat_diff_le: "(a :: 'a :: len word) \<le> b \<Longrightarrow> unat (b - a) = unat b - unat a"
  by (simp add: unat_sub)

lemma unat_add_less:
  "unat (a :: u64) + n < 2 ^ 64 \<Longrightarrow> unat (a + of_nat n) = unat a + n"
  by (simp add: unat_word_ariths unsigned_of_nat take_bit_eq_mod)

lemma unat_of_nat_u64: "n < 2 ^ 64 \<Longrightarrow> unat (of_nat n :: u64) = n"
  by (simp add: unsigned_of_nat take_bit_eq_mod)

lemma unat_diff_of_nat:
  "n < 2 ^ 64 \<Longrightarrow>
   unat ((d :: u64) - of_nat n) = (if n \<le> unat d then unat d - n else unat d + 2 ^ 64 - n)"
  by (simp add: unat_sub_if_size word_size unat_of_nat_u64)

lemma add_of_nat_diff [simp]: "(a :: 'a :: len word) + of_nat n - a = of_nat n"
  by simp

lemma eq_of_nat_unatI: "unat (w :: 'a :: len word) = n \<Longrightarrow> w = of_nat n"
  by auto

lemma word_eq_add_of_nat_diff: "(x :: 'a :: len word) = a + of_nat (unat (x - a))"
  by simp

lemma sint_of_small:
  assumes "unat (w :: u64) < 2 ^ 63"
  shows "sint w = int (unat w)"
proof -
  have "uint w < 2 ^ 63"
    using assms by (simp flip: of_nat_less_iff [where 'a = int])
  then show ?thesis
    using int_word_sint [of "uint w", where 'a = 64] by simp
qed

lemma sint_of_large:
  assumes "2 ^ 63 \<le> unat (w :: u64)"
  shows "sint w < 0"
proof -
  have "2 ^ 63 \<le> uint w"
    using assms by (simp flip: of_nat_le_iff [where 'a = int])
  moreover have "uint w < 2 ^ 64"
    using uint_lt2p [of w] by simp
  ultimately show ?thesis
    using int_word_sint [of "uint w", where 'a = 64]
      mod_pos_pos_trivial [of "uint w - 2 ^ 63" "2 ^ 64 :: int"]
      mod_add_self2 [of "uint w - 2 ^ 63" "2 ^ 64 :: int"]
    by (simp add: add.commute)
qed

section \<open>Little-endian encodings\<close>

text \<open>
  The hosts and the RISC-V target are little-endian: \<open>le_enc n w\<close> is the image in memory of
  the \<open>n\<close> low bytes of \<open>w\<close>, and \<open>le_dec\<close> reads such an image back at the width of its type.
\<close>

definition le_enc :: "nat \<Rightarrow> 'a::len word \<Rightarrow> bytes" where
  "le_enc n w = map (\<lambda>i. ucast (drop_bit (8 * i) w)) [0..<n]"

fun le_dec :: "bytes \<Rightarrow> 'a::len word" where
  "le_dec [] = 0"
| "le_dec (b # bs) = ucast b OR push_bit 8 (le_dec bs)"

abbreviation le64 :: "u64 \<Rightarrow> bytes" where
  "le64 \<equiv> le_enc 8"

abbreviation le32 :: "u32 \<Rightarrow> bytes" where
  "le32 \<equiv> le_enc 4"

abbreviation un64 :: "bytes \<Rightarrow> u64" where
  "un64 \<equiv> le_dec"

abbreviation un32 :: "bytes \<Rightarrow> u32" where
  "un32 \<equiv> le_dec"

lemma length_le_enc [simp]: "length (le_enc n w) = n"
  by (simp add: le_enc_def)

lemma nth_le_enc: "i < n \<Longrightarrow> le_enc n w ! i = ucast (drop_bit (8 * i) w)"
  by (simp add: le_enc_def)

lemma bit_le_dec:
  "bit (le_dec bs :: 'a::len word) i \<longleftrightarrow>
     i < LENGTH('a) \<and> i < 8 * length bs \<and> bit (bs ! (i div 8)) (i mod 8)"
proof (induction bs arbitrary: i)
  case (Cons b bs)
  show ?case
  proof (cases "i < 8")
    case True
    then show ?thesis by (auto simp: bit_simps)
  next
    case False
    then obtain k where k: "i = k + 8" by (metis add.commute le_Suc_ex not_less)
    have nb: "\<not> bit b (k + 8)"
      using bit_imp_le_length [of b "k + 8"] by auto
    have "bit (le_dec (b # bs) :: 'a word) (k + 8) \<longleftrightarrow>
        k + 8 < LENGTH('a) \<and> bit (le_dec bs :: 'a word) k"
      using nb by (auto simp: bit_or_iff bit_push_bit_iff bit_unsigned_iff)
    then show ?thesis
      using Cons [of k] by (auto simp: k div_add_self2 mod_add_self2)
  qed
qed simp

lemma le_dec_enc [simp]:
  assumes "LENGTH('a) \<le> 8 * n"
  shows "le_dec (le_enc n (w :: 'a::len word)) = w"
proof (rule bit_word_eqI)
  fix i assume i: "i < LENGTH('a)"
  with assms have "i div 8 < n" by linarith
  with i assms show "bit (le_dec (le_enc n w) :: 'a word) i = bit w i"
    by (simp add: bit_le_dec nth_le_enc bit_simps)
qed

lemma le_enc_dec:
  assumes "8 * length bs \<le> LENGTH('a)"
  shows "le_enc (length bs) (le_dec bs :: 'a::len word) = bs"
proof (rule nth_equalityI)
  fix i assume "i < length (le_enc (length bs) (le_dec bs :: 'a word))"
  then have i: "i < length bs" by simp
  show "le_enc (length bs) (le_dec bs :: 'a word) ! i = bs ! i"
  proof (rule bit_word_eqI)
    fix k assume "k < LENGTH(8)"
    then have k: "k < 8" by simp
    with i have "8 * i + k < 8 * length bs" by linarith
    with i k assms show "bit (le_enc (length bs) (le_dec bs :: 'a word) ! i) k = bit (bs ! i) k"
      by (simp add: bit_le_dec nth_le_enc bit_simps)
  qed
qed simp

lemma le64_un64 [simp]: "length bs = 8 \<Longrightarrow> le64 (un64 bs) = bs"
  using le_enc_dec [of bs, where 'a = 64] by simp

lemma le32_un32 [simp]: "length bs = 4 \<Longrightarrow> le32 (un32 bs) = bs"
  using le_enc_dec [of bs, where 'a = 32] by simp

lemma un64_le64 [simp]: "un64 (le64 a) = a"
  by (rule le_dec_enc) simp

lemma un32_le32 [simp]: "un32 (le32 a) = a"
  by (rule le_dec_enc) simp

lemma le64_inject [simp]: "le64 a = le64 b \<longleftrightarrow> a = b"
  by (metis un64_le64)

lemma le64_0: "le64 0 = replicate 8 0"
  by (simp add: le_enc_def upt_rec numeral_eq_Suc)

lemma un64_eq_0_iff: "length bs = 8 \<Longrightarrow> un64 bs = 0 \<longleftrightarrow> bs = replicate 8 0"
  by (metis le64_un64 le64_inject le64_0)

section \<open>Byte-addressed memory\<close>

text \<open>
  A process image: one byte per 64-bit address. A store of several bytes at \<open>a\<close> is
  \<open>mem_write\<close>; addresses wrap around as \<open>uint64_t\<close> arithmetic does.
\<close>

type_synonym memory = "u64 \<Rightarrow> u8"

definition mem_write :: "memory \<Rightarrow> u64 \<Rightarrow> bytes \<Rightarrow> memory" where
  "mem_write m a bs = (\<lambda>x. if unat (x - a) < length bs then bs ! unat (x - a) else m x)"

definition mem_read :: "memory \<Rightarrow> u64 \<Rightarrow> nat \<Rightarrow> bytes" where
  "mem_read m a n = map (\<lambda>i. m (a + of_nat i)) [0..<n]"

definition in_range :: "u64 \<Rightarrow> u64 \<Rightarrow> nat \<Rightarrow> bool" where
  "in_range x a n \<longleftrightarrow> unat (x - a) < n"

lemma mem_write_Nil [simp]: "mem_write m a [] = m"
  by (simp add: mem_write_def)

lemma mem_write_in: "in_range x a (length bs) \<Longrightarrow> mem_write m a bs x = bs ! unat (x - a)"
  by (simp add: mem_write_def in_range_def)

lemma mem_write_out: "\<not> in_range x a (length bs) \<Longrightarrow> mem_write m a bs x = m x"
  by (simp add: mem_write_def in_range_def)

lemma in_range_no_wrap:
  assumes "unat a + n \<le> 2 ^ 64"
  shows "in_range x a n \<longleftrightarrow> unat a \<le> unat x \<and> unat x < unat a + n"
proof (cases "a \<le> x")
  case True
  then show ?thesis
    by (auto simp: in_range_def unat_diff_le word_le_nat_alt)
next
  case False
  then have lt: "unat x < unat a" by (simp add: word_le_nat_alt)
  have "unat (x - a) = 2 ^ 64 + unat x - unat a"
    using lt by (simp add: unat_sub_if_size word_size)
  with lt assms show ?thesis by (auto simp: in_range_def)
qed

lemma in_range_add:
  assumes "m < 2 ^ 64" and "m + n \<le> 2 ^ 64"
  shows "in_range x a (m + n) \<longleftrightarrow> in_range x a m \<or> in_range x (a + of_nat m) n"
  using unat_diff_of_nat [OF assms(1), of "x - a"] assms
  by (auto simp: in_range_def diff_diff_eq split: if_splits)

lemma in_range_of_nat: "k < n \<Longrightarrow> n \<le> 2 ^ 64 \<Longrightarrow> in_range (a + of_nat k) a n"
  by (simp add: in_range_def unat_of_nat_u64)

lemma in_rangeE:
  assumes "in_range x a n"
  obtains k where "k < n" and "x = a + of_nat k"
  using assms by (metis in_range_def word_eq_add_of_nat_diff)

lemma length_mem_read [simp]: "length (mem_read m a n) = n"
  by (simp add: mem_read_def)

lemma nth_mem_read: "i < n \<Longrightarrow> mem_read m a n ! i = m (a + of_nat i)"
  by (simp add: mem_read_def)

lemma mem_read_write_same:
  assumes "length bs \<le> 2 ^ 64"
  shows "mem_read (mem_write m a bs) a (length bs) = bs"
  by (rule nth_equalityI) (use assms in \<open>auto simp: nth_mem_read mem_write_def unat_of_nat_u64\<close>)

lemma mem_write_append:
  assumes "length xs + length ys \<le> 2 ^ 64"
  shows "mem_write m a (xs @ ys) = mem_write (mem_write m a xs) (a + of_nat (length xs)) ys"
proof
  fix x
  have u: "unat (x - (a + of_nat (length xs))) =
      (if length xs \<le> unat (x - a) then unat (x - a) - length xs
       else unat (x - a) + 2 ^ 64 - length xs)" if "length xs < 2 ^ 64"
    using unat_diff_of_nat [OF that, of "x - a"] by (simp add: diff_diff_eq)
  show "mem_write m a (xs @ ys) x = mem_write (mem_write m a xs) (a + of_nat (length xs)) ys x"
  proof (cases "ys = []")
    case False
    then have "length xs < 2 ^ 64" using assms by (cases ys) auto
    with assms show ?thesis by (auto simp: mem_write_def u nth_append)
  qed simp
qed

text \<open>Two blocks of memory that do not meet.\<close>

definition apart :: "u64 \<Rightarrow> nat \<Rightarrow> u64 \<Rightarrow> nat \<Rightarrow> bool" where
  "apart a n b k \<longleftrightarrow> n \<le> unat (b - a) \<and> k \<le> unat (a - b)"

lemma apart_sym: "apart a n b k \<Longrightarrow> apart b k a n"
  by (simp add: apart_def)

lemma unat_diff_swap: "a \<noteq> b \<Longrightarrow> unat (b - a) = 2 ^ 64 - unat (a - b :: u64)"
  by (cases "unat a \<le> unat b"; simp add: unat_sub_if_size word_size word_unat_eq_iff;
      use unat_less_u64 [of a] unat_less_u64 [of b] in linarith)

lemma apart_in_range:
  assumes "apart a n b k" and "in_range x a n"
  shows "\<not> in_range x b k"
proof -
  from assms(2) obtain i where i: "i < n" "x = a + of_nat i" by (rule in_rangeE)
  from assms(1) i have "a \<noteq> b" by (auto simp: apart_def)
  then have "unat (b - a) = 2 ^ 64 - unat (a - b)" by (rule unat_diff_swap)
  with assms(1) i have "unat (a - b) + i < 2 ^ 64"
    using unat_less_u64 [of "a - b"] by (simp add: apart_def) linarith
  then have "unat (a - b + of_nat i) = unat (a - b) + i" by (rule unat_add_less)
  with assms(1) show ?thesis by (simp add: in_range_def i apart_def add_diff_eq diff_add_eq)
qed

lemma apartI:
  assumes "unat a + n \<le> unat b \<or> unat b + k \<le> unat a" and "unat a + n \<le> 2 ^ 64" and "unat b + k \<le> 2 ^ 64"
    and "0 < n" "0 < k"
  shows "apart a n b k"
  using assms by (auto simp: apart_def unat_sub_if_size word_size)

lemma apart_sub:
  assumes "apart a n b k" and "i + j \<le> n" and "n \<le> 2 ^ 64" and "0 < j"
  shows "apart (a + of_nat i) j b k"
proof -
  have "in_range a a n" using assms by (simp add: in_range_def)
  from assms(1) this have "a \<noteq> b \<or> k = 0" by (metis apart_in_range in_range_def diff_self gr0I unsigned_0)
  then show ?thesis
  proof
    assume "a \<noteq> b"
    then have "unat (b - a) = 2 ^ 64 - unat (a - b)" by (rule unat_diff_swap)
    with assms have ab: "unat (a - b) + i < 2 ^ 64" "n \<le> unat (b - a)" "k \<le> unat (a - b)"
      using unat_less_u64 [of "a - b"] by (simp_all add: apart_def) linarith
    then have "unat (a + of_nat i - b) = unat (a - b) + i"
      using unat_add_less [OF ab(1)] by (simp add: add_diff_eq diff_add_eq)
    moreover have "unat (b - (a + of_nat i)) = unat (b - a) - i"
      using unat_diff_of_nat [of i "b - a"] ab assms by (simp add: diff_diff_eq)
    ultimately show ?thesis using ab assms by (simp add: apart_def)
  next
    assume "k = 0"
    have "n \<le> unat (b - a)" using assms by (simp add: apart_def)
    moreover have "unat (b - (a + of_nat i)) = unat (b - a) - i"
      using unat_diff_of_nat [of i "b - a"] calculation assms by (simp add: diff_diff_eq)
    ultimately show ?thesis using assms \<open>k = 0\<close> by (simp add: apart_def)
  qed
qed

lemma mem_read_write_apart [ckpt_mem]:
  assumes "apart a n b (length bs)"
  shows "n \<le> 2 ^ 64 \<Longrightarrow> mem_read (mem_write m b bs) a n = mem_read m a n"
  by (rule nth_equalityI)
    (auto simp: nth_mem_read intro!: mem_write_out apart_in_range [OF assms] in_range_of_nat)

lemma mem_read_write_sub [ckpt_mem]:
  assumes "i + n \<le> length bs" and "length bs \<le> 2 ^ 64"
  shows "mem_read (mem_write m a bs) (a + of_nat i) n = take n (drop i bs)"
proof (rule nth_equalityI)
  fix j assume "j < length (mem_read (mem_write m a bs) (a + of_nat i) n)"
  then have j: "j < n" by simp
  have "a + of_nat i + of_nat j - a = (of_nat (i + j) :: u64)" by simp
  then have "unat (a + of_nat i + of_nat j - a) = i + j"
    using assms j by (simp only:) (rule unat_of_nat_u64, linarith)
  with assms j show "mem_read (mem_write m a bs) (a + of_nat i) n ! j = take n (drop i bs) ! j"
    by (simp add: nth_mem_read mem_write_def)
qed (use assms in simp)

section \<open>Files read through a cursor\<close>

text \<open>
  A file opened for reading: its contents and the position of the cursor. \<open>fread\<close> returns
  the bytes that are there and moves the cursor by as many; a read past the end returns
  fewer bytes. A variable that is the target of a short \<open>fread\<close> keeps the bytes that were
  not transferred.
\<close>

record rfile =
  content :: bytes
  pos :: nat

definition fopen_rb :: "bytes \<Rightarrow> rfile" where
  "fopen_rb bs = \<lparr>content = bs, pos = 0\<rparr>"

definition rest :: "rfile \<Rightarrow> bytes" where
  "rest f = drop (pos f) (content f)"

definition fread :: "nat \<Rightarrow> rfile \<Rightarrow> bytes \<times> rfile" where
  "fread n f = (let bs = take n (rest f) in (bs, f\<lparr>pos := pos f + length bs\<rparr>))"

definition overlay :: "bytes \<Rightarrow> bytes \<Rightarrow> bytes" where
  "overlay bs old = bs @ drop (length bs) old"

definition fread64 :: "u64 \<Rightarrow> rfile \<Rightarrow> u64 \<times> rfile" where
  "fread64 old f = (case fread 8 f of (bs, f') \<Rightarrow> (un64 (overlay bs (le64 old)), f'))"

definition fseek_set :: "nat \<Rightarrow> rfile \<Rightarrow> rfile" where
  "fseek_set p f = f\<lparr>pos := p\<rparr>"

definition fseek_end :: "rfile \<Rightarrow> rfile" where
  "fseek_end f = f\<lparr>pos := length (content f)\<rparr>"

lemma content_fread [simp]: "content (snd (fread n f)) = content f"
  by (simp add: fread_def Let_def)

lemma fread_app [ckpt_file]:
  assumes "rest f = xs @ ys" and "length xs = n"
  shows "\<exists>f'. fread n f = (xs, f') \<and> rest f' = ys \<and> content f' = content f \<and> pos f' = pos f + n"
  using assms by (auto simp: fread_def rest_def Let_def add.commute simp flip: drop_drop)

lemma fread64_app [ckpt_file]:
  assumes "rest f = le64 v @ ys"
  shows "\<exists>f'. fread64 old f = (v, f') \<and> rest f' = ys \<and> content f' = content f \<and> pos f' = pos f + 8"
proof -
  obtain f' where "fread 8 f = (le64 v, f')" "rest f' = ys"
      "content f' = content f" "pos f' = pos f + 8"
    using fread_app [OF assms] by auto
  then show ?thesis
    by (simp add: fread64_def overlay_def)
qed

lemma rest_fopen [simp]: "rest (fopen_rb bs) = bs"
  by (simp add: fopen_rb_def rest_def)

text \<open>
  A local variable of \<open>n\<close> bytes that is read from a file: it starts uninitialised (the empty list)
  and keeps the bytes that a short read does not replace; its use is a fault while some of its
  bytes were never written.
\<close>

definition fread_var :: "nat \<Rightarrow> bytes \<Rightarrow> rfile \<Rightarrow> (bytes \<times> rfile) res" where
  "fread_var n old p =
     (case fread n p of (bs, p') \<Rightarrow>
        if length (overlay bs old) < n then Inl UninitRead else Inr (overlay bs old, p'))"

lemma fread_var_full:
  assumes "pos p + n \<le> length (content p)"
  shows "\<exists>p'. fread_var n old p = Inr (take n (drop (pos p) (content p)) @ drop n old, p') \<and> content p' = content p"
  using assms by (auto simp: fread_var_def fread_def rest_def overlay_def Let_def)

section \<open>Bounded buffers\<close>

text \<open>
  A C array or \<open>malloc\<close>ed block of \<open>blen\<close> bytes: \<open>peek\<close> and \<open>poke\<close> move several bytes at an
  index and fault outside the block.
\<close>

record cbuf =
  bm :: "nat \<Rightarrow> u8"
  blen :: nat

definition slice :: "cbuf \<Rightarrow> nat \<Rightarrow> nat \<Rightarrow> bytes" where
  "slice b i n = map (bm b) [i..<i + n]"

definition peek :: "cbuf \<Rightarrow> nat \<Rightarrow> nat \<Rightarrow> bytes res" where
  "peek b i n = (if i + n \<le> blen b then Inr (slice b i n) else Inl OutOfBounds)"

definition peek1 :: "cbuf \<Rightarrow> nat \<Rightarrow> u8 res" where
  "peek1 b i = (if i < blen b then Inr (bm b i) else Inl OutOfBounds)"

definition poked :: "cbuf \<Rightarrow> nat \<Rightarrow> bytes \<Rightarrow> cbuf" where
  "poked b i bs = b\<lparr>bm := (\<lambda>k. if i \<le> k \<and> k < i + length bs then bs ! (k - i) else bm b k)\<rparr>"

definition poke :: "cbuf \<Rightarrow> nat \<Rightarrow> bytes \<Rightarrow> cbuf res" where
  "poke b i bs = (if i + length bs \<le> blen b then Inr (poked b i bs) else Inl OutOfBounds)"

definition buf_of :: "bytes \<Rightarrow> cbuf" where
  "buf_of bs = \<lparr>bm = (\<lambda>k. if k < length bs then bs ! k else 0), blen = length bs\<rparr>"

lemma length_slice [simp]: "length (slice b i n) = n"
  by (simp add: slice_def)

lemma nth_slice: "k < n \<Longrightarrow> slice b i n ! k = bm b (i + k)"
  by (simp add: slice_def)

lemma slice_0 [simp]: "slice b i 0 = []"
  by (simp add: slice_def)

lemma slice_add: "slice b i (m + n) = slice b i m @ slice b (i + m) n"
  by (rule nth_equalityI) (auto simp: nth_slice nth_append add.assoc)

lemma slice_Suc: "slice b i (Suc n) = bm b i # slice b (Suc i) n"
  using slice_add [of b i 1 n] by (simp add: slice_def)

lemma take_slice: "m \<le> n \<Longrightarrow> take m (slice b i n) = slice b i m"
  by (rule nth_equalityI) (auto simp: nth_slice)

lemma drop_slice: "m \<le> n \<Longrightarrow> drop m (slice b i n) = slice b (i + m) (n - m)"
  by (rule nth_equalityI) (auto simp: nth_slice add.assoc)

lemma blen_poked [simp]: "blen (poked b i bs) = blen b"
  by (simp add: poked_def)

lemma bm_poked: "bm (poked b i bs) k = (if i \<le> k \<and> k < i + length bs then bs ! (k - i) else bm b k)"
  by (simp add: poked_def)

lemma bm_poked1: "bm (poked b i [x]) k = (if k = i then x else bm b k)"
  by (auto simp: bm_poked le_less_Suc_eq)

lemma slice_poked_below: "j + n \<le> i \<Longrightarrow> slice (poked b i bs) j n = slice b j n"
  by (rule nth_equalityI) (auto simp: nth_slice bm_poked)

lemma slice_poked_above: "i + length bs \<le> j \<Longrightarrow> slice (poked b i bs) j n = slice b j n"
  by (rule nth_equalityI) (auto simp: nth_slice bm_poked)

lemma slice_poked_at: "n \<le> length bs \<Longrightarrow> slice (poked b i bs) i n = take n bs"
  by (rule nth_equalityI) (auto simp: nth_slice bm_poked)

lemma slice_poked: "slice (poked b i bs) 0 (i + length bs) = slice b 0 i @ bs"
  by (simp add: slice_add slice_poked_below slice_poked_at)

lemma slice_buf_of: "n \<le> length bs \<Longrightarrow> slice (buf_of bs) 0 n = take n bs"
  by (rule nth_equalityI) (auto simp: nth_slice buf_of_def)

lemma blen_buf_of [simp]: "blen (buf_of bs) = length bs"
  by (simp add: buf_of_def)

lemma peek_buf_of: "i + n \<le> length bs \<Longrightarrow> peek (buf_of bs) i n = Inr (take n (drop i bs))"
  by (auto simp: peek_def buf_of_def slice_def intro: nth_equalityI)

lemma peek_buf_of_app: "i + n \<le> length xs \<Longrightarrow> peek (buf_of (xs @ ys)) i n = Inr (take n (drop i xs))"
  by (simp add: peek_buf_of)

end
