(* ===== verification/Settings.thy ===== *)
theory Settings
  imports CkptPrelude
begin

unbundle bit_operations_syntax

text \<open>
  Text settings: the parts of the C library that \<open>init_ckpt_settings\<close> (\<open>sim/ckpt_collect.cc\<close>) and
  \<open>init_trace_settings\<close> (\<open>sim/trace_collect.cc\<close>) read their files with (\<open>fgets\<close>, \<open>string::find\<close>,
  \<open>sscanf\<close>), the loop over the lines that both have, and the two parsers.
\<close>

section \<open>Lines\<close>

text \<open>\<open>fgets(str, n, p)\<close>: up to \<open>n - 1\<close> characters, ending behind a newline.\<close>

fun fgets_take :: "nat \<Rightarrow> string \<Rightarrow> string \<times> string" where
  "fgets_take 0 cs = ([], cs)"
| "fgets_take (Suc n) [] = ([], [])"
| "fgets_take (Suc n) (c # cs) =
     (if c = CHR 0x0A then ([c], cs) else (case fgets_take n cs of (s, r) \<Rightarrow> (c # s, r)))"

lemma fgets_take_append: "fgets_take n cs = (s, r) \<Longrightarrow> cs = s @ r"
  by (induction n cs arbitrary: s r rule: fgets_take.induct) (auto split: if_splits prod.splits)

lemma fgets_take_length: "length (fst (fgets_take n cs)) \<le> n"
  by (induction n cs rule: fgets_take.induct) (auto split: prod.splits)

lemma fgets_take_shorter: "fgets_take n cs = (s, r) \<Longrightarrow> s \<noteq> [] \<Longrightarrow> length r < length cs"
  using fgets_take_append [of n cs s r] by (cases s) simp_all

text \<open>
  The loop \<open>while(!feof(p)) { fgets(str, 300, p); if(strlen(str) < 1) break; str[strlen(str)-1] = 0; ... }\<close>:
  every piece loses its last character, be it a newline or not. A read that stops at the end of the
  file without a newline sets the end-of-file flag.
\<close>

function line_loop :: "(string \<Rightarrow> 's \<Rightarrow> 's res) \<Rightarrow> string \<Rightarrow> 's \<Rightarrow> 's res" where
  "line_loop step cs s =
     (let r = fgets_take 299 cs; str = fst r
      in if str = [] then Inr s
         else res_bind (step (butlast str) s) (\<lambda>s'.
                if snd r = [] \<and> length str < 299 \<and> last str \<noteq> CHR 0x0A then Inr s' else line_loop step (snd r) s'))"
  by pat_completeness auto
termination
proof (relation "measure (\<lambda>(step, cs, s). length cs)")
  fix step :: "string \<Rightarrow> 's \<Rightarrow> 's res" and cs r str s s'
  assume r: "r = fgets_take 299 cs" "str = fst r" "str \<noteq> []"
  show "((step, snd r, s'), step, cs, s) \<in> measure (\<lambda>(step, cs, s). length cs)"
    using fgets_take_shorter [of 299 cs str "snd r"] r by simp
qed simp

declare line_loop.simps [simp del]

section \<open>Searching and scanning\<close>

fun find_char :: "char \<Rightarrow> string \<Rightarrow> nat option" where
  "find_char c [] = None"
| "find_char c (x # xs) = (if x = c then Some 0 else map_option Suc (find_char c xs))"

fun starts_with :: "string \<Rightarrow> string \<Rightarrow> bool" where
  "starts_with [] ys = True"
| "starts_with (x # xs) [] = False"
| "starts_with (x # xs) (y # ys) = (x = y \<and> starts_with xs ys)"

fun contains :: "string \<Rightarrow> string \<Rightarrow> bool" where
  "contains w [] = (w = [])"
| "contains w (y # ys) = (starts_with w (y # ys) \<or> contains w ys)"

definition char_code :: "char \<Rightarrow> nat" where "char_code c = of_char c"

definition is_space :: "char \<Rightarrow> bool" where
  "is_space c \<longleftrightarrow> char_code c = 32 \<or> (9 \<le> char_code c \<and> char_code c \<le> 13)"

definition digit_val :: "nat \<Rightarrow> char \<Rightarrow> nat option" where
  "digit_val base c =
     (let n = char_code c;
          d = (if 48 \<le> n \<and> n \<le> 57 then n - 48 else if 97 \<le> n \<and> n \<le> 102 then n - 87
               else if 65 \<le> n \<and> n \<le> 70 then n - 55 else 99)
      in if d < base then Some d else None)"

fun scan_digits :: "nat \<Rightarrow> nat \<Rightarrow> string \<Rightarrow> nat \<times> string" where
  "scan_digits base acc [] = (acc, [])"
| "scan_digits base acc (c # cs) =
     (case digit_val base c of None \<Rightarrow> (acc, c # cs) | Some d \<Rightarrow> scan_digits base (acc * base + d) cs)"

text \<open>
  One \<open>%llx\<close> (base 16) or \<open>%lld\<close> (base 10) conversion: white space, a sign, for base 16 an optional
  \<open>0x\<close>, digits. \<open>None\<close> is a matching failure, which leaves the variable as it was. A value that does
  not fit is reduced modulo \<open>2 ^ 64\<close>.
\<close>

definition scan_num :: "nat \<Rightarrow> string \<Rightarrow> (u64 \<times> string) option" where
  "scan_num base cs =
     (let s1 = dropWhile is_space cs;
          neg = (s1 \<noteq> [] \<and> hd s1 = CHR ''-'');
          s2 = (if s1 \<noteq> [] \<and> (hd s1 = CHR ''-'' \<or> hd s1 = CHR ''+'') then tl s1 else s1);
          s3 = (if base = 16 \<and> (starts_with ''0x'' s2 \<or> starts_with ''0X'' s2) then drop 2 s2 else s2)
      in if s3 \<noteq> [] \<and> digit_val base (hd s3) \<noteq> None
         then case scan_digits base 0 s3 of (n, r) \<Rightarrow> Some (if neg then - of_nat n else of_nat n, r)
         else None)"

text \<open>Conversions in a row, as many as succeed.\<close>

fun scan_nums :: "nat \<Rightarrow> nat \<Rightarrow> string \<Rightarrow> u64 list" where
  "scan_nums base 0 cs = []"
| "scan_nums base (Suc k) cs =
     (case scan_num base cs of None \<Rightarrow> [] | Some (v, r) \<Rightarrow> v # scan_nums base k r)"

text \<open>
  The local variables \<open>v1\<close>, \<open>v2\<close>, ... of the parsers keep their values from line to line and start
  uninitialised.
\<close>

type_synonym scanvars = "u64 option list"

definition assign_vars :: "u64 list \<Rightarrow> scanvars \<Rightarrow> scanvars" where
  "assign_vars vs vars = map Some vs @ drop (length vs) vars"

definition var_val :: "scanvars \<Rightarrow> nat \<Rightarrow> u64 res" where
  "var_val vars i = (case vars ! i of None \<Rightarrow> Inl UninitRead | Some v \<Rightarrow> Inr v)"

definition skip_blanks :: "string \<Rightarrow> string" where
  "skip_blanks cs = dropWhile (\<lambda>c. c = CHR '' '') cs"

section \<open>Settings of the checkpoint collector\<close>

record CkptCtrl =
  ctrl_start :: u64
  ctrl_end :: u64
  ctrl_warmup :: u64

record CkptSettings =
  benchname :: string
  mmapend :: u64
  stack_base :: u64
  brk_point :: u64
  ctrls :: "CkptCtrl list"

definition CkptSettings_new :: CkptSettings where
  "CkptSettings_new = \<lparr>benchname = '''', mmapend = 0, stack_base = 0, brk_point = 0, ctrls = []\<rparr>"

definition BrkPoint_For_Ckpt :: u64 where "BrkPoint_For_Ckpt = 0x1400000"

text \<open>The state of the parser: settings, \<open>strictLength\<close>, the files named by \<open>readckpt\<close> lines, the variables.\<close>

record parse_state =
  ps_settings :: CkptSettings
  ps_strict :: bool
  ps_readckpt :: "string list"
  ps_vars :: scanvars

definition make_ctrls :: "u64 \<Rightarrow> u64 \<Rightarrow> u64 \<Rightarrow> u64 \<Rightarrow> CkptCtrl list" where
  "make_ctrls v1 v2 v3 v4 =
     map (\<lambda>i. let st = v1 + v2 * of_nat i - v3 in \<lparr>ctrl_start = st, ctrl_end = st + v2 + v3, ctrl_warmup = v3\<rparr>)
       [0..<unat v4]"

definition set_hex :: "string \<Rightarrow> (u64 \<Rightarrow> CkptSettings \<Rightarrow> CkptSettings) \<Rightarrow> parse_state \<Rightarrow> parse_state res" where
  "set_hex arg upd ps =
     (let vars = assign_vars (scan_nums 16 1 arg) (ps_vars ps)
      in res_bind (var_val vars 0) (\<lambda>v. Inr (ps\<lparr>ps_vars := vars, ps_settings := upd v (ps_settings ps)\<rparr>)))"

definition ckpt_line :: "string \<Rightarrow> parse_state \<Rightarrow> parse_state res" where
  "ckpt_line str ps =
     (case find_char CHR '':'' str of
        None \<Rightarrow> Inr ps
      | Some idx \<Rightarrow>
          let arg = drop (idx + 1) str in
          if contains ''mmapend'' str then set_hex arg (\<lambda>v s. s\<lparr>mmapend := v\<rparr>) ps
          else if contains ''stacktop'' str then set_hex arg (\<lambda>v s. s\<lparr>stack_base := v\<rparr>) ps
          else if contains ''brkpoint'' str then set_hex arg (\<lambda>v s. s\<lparr>brk_point := v\<rparr>) ps
          else if contains ''ckptprefix'' str
          then Inr (ps\<lparr>ps_settings := (ps_settings ps)\<lparr>benchname := skip_blanks arg\<rparr>\<rparr>)
          else if contains ''ckptctrl'' str
          then let vars = assign_vars (scan_nums 10 4 arg) (ps_vars ps)
               in res_bind (var_val vars 0) (\<lambda>v1. res_bind (var_val vars 1) (\<lambda>v2.
                  res_bind (var_val vars 2) (\<lambda>v3. res_bind (var_val vars 3) (\<lambda>v4.
                    Inr (ps\<lparr>ps_vars := vars,
                            ps_settings := (ps_settings ps)\<lparr>ctrls := ctrls (ps_settings ps) @ make_ctrls v1 v2 v3 v4\<rparr>\<rparr>)))))
          else if contains ''strictLength'' str then Inr (ps\<lparr>ps_strict := True\<rparr>)
          else if contains ''readckpt'' str then Inr (ps\<lparr>ps_readckpt := ps_readckpt ps @ [skip_blanks arg]\<rparr>)
          else Inr ps)"

definition finish_settings :: "parse_state \<Rightarrow> parse_state" where
  "finish_settings ps =
     (let s = ps_settings ps;
          s1 = s\<lparr>ctrls := sort_key ctrl_start (ctrls s)\<rparr>;
          s2 = (if ctrls s1 \<noteq> [] \<and> brk_point s1 = 0 then s1\<lparr>brk_point := BrkPoint_For_Ckpt\<rparr> else s1);
          s3 = (if ps_readckpt ps \<noteq> [] then s2\<lparr>brk_point := 0\<rparr> else s2)
      in ps\<lparr>ps_settings := s3\<rparr>)"

text \<open>
  The contents of the file are \<open>None\<close> when there is no file name or it cannot be opened. An empty
  file makes the first \<open>fgets\<close> fail, and \<open>strlen\<close> reads an uninitialised array.
\<close>

definition init_ckpt_settings :: "string option \<Rightarrow> CkptSettings \<Rightarrow> bool \<Rightarrow> parse_state res" where
  "init_ckpt_settings contents s strict =
     (let ps = \<lparr>ps_settings = s, ps_strict = strict, ps_readckpt = [], ps_vars = replicate 4 None\<rparr>
      in case contents of
           None \<Rightarrow> Inr ps
         | Some cs \<Rightarrow> if cs = [] then Inl UninitRead
                      else res_bind (line_loop ckpt_line cs ps) (\<lambda>ps'. Inr (finish_settings ps')))"

section \<open>Settings of the trace collector\<close>

record TraceCtrl =
  tr_start :: u64
  tr_end :: u64

record trace_settings =
  ts_maxpc :: u64
  ts_minpc :: u64
  ts_ckptstart :: u64
  ts_logname :: string
  ts_ctrls :: "TraceCtrl list"
  ts_vars :: scanvars

definition trace_settings_init :: trace_settings where
  "trace_settings_init = \<lparr>ts_maxpc = 0x9F0000000, ts_minpc = 0, ts_ckptstart = 0, ts_logname = '''', ts_ctrls = [],
     ts_vars = replicate 3 None\<rparr>"

definition make_tctrls :: "u64 \<Rightarrow> u64 \<Rightarrow> u64 \<Rightarrow> TraceCtrl list" where
  "make_tctrls v1 v2 v3 =
     map (\<lambda>i. let st = v1 + v2 * of_nat i in \<lparr>tr_start = st, tr_end = st + v2\<rparr>) [0..<unat v3]"

definition trace_line :: "string \<Rightarrow> trace_settings \<Rightarrow> trace_settings res" where
  "trace_line str ts =
     (case find_char CHR '':'' str of
        None \<Rightarrow> Inr ts
      | Some idx \<Rightarrow>
          let arg = drop (idx + 1) str;
              hex = assign_vars (scan_nums 16 1 arg) (ts_vars ts);
              dec = assign_vars (scan_nums 10 1 arg) (ts_vars ts)
          in
          if contains ''maxpc'' str then res_bind (var_val hex 0) (\<lambda>v. Inr (ts\<lparr>ts_vars := hex, ts_maxpc := v\<rparr>))
          else if contains ''minpc'' str then res_bind (var_val hex 0) (\<lambda>v. Inr (ts\<lparr>ts_vars := hex, ts_minpc := v\<rparr>))
          else if contains ''tracectrl'' str
          then let vars = assign_vars (scan_nums 10 3 arg) (ts_vars ts)
               in res_bind (var_val vars 0) (\<lambda>v1. res_bind (var_val vars 1) (\<lambda>v2. res_bind (var_val vars 2) (\<lambda>v3.
                    Inr (ts\<lparr>ts_vars := vars, ts_ctrls := ts_ctrls ts @ make_tctrls v1 v2 v3\<rparr>))))
          else if contains ''ckptstart'' str then res_bind (var_val dec 0) (\<lambda>v. Inr (ts\<lparr>ts_vars := dec, ts_ckptstart := v\<rparr>))
          else if contains ''logprefix'' str then Inr (ts\<lparr>ts_logname := skip_blanks arg\<rparr>)
          else Inr ts)"

text \<open>
  The buffer has 256 bytes but \<open>fgets\<close> may store 300: a piece of a line longer than 255 characters
  is an overflow. The result says whether tracing is on.
\<close>

definition trace_piece :: "string \<Rightarrow> trace_settings \<Rightarrow> trace_settings res" where
  "trace_piece str ts = (if 255 \<le> length str then Inl OutOfBounds else trace_line str ts)"

definition init_trace_settings :: "string option \<Rightarrow> trace_settings \<Rightarrow> (bool \<times> trace_settings) res" where
  "init_trace_settings contents ts =
     (case contents of
        None \<Rightarrow> Inr (False, ts)
      | Some cs \<Rightarrow> if cs = [] then Inl UninitRead
                   else res_bind (line_loop trace_piece cs ts) (\<lambda>ts'.
                     Inr (True, ts'\<lparr>ts_ctrls := sort_key tr_start (ts_ctrls ts')\<rparr>)))"

section \<open>Numbers in decimal\<close>

definition digit_char :: "nat \<Rightarrow> char" where
  "digit_char d = char_of (48 + d)"

fun dec_string :: "nat \<Rightarrow> string" where
  "dec_string n = (if n < 10 then [digit_char n] else dec_string (n div 10) @ [digit_char (n mod 10)])"

declare dec_string.simps [simp del]

lemma char_code_digit: "d < 10 \<Longrightarrow> char_code (digit_char d) = 48 + d"
  by (simp add: char_code_def digit_char_def)

lemma digit_val_digit: "d < 10 \<Longrightarrow> digit_val 10 (digit_char d) = Some d"
  by (simp add: digit_val_def char_code_digit)

lemma scan_digits_append:
  assumes "\<forall>c \<in> set ds. digit_val base c \<noteq> None"
  shows "scan_digits base acc (ds @ r) = scan_digits base (fst (scan_digits base acc ds)) r"
  using assms by (induction ds arbitrary: acc) auto

lemma dec_string_digits: "c \<in> set (dec_string n) \<Longrightarrow> \<exists>d < 10. c = digit_char d"
proof (induction n rule: dec_string.induct)
  case (1 n)
  then show ?case
    by (cases "n < 10") (auto simp: dec_string.simps [of n] intro: exI [of _ "n mod 10"])
qed

lemma scan_dec_string: "fst (scan_digits 10 acc (dec_string n)) = acc * 10 ^ length (dec_string n) + n"
proof (induction n arbitrary: acc rule: dec_string.induct)
  case (1 n)
  show ?case
  proof (cases "n < 10")
    case True
    then show ?thesis by (simp add: dec_string.simps [of n] digit_val_digit)
  next
    case False
    have ds: "\<forall>c \<in> set (dec_string (n div 10)). digit_val 10 c \<noteq> None"
      using dec_string_digits digit_val_digit by fastforce
    have "n mod 10 < 10" by simp
    then show ?thesis
      using False 1 [of acc] scan_digits_append [OF ds, of acc "[digit_char (n mod 10)]"]
      by (simp add: dec_string.simps [of n] digit_val_digit algebra_simps)
  qed
qed

lemma dec_string_nonempty: "dec_string n \<noteq> []"
  by (subst dec_string.simps) simp

lemma scan_num_dec:
  assumes "r = [] \<or> digit_val 10 (hd r) = None"
  shows "scan_num 10 (CHR '' '' # dec_string n @ r) = Some (of_nat n, r)"
proof -
  obtain d ds where d: "dec_string n = digit_char d # ds" "d < 10"
    using dec_string_nonempty [of n] dec_string_digits [of "hd (dec_string n)" n]
    by (cases "dec_string n") auto
  have nsp: "\<not> is_space (digit_char d)" "digit_char d \<noteq> CHR ''-''" "digit_char d \<noteq> CHR ''+''"
    using char_code_digit [OF d(2)] by (auto simp: is_space_def) (auto simp: char_code_def)
  have sp: "is_space CHR '' ''" by (simp add: is_space_def char_code_def)
  have dg: "\<forall>c \<in> set (dec_string n). digit_val 10 c \<noteq> None"
    using dec_string_digits digit_val_digit by fastforce
  have "scan_digits 10 0 (dec_string n @ r) = scan_digits 10 n r"
    using scan_digits_append [OF dg, of 0 r] scan_dec_string [of 0 n] by simp
  also have "\<dots> = (n, r)" using assms by (cases r) simp_all
  finally show ?thesis
    using nsp sp digit_val_digit [OF d(2)] by (simp add: scan_num_def Let_def d(1))
qed

section \<open>A control line\<close>

lemma starts_with_append:
  assumes "\<forall>c \<in> set w. c \<notin> set ys"
  shows "starts_with w (xs @ ys) \<longleftrightarrow> starts_with w xs"
  using assms
proof (induction w xs rule: starts_with.induct)
  case (2 x xs)
  then show ?case by (cases ys) auto
qed simp_all

lemma contains_append:
  assumes "w \<noteq> []" and "\<forall>c \<in> set w. c \<notin> set ys"
  shows "contains w (xs @ ys) \<longleftrightarrow> contains w xs"
proof -
  have none: "\<not> contains w zs" if "\<forall>c \<in> set w. c \<notin> set zs" for zs
    using that assms(1) by (induction zs) (cases w; auto)+
  show ?thesis
  proof (induction xs)
    case (Cons x xs)
    then show ?case using starts_with_append [OF assms(2), of "x # xs"] by simp
  qed (use none [OF assms(2)] assms(1) in simp)
qed

definition ctrl_args :: "nat \<Rightarrow> nat \<Rightarrow> nat \<Rightarrow> nat \<Rightarrow> string" where
  "ctrl_args a b c d =
     CHR '' '' # dec_string a @ CHR '' '' # dec_string b @ CHR '' '' # dec_string c @ CHR '' '' # dec_string d"

lemma scan_ctrl_args:
  "scan_nums 10 4 (ctrl_args a b c d) = [of_nat a, of_nat b, of_nat c, of_nat d]"
proof -
  have sp: "digit_val 10 CHR '' '' = None" by (simp add: digit_val_def char_code_def)
  show ?thesis
    using scan_num_dec [of "CHR '' '' # dec_string b @ CHR '' '' # dec_string c @ CHR '' '' # dec_string d" a]
      scan_num_dec [of "CHR '' '' # dec_string c @ CHR '' '' # dec_string d" b]
      scan_num_dec [of "CHR '' '' # dec_string d" c] scan_num_dec [of "[]" d] sp
    by (simp add: numeral_eq_Suc ctrl_args_def)
qed

lemma ctrl_args_chars: "c \<in> set (ctrl_args n1 n2 n3 n4) \<Longrightarrow> char_code c = 32 \<or> (48 \<le> char_code c \<and> char_code c \<le> 57)"
  using dec_string_digits char_code_digit unfolding ctrl_args_def by (fastforce simp: char_code_def)

lemma contains_ctrl_line:
  assumes "w \<noteq> []" "\<forall>c \<in> set w. 58 \<le> char_code c"
  shows "contains w (''ckptctrl:'' @ ctrl_args n1 n2 n3 n4) \<longleftrightarrow> contains w ''ckptctrl:''"
  using assms ctrl_args_chars by (intro contains_append) fastforce+

lemma ckpt_line_ctrl:
  assumes "length (ps_vars ps) = 4"
  shows "ckpt_line (''ckptctrl:'' @ ctrl_args n1 n2 n3 n4) ps =
    Inr (ps\<lparr>ps_vars := map Some [of_nat n1, of_nat n2, of_nat n3, of_nat n4],
            ps_settings := (ps_settings ps)\<lparr>ctrls := ctrls (ps_settings ps) @
              make_ctrls (of_nat n1) (of_nat n2) (of_nat n3) (of_nat n4)\<rparr>\<rparr>)"
proof -
  let ?l = "''ckptctrl:'' @ ctrl_args n1 n2 n3 n4"
  have c: "\<not> contains ''mmapend'' ?l" "\<not> contains ''stacktop'' ?l" "\<not> contains ''brkpoint'' ?l" "\<not> contains ''ckptprefix'' ?l"
    "contains ''ckptctrl'' ?l"
    by (subst contains_ctrl_line; simp add: char_code_def)+
  have "find_char CHR '':'' ?l = Some 8" by simp
  then show ?thesis
    using assms c unfolding ckpt_line_def
    by (simp add: scan_ctrl_args assign_vars_def var_val_def Let_def)
qed

text \<open>The slices of a control line, and the order after parsing.\<close>

lemma make_ctrls_nth:
  assumes "i < unat v4"
  shows "make_ctrls v1 v2 v3 v4 ! i =
    \<lparr>ctrl_start = v1 + v2 * of_nat i - v3, ctrl_end = v1 + v2 * of_nat (Suc i), ctrl_warmup = v3\<rparr>"
  using assms by (simp add: make_ctrls_def Let_def algebra_simps)

lemma finish_settings_sorted: "sorted (map ctrl_start (ctrls (ps_settings (finish_settings ps))))"
  by (simp add: finish_settings_def Let_def)

end
