(* ===== verification/AccessTrack.thy ===== *)
theory AccessTrack
  imports CkptPrelude "HOL-Library.RBT"
begin

unbundle bit_operations_syntax

text \<open>
  \<open>CkptInfo::addAddrInfo\<close>, \<open>addload\<close> and \<open>addstore\<close> of \<open>sim/ckptinfo.cc\<close>: while a
  checkpoint is being recorded, every load and store marks the bytes it touches in
  \<open>preAccess\<close>, a \<open>std::map\<close> from 8 KiB-aligned base addresses to arrays of 8192 flags, and
  a load whose bytes were not all touched before is kept in \<open>loads\<close> together with the bytes
  seen first. The abstract state is the set of bytes touched so far and, for the bytes first
  touched by a load, the value that load saw.
\<close>

section \<open>The flag table\<close>

definition AccessRange :: nat where
  "AccessRange = 8192"

definition AccessRangeBits :: nat where
  "AccessRangeBits = 13"

text \<open>
  One array of flags, by index; the table (\<open>std::map\<close>, a red-black tree) from base addresses
  to arrays; the caller's array \<open>uint8_t exist[8]\<close>, where \<open>None\<close> is a byte never written.
\<close>

type_synonym chunk = "nat \<Rightarrow> u8"
type_synonym access_map = "(u64, chunk) rbt"
type_synonym exist = "u8 option list"

definition exist_uninit :: exist where
  "exist_uninit = replicate 8 None"

text \<open>
  The two shapes of marking loop, \<open>n\<close> iterations from \<open>i\<close>, writing \<open>exist[i + off]\<close> and
  \<open>data[idx]\<close>: on a fresh array the old flag is written as 0, on an existing one it is read.
\<close>

fun mark_new :: "nat \<Rightarrow> nat \<Rightarrow> nat \<Rightarrow> chunk \<times> exist \<Rightarrow> (chunk \<times> exist) res" where
  "mark_new 0 e idx st = Inr st"
| "mark_new (Suc n) e idx (data, exist) =
     (if e < length exist \<and> idx < AccessRange
      then mark_new n (Suc e) (Suc idx) (data(idx := 1), exist[e := Some 0])
      else Inl OutOfBounds)"

fun mark_old :: "nat \<Rightarrow> nat \<Rightarrow> nat \<Rightarrow> chunk \<times> exist \<Rightarrow> (chunk \<times> exist) res" where
  "mark_old 0 e idx st = Inr st"
| "mark_old (Suc n) e idx (data, exist) =
     (if e < length exist \<and> idx < AccessRange
      then mark_old n (Suc e) (Suc idx) (data(idx := 1), exist[e := Some (data idx)])
      else Inl OutOfBounds)"

definition chunk_base :: "u64 \<Rightarrow> u64" where
  "chunk_base addr = push_bit AccessRangeBits (drop_bit AccessRangeBits addr)"

text \<open>
  The second half of \<open>addAddrInfo\<close>, for an access that crosses into the chunk at \<open>addr1\<close>.
  On an existing chunk the loop of the source runs \<open>len1\<close> times, not \<open>len2\<close> times.
\<close>

definition addAddrInfo_second ::
    "u64 \<Rightarrow> u8 \<Rightarrow> u8 \<Rightarrow> access_map \<times> exist \<Rightarrow> (access_map \<times> exist) res" where
  "addAddrInfo_second addr1 len1 len2 st =
     (case st of (preAccess, exist) \<Rightarrow>
      (case RBT.lookup preAccess addr1 of
         None \<Rightarrow> res_bind (mark_new (unat len2) (unat len1) 0 ((\<lambda>_. 0), exist))
           (\<lambda>(data, exist'). Inr (RBT.insert addr1 data preAccess, exist'))
       | Some data0 \<Rightarrow> res_bind (mark_old (unat len1) (unat len1) 0 (data0, exist))
           (\<lambda>(data, exist'). Inr (RBT.insert addr1 data preAccess, exist'))))"

definition addAddrInfo :: "u64 \<Rightarrow> u8 \<Rightarrow> access_map \<times> exist \<Rightarrow> (access_map \<times> exist) res" where
  "addAddrInfo addr sz st =
     (case st of (preAccess, exist) \<Rightarrow>
      let base = chunk_base addr;
          addr1 = base + of_nat AccessRange;
          crosses = addr + ucast sz - 1 \<ge> addr1;
          len2 = (if crosses then ucast (addr + ucast sz - addr1) else 0);
          len1 = (if crosses then sz - len2 else sz);
          idx = unat (addr - base)
      in res_bind
           (case RBT.lookup preAccess base of
              None \<Rightarrow> mark_new (unat len1) 0 idx ((\<lambda>_. 0), exist)
            | Some data0 \<Rightarrow> mark_old (unat len1) 0 idx (data0, exist))
           (\<lambda>(data, exist').
              (let preAccess' = RBT.insert base data preAccess
               in if len2 \<noteq> 0 then addAddrInfo_second addr1 len1 len2 (preAccess', exist')
                  else Inr (preAccess', exist'))))"

section \<open>Loads and stores\<close>

record LoadInfo =
  li_addr :: u64
  li_data :: "u8 option list"
  li_first :: u8
  li_size :: u8

text \<open>
  The loop of \<open>addload\<close> from \<open>i = size - 1\<close> down to 0: \<open>isFirst\<close> collects a bit per byte,
  \<open>info.data[i]\<close> is written only for the bytes not touched before.
\<close>

fun first_bits :: "nat \<Rightarrow> exist \<Rightarrow> bytes \<Rightarrow> u8 \<times> u8 option list \<Rightarrow> (u8 \<times> u8 option list) res" where
  "first_bits 0 exist data st = Inr st"
| "first_bits (Suc i) exist data (isFirst, d) =
     (if length exist \<le> i \<or> length d \<le> i \<or> length data \<le> i then Inl OutOfBounds
      else case exist ! i of
             None \<Rightarrow> Inl UninitRead
           | Some e \<Rightarrow>
               (let isFirst' = push_bit 1 isFirst
                in if e = 0 then first_bits i exist data (isFirst' + 1, d[i := Some (data ! i)])
                   else first_bits i exist data (isFirst', d)))"

definition addload :: "u64 \<Rightarrow> bytes \<Rightarrow> u8 \<Rightarrow> access_map \<times> LoadInfo list \<Rightarrow>
    (access_map \<times> LoadInfo list) res" where
  "addload addr data sz st =
     (case st of (preAccess, loads) \<Rightarrow>
      res_bind (addAddrInfo addr sz (preAccess, exist_uninit)) (\<lambda>(preAccess', exist).
      res_bind (first_bits (unat sz) exist data (0, replicate 8 None)) (\<lambda>(isFirst, d).
        if isFirst \<noteq> 0
        then Inr (preAccess', loads @ [\<lparr>li_addr = addr, li_data = d, li_first = isFirst, li_size = sz\<rparr>])
        else Inr (preAccess', loads))))"

definition addstore :: "u64 \<Rightarrow> u8 \<Rightarrow> access_map \<times> LoadInfo list \<Rightarrow>
    (access_map \<times> LoadInfo list) res" where
  "addstore addr sz st =
     (case st of (preAccess, loads) \<Rightarrow>
      res_bind (addAddrInfo addr sz (preAccess, exist_uninit)) (\<lambda>(preAccess', exist).
        Inr (preAccess', loads)))"

section \<open>What the marking loops do\<close>

definition marked :: "chunk \<Rightarrow> nat \<Rightarrow> nat \<Rightarrow> chunk" where
  "marked d lo n = (\<lambda>i. if lo \<le> i \<and> i < lo + n then 1 else d i)"

lemma mark_new_eq:
  assumes "e + n \<le> length ex" and "idx + n \<le> AccessRange"
  shows "mark_new n e idx (d, ex) =
    Inr (marked d idx n,
         take e ex @ replicate n (Some 0) @ drop (e + n) ex)"
  using assms
  unfolding marked_def
proof (induction n arbitrary: e idx d ex)
  case (Suc n)
  have "ex[e := Some 0] = take e ex @ Some 0 # drop (Suc e) ex"
    using Suc.prems by (simp add: upd_conv_take_nth_drop)
  with Suc.prems show ?case
    by (subst mark_new.simps) (auto simp: Suc.IH fun_eq_iff take_Suc_conv_app_nth add.commute [of e n])
qed (auto simp: fun_eq_iff)

lemma mark_old_eq:
  assumes "e + n \<le> length ex" and "idx + n \<le> AccessRange"
  shows "mark_old n e idx (d, ex) =
    Inr (marked d idx n,
         take e ex @ map (\<lambda>k. Some (d (idx + k))) [0..<n] @ drop (e + n) ex)"
  using assms
  unfolding marked_def
proof (induction n arbitrary: e idx d ex)
  case (Suc n)
  have u: "ex[e := Some (d idx)] = take e ex @ Some (d idx) # drop (Suc e) ex"
    using Suc.prems by (simp add: upd_conv_take_nth_drop)
  have m: "map (\<lambda>k. Some (d (idx + k))) [0..<Suc n] =
      Some (d idx) # map (\<lambda>k. Some (d (Suc (idx + k)))) [0..<n]"
    by (simp add: upt_conv_Cons map_Suc_upt [symmetric] del: upt_Suc)
  show ?case
    using Suc.prems
    by (subst mark_old.simps) (auto simp: Suc.IH fun_eq_iff u m add.commute [of e n] simp del: upt_Suc)
qed (auto simp: fun_eq_iff)

lemma mark_old_fault:
  assumes "length ex < e + n" and "e \<le> length ex" and "idx + n \<le> AccessRange"
  shows "mark_old n e idx (d, ex) = Inl OutOfBounds"
  using assms
proof (induction n arbitrary: e idx d ex)
  case (Suc n)
  show ?case
  proof (cases "e < length ex")
    case True
    with Suc.prems show ?thesis by (subst mark_old.simps) (simp add: Suc.IH)
  next
    case False
    with Suc.prems show ?thesis by (subst mark_old.simps) simp
  qed
qed simp

section \<open>Chunks and the set of touched bytes\<close>

lemma unat_chunk_base: "unat (chunk_base a) = unat a div 8192 * 8192"
proof -
  have "unat (chunk_base a) = take_bit 64 (push_bit 13 (unat a div 8192))"
    by (simp add: chunk_base_def AccessRangeBits_def unsigned_push_bit_eq unsigned_drop_bit_eq
        drop_bit_eq_div unat_div)
  also have "\<dots> = unat a div 8192 * 8192"
  proof -
    have "unat a div 8192 * 8192 \<le> unat a" by simp
    also have "unat a < 2 ^ 64" by simp
    finally show ?thesis
      by (simp add: push_bit_eq_mult take_bit_eq_mod)
  qed
  finally show ?thesis .
qed

lemma chunk_base_le: "chunk_base a \<le> a"
  by (simp add: word_le_nat_alt unat_chunk_base)

lemma unat_chunk_off: "unat (a - chunk_base a) = unat a mod 8192"
  using chunk_base_le [of a]
  by (simp add: unat_diff_le unat_chunk_base minus_div_mult_eq_mod)

lemma chunk_base_eq_iff: "chunk_base a = chunk_base b \<longleftrightarrow> unat a div 8192 = unat b div 8192"
  by (simp add: word_unat_eq_iff unat_chunk_base)

definition touched :: "access_map \<Rightarrow> u64 set" where
  "touched t = {a. \<exists>d. RBT.lookup t (chunk_base a) = Some d \<and> d (unat (a - chunk_base a)) \<noteq> 0}"

definition wf_access :: "access_map \<Rightarrow> bool" where
  "wf_access t \<longleftrightarrow>
     (\<forall>b d. RBT.lookup t b = Some d \<longrightarrow> chunk_base b = b \<and> (\<forall>i. d i = 0 \<or> d i = 1))"

lemma wf_accessD:
  "wf_access t \<Longrightarrow> RBT.lookup t b = Some d \<Longrightarrow> d i = 0 \<or> d i = 1"
  "wf_access t \<Longrightarrow> RBT.lookup t b = Some d \<Longrightarrow> chunk_base b = b"
  unfolding wf_access_def by blast+

lemma wf_access_empty: "wf_access RBT.empty"
  by (simp add: wf_access_def)

lemma touched_empty: "touched RBT.empty = {}"
  by (simp add: touched_def)

text \<open>The flags of one chunk as a total function: an absent chunk has no flag set.\<close>

definition flags :: "access_map \<Rightarrow> u64 \<Rightarrow> chunk" where
  "flags t b = (case RBT.lookup t b of None \<Rightarrow> (\<lambda>_. 0) | Some d \<Rightarrow> d)"

lemma touched_flags: "a \<in> touched t \<longleftrightarrow> flags t (chunk_base a) (unat (a - chunk_base a)) \<noteq> 0"
  by (auto simp: touched_def flags_def split: option.splits)

lemma flags_01: "wf_access t \<Longrightarrow> flags t b i = (if flags t b i \<noteq> 0 then 1 else 0)"
  using wf_accessD(1) [of t b] by (fastforce simp: flags_def split: option.splits)

lemma wf_access_insert:
  "wf_access t \<Longrightarrow> chunk_base b = b \<Longrightarrow>
   wf_access (RBT.insert b (marked (flags t b) lo n) t)"
  by (auto simp: wf_access_def marked_def flags_def split: if_splits option.splits)

lemma chunk_base_idem [simp]: "chunk_base (chunk_base a) = chunk_base a"
  by (simp add: word_unat_eq_iff unat_chunk_base)

text \<open>Marking \<open>n\<close> flags from \<open>lo\<close> in the chunk at \<open>b\<close> touches exactly those bytes.\<close>

lemma touched_insert:
  assumes b: "chunk_base b = b" and lo: "lo + n \<le> 8192"
  shows "touched (RBT.insert b (marked (flags t b) lo n) t) =
    touched t \<union> {x. chunk_base x = b \<and> lo \<le> unat (x - b) \<and> unat (x - b) < lo + n}"
  by (auto simp: touched_def flags_def marked_def split: if_splits option.splits)

lemma chunk_split:
  obtains q r where "unat (a :: u64) = 8192 * q + r" and "r < 8192"
    and "unat a div 8192 = q" and "unat a mod 8192 = r" and "q < 2251799813685248"
proof
  show "unat a = 8192 * (unat a div 8192) + unat a mod 8192" by simp
  show "unat a div 8192 < 2251799813685248"
    using unat_less_u64 [of a] by (simp add: less_mult_imp_div_less)
qed simp_all

lemma in_chunk_range:
  assumes "unat a mod 8192 + n \<le> 8192"
  shows "chunk_base x = chunk_base a \<and> unat a mod 8192 \<le> unat (x - chunk_base a) \<and>
      unat (x - chunk_base a) < unat a mod 8192 + n \<longleftrightarrow> in_range x a n"
proof -
  obtain q r where a: "unat a = 8192 * q + r" "r < 8192" "unat a div 8192 = q" "unat a mod 8192 = r"
    "q < 2251799813685248" by (rule chunk_split)
  obtain q' r' where x: "unat x = 8192 * q' + r'" "r' < 8192" "unat x div 8192 = q'"
    "unat x mod 8192 = r'" "q' < 2251799813685248" by (rule chunk_split)
  have fit: "unat a + n \<le> 2 ^ 64" using assms a by simp
  have off: "unat (x - chunk_base a) = r'" if "chunk_base x = chunk_base a"
    using that unat_chunk_off [of x] x(4) by simp
  have "in_range x a n \<longleftrightarrow> q' = q \<and> r \<le> r' \<and> r' < r + n"
  proof
    assume "in_range x a n"
    then have le: "unat a \<le> unat x" and lt: "unat x < unat a + n"
      by (simp_all add: in_range_no_wrap [OF fit])
    have "q < Suc q'" using le a(1) x(1,2) by linarith
    moreover have "q' < Suc q" using lt a(1) x(1) assms [unfolded a(4)] by linarith
    ultimately have "q' = q" by simp
    with le lt show "q' = q \<and> r \<le> r' \<and> r' < r + n" using a(1) x(1) by simp
  next
    assume "q' = q \<and> r \<le> r' \<and> r' < r + n"
    then show "in_range x a n" using a(1) x(1) by (simp add: in_range_no_wrap [OF fit])
  qed
  then show ?thesis
    using off by (auto simp: chunk_base_eq_iff a(3,4) x(3))
qed

section \<open>Marking one access\<close>

lemma first_chunk_eq:
  assumes "n \<le> length ex" and "idx + n \<le> 8192"
  shows "(case RBT.lookup t b of
            None \<Rightarrow> mark_new n 0 idx ((\<lambda>_. 0), ex)
          | Some d \<Rightarrow> mark_old n 0 idx (d, ex)) =
    Inr (marked (flags t b) idx n, map (\<lambda>k. Some (flags t b (idx + k))) [0..<n] @ drop n ex)"
  using assms
  by (auto simp: mark_new_eq mark_old_eq flags_def AccessRange_def map_replicate_trivial
      split: option.splits)

lemma user_chunk_end:
  assumes "unat addr < 2 ^ 63"
  shows "unat (chunk_base addr + 8192) = unat addr div 8192 * 8192 + 8192"
proof -
  have "unat addr div 8192 * 8192 + 8192 < 2 ^ 64"
    using assms div_times_less_eq_dividend [of "unat addr" 8192] by simp
  then show ?thesis
    using unat_add_less [of "chunk_base addr" 8192] by (simp add: unat_chunk_base)
qed

lemma crosses_iff:
  assumes "unat addr < 2 ^ 63" and "0 < unat sz" and "unat sz \<le> 8"
  shows "addr + ucast sz - 1 \<ge> chunk_base addr + 8192 \<longleftrightarrow>
    8192 < unat addr mod 8192 + unat (sz :: u8)"
proof -
  have u: "addr + ucast sz - 1 = addr + of_nat (unat sz - 1)"
    using assms(2) by (simp add: of_nat_diff)
  have "unat addr + (unat sz - 1) < 2 ^ 64" using assms by simp
  then have e: "unat (addr + ucast sz - 1) = unat addr + (unat sz - 1)"
    unfolding u by (rule unat_add_less)
  obtain q r where a: "unat addr = 8192 * q + r" "r < 8192" "unat addr div 8192 = q"
    "unat addr mod 8192 = r" by (rule chunk_split)
  show ?thesis
    unfolding word_le_nat_alt user_chunk_end [OF assms(1)] e a(3,4) using a(1) assms(2) by linarith
qed

lemma cross_len2:
  assumes "unat addr < 2 ^ 63" and "unat sz \<le> 8" and "8192 < unat addr mod 8192 + unat (sz :: u8)"
  shows "unat (ucast (addr + ucast sz - (chunk_base addr + 8192)) :: u8) =
    unat addr mod 8192 + unat sz - 8192"
proof -
  obtain q r where a: "unat addr = 8192 * q + r" "r < 8192" "unat addr div 8192 = q"
    "unat addr mod 8192 = r" by (rule chunk_split)
  have e: "unat (addr + ucast sz) = unat addr + unat sz"
    using unat_add_less [of addr "unat sz"] assms by simp
  have le: "chunk_base addr + 8192 \<le> addr + ucast sz"
    unfolding word_le_nat_alt user_chunk_end [OF assms(1)] e a(3)
    using a(1) assms(3) [unfolded a(4)] by linarith
  have "unat (addr + ucast sz - (chunk_base addr + 8192)) = r + unat sz - 8192"
    unfolding unat_diff_le [OF le] user_chunk_end [OF assms(1)] e a(3) using a(1) by linarith
  then show ?thesis
    using assms(2) a(2,4) by (simp add: unsigned_ucast_eq take_bit_eq_mod)
qed

lemma addAddrInfo_within:
  assumes a: "unat addr < 2 ^ 63" and s: "0 < unat sz" "unat sz \<le> 8" and l: "length ex = 8"
    and fit: "unat addr mod 8192 + unat sz \<le> 8192"
  shows "addAddrInfo addr sz (t, ex) =
    Inr (RBT.insert (chunk_base addr)
           (marked (flags t (chunk_base addr)) (unat addr mod 8192) (unat sz)) t,
         map (\<lambda>k. Some (flags t (chunk_base addr) (unat addr mod 8192 + k))) [0..<unat sz]
           @ drop (unat sz) ex)"
  using fit l s crosses_iff [OF a s]
  by (simp add: addAddrInfo_def Let_def AccessRange_def unat_chunk_off first_chunk_eq)

lemma addAddrInfo_across:
  assumes a: "unat addr < 2 ^ 63" and s: "0 < unat sz" "unat sz \<le> 8" and l: "length ex = 8"
    and cross: "8192 < unat addr mod 8192 + unat sz"
  defines "n1 \<equiv> 8192 - unat addr mod 8192" and "n2 \<equiv> unat addr mod 8192 + unat sz - 8192"
  shows "addAddrInfo addr sz (t, ex) =
    addAddrInfo_second (chunk_base addr + 8192) (of_nat n1) (of_nat n2)
      (RBT.insert (chunk_base addr)
         (marked (flags t (chunk_base addr)) (unat addr mod 8192) n1) t,
       map (\<lambda>k. Some (flags t (chunk_base addr) (unat addr mod 8192 + k))) [0..<n1] @ drop n1 ex)"
proof -
  have n: "n1 + n2 = unat sz" "n1 \<le> 8" "0 < n2" "unat addr mod 8192 + n1 = 8192"
    using s cross mod_less_divisor [of 8192 "unat addr"] by (simp_all add: n1_def n2_def)
  have l2: "(ucast (addr + ucast sz - (chunk_base addr + 8192)) :: u8) = of_nat n2"
    using cross_len2 [OF a s(2) cross] unfolding n2_def by (rule eq_of_nat_unatI)
  have l1: "sz - of_nat n2 = of_nat n1"
    using n(1) by (metis add_diff_cancel_right' of_nat_add eq_of_nat_unatI)
  have u1: "unat (of_nat n1 :: u8) = n1" and u2: "(of_nat n2 :: u8) \<noteq> 0"
    using n s by (simp_all add: unsigned_of_nat take_bit_eq_mod word_unat_eq_iff)
  show ?thesis
    using crosses_iff [OF a s] cross n l
    by (simp add: addAddrInfo_def Let_def AccessRange_def unat_chunk_off l2 l1 u1 u2 first_chunk_eq)
qed

text \<open>
  The bookkeeping is exact for an access inside one chunk, for one that reaches a chunk seen
  for the first time, and for one that is cut into two equal halves.
\<close>

definition bytes_left :: "u64 \<Rightarrow> nat" where
  "bytes_left addr = 8192 - unat addr mod 8192"

definition tracked_exactly :: "access_map \<Rightarrow> u64 \<Rightarrow> nat \<Rightarrow> bool" where
  "tracked_exactly t addr n \<longleftrightarrow>
     n \<le> bytes_left addr \<or> RBT.lookup t (chunk_base addr + 8192) = None \<or> n = 2 * bytes_left addr"

lemma next_chunk:
  assumes "unat addr < 2 ^ 63"
  shows "chunk_base (chunk_base addr + 8192) = chunk_base addr + 8192"
    and "chunk_base addr + 8192 = addr + of_nat (bytes_left addr)"
    and "chunk_base addr + 8192 \<noteq> chunk_base addr"
proof -
  obtain q r where a: "unat addr = 8192 * q + r" "r < 8192" "unat addr div 8192 = q"
    "unat addr mod 8192 = r" by (rule chunk_split)
  show "chunk_base (chunk_base addr + 8192) = chunk_base addr + 8192"
    by (simp add: word_unat_eq_iff unat_chunk_base user_chunk_end [OF assms])
  have "unat (addr + of_nat (bytes_left addr)) = unat addr + bytes_left addr"
    using assms a(2,4) by (intro unat_add_less) (simp add: bytes_left_def)
  then show "chunk_base addr + 8192 = addr + of_nat (bytes_left addr)"
    unfolding word_unat_eq_iff user_chunk_end [OF assms] using a by (simp add: bytes_left_def)
  show "chunk_base addr + 8192 \<noteq> chunk_base addr"
    by (simp add: word_unat_eq_iff user_chunk_end [OF assms] unat_chunk_base)
qed

lemma flags_at:
  assumes "wf_access t" and "chunk_base (addr + of_nat k) = b" and "unat (addr + of_nat k - b) = i"
  shows "flags t b i = (if addr + of_nat k \<in> touched t then 1 else 0)"
  using assms flags_01 [OF assms(1), of b i] by (auto simp: touched_flags)

lemma chunk_of_offset:
  assumes "unat addr < 2 ^ 63" and "k < bytes_left addr"
  shows "chunk_base (addr + of_nat k) = chunk_base addr"
    and "unat (addr + of_nat k - chunk_base addr) = unat addr mod 8192 + k"
proof -
  obtain q r where a: "unat addr = 8192 * q + r" "r < 8192" "unat addr div 8192 = q"
    "unat addr mod 8192 = r" by (rule chunk_split)
  have "k < 8192" using assms(2) by (simp add: bytes_left_def)
  then have u: "unat (addr + of_nat k) = 8192 * q + (r + k)"
    using assms(1) a(1) unat_add_less [of addr k] by simp
  have rk: "r + k < 8192" using assms(2) a by (simp add: bytes_left_def)
  show c: "chunk_base (addr + of_nat k) = chunk_base addr"
    unfolding chunk_base_eq_iff u a(3) using rk by simp
  have "unat (addr + of_nat k - chunk_base addr) = (8192 * q + (r + k)) mod 8192"
    using unat_chunk_off [of "addr + of_nat k"] unfolding c u .
  also have "\<dots> = r + k" using rk by simp
  finally show "unat (addr + of_nat k - chunk_base addr) = unat addr mod 8192 + k"
    by (simp add: a(4))
qed

lemma range_in_chunk:
  assumes "n \<le> bytes_left addr"
  shows "{x. chunk_base x = chunk_base addr \<and> unat addr mod 8192 \<le> unat (x - chunk_base addr) \<and>
      unat (x - chunk_base addr) < unat addr mod 8192 + n} = {x. in_range x addr n}"
  using assms mod_less_divisor [of 8192 "unat addr"]
  by (intro Collect_cong in_chunk_range) (simp add: bytes_left_def)

definition marks :: "access_map \<Rightarrow> u64 \<Rightarrow> nat \<Rightarrow> access_map \<Rightarrow> exist \<Rightarrow> bool" where
  "marks t addr n t' ex \<longleftrightarrow>
     wf_access t' \<and> touched t' = touched t \<union> {x. in_range x addr n} \<and> length ex = 8 \<and>
     (\<forall>k < n. ex ! k = Some (if addr + of_nat k \<in> touched t then 1 else 0))"

lemma marks_within:
  assumes t: "wf_access t" and a: "unat addr < 2 ^ 63" and s: "0 < unat sz" "unat sz \<le> 8"
    and l: "length ex = 8" and n: "unat sz \<le> bytes_left addr"
  shows "\<exists>t' ex'. addAddrInfo addr sz (t, ex) = Inr (t', ex') \<and> marks t addr (unat sz) t' ex'"
proof -
  let ?b = "chunk_base addr"
  let ?t = "RBT.insert ?b (marked (flags t ?b) (unat addr mod 8192) (unat sz)) t"
  let ?ex = "map (\<lambda>k. Some (flags t ?b (unat addr mod 8192 + k))) [0..<unat sz] @ drop (unat sz) ex"
  have fit: "unat addr mod 8192 + unat sz \<le> 8192"
    using n mod_less_divisor [of 8192 "unat addr"] by (simp add: bytes_left_def)
  have "?ex ! k = Some (if addr + of_nat k \<in> touched t then 1 else 0)" if "k < unat sz" for k
    using that n flags_at [OF t chunk_of_offset [OF a]] by (simp add: nth_append)
  then have "marks t addr (unat sz) ?t ?ex"
    using t fit l s(2) by (simp add: marks_def wf_access_insert touched_insert range_in_chunk [OF n])
  with addAddrInfo_within [OF a s l fit] show ?thesis by blast
qed

lemma addAddrInfo_second_eq:
  assumes n: "n1 + n2 \<le> 8" and l: "length ex = 8"
    and ok: "RBT.lookup t b1 = None \<or> n1 = n2"
  shows "addAddrInfo_second b1 (of_nat n1) (of_nat n2) (t, ex) =
    Inr (RBT.insert b1 (marked (flags t b1) 0 n2) t,
         take n1 ex @ map (\<lambda>k. Some (flags t b1 k)) [0..<n2] @ drop (n1 + n2) ex)"
proof -
  have u: "unat (of_nat n1 :: u8) = n1" "unat (of_nat n2 :: u8) = n2"
    using n by (simp_all add: unsigned_of_nat take_bit_eq_mod)
  show ?thesis
    using n l ok
    by (auto simp: addAddrInfo_second_def u mark_new_eq mark_old_eq AccessRange_def flags_def
        map_replicate_trivial split: option.splits)
qed

lemma next_chunk_flag:
  assumes t: "wf_access t" and a: "unat addr < 2 ^ 63" and j: "j < 8"
  shows "flags t (chunk_base addr + 8192) j =
    (if addr + of_nat (bytes_left addr + j) \<in> touched t then 1 else 0)"
proof -
  let ?b1 = "chunk_base addr + 8192"
  have ak: "addr + of_nat (bytes_left addr + j) = ?b1 + of_nat j"
    unfolding next_chunk(2) [OF a] by simp
  have "unat (?b1 + of_nat j) = unat ?b1 + j"
    using a j user_chunk_end [OF a] div_times_less_eq_dividend [of "unat addr" 8192]
    by (intro unat_add_less) simp
  moreover have "(q * 8192 + 8192 + j) div 8192 * 8192 = q * 8192 + 8192" for q
  proof -
    have "(Suc q * 8192 + j) div 8192 = Suc q" using j by (simp del: mult_Suc)
    then show ?thesis by (simp add: ac_simps)
  qed
  ultimately have "chunk_base (?b1 + of_nat j) = ?b1"
    by (simp add: word_unat_eq_iff unat_chunk_base user_chunk_end [OF a])
  moreover have "unat (?b1 + of_nat j - ?b1) = j"
    using j by (simp add: unat_of_nat_u64)
  ultimately show ?thesis
    unfolding ak by (rule flags_at [OF t])
qed

lemma touched_two_chunks:
  fixes t :: access_map
  assumes a: "unat addr < 2 ^ 63" and n: "bytes_left addr + n2 \<le> 8"
  defines "b \<equiv> chunk_base addr" and "b1 \<equiv> chunk_base addr + 8192"
  defines "t1 \<equiv> RBT.insert b (marked (flags t b) (unat addr mod 8192) (bytes_left addr)) t"
  shows "touched (RBT.insert b1 (marked (flags t1 b1) 0 n2) t1) =
    touched t \<union> {x. in_range x addr (bytes_left addr + n2)}"
proof -
  have c: "unat addr mod 8192 + bytes_left addr \<le> 8192" by (simp add: bytes_left_def)
  have t1: "touched t1 = touched t \<union> {x. in_range x addr (bytes_left addr)}"
    unfolding t1_def b_def by (simp add: touched_insert [OF _ c] range_in_chunk)
  have b1: "chunk_base b1 = b1" "b1 = addr + of_nat (bytes_left addr)"
    unfolding b1_def by (rule next_chunk [OF a])+
  have off: "unat b1 mod 8192 = 0"
    unfolding b1_def by (simp add: user_chunk_end [OF a])
  have "n2 \<le> bytes_left b1" using n off by (simp add: bytes_left_def)
  from range_in_chunk [OF this] have
    "touched (RBT.insert b1 (marked (flags t1 b1) 0 n2) t1) = touched t1 \<union> {x. in_range x b1 n2}"
    using n off b1(1) by (simp add: touched_insert)
  moreover have "in_range x addr (bytes_left addr + n2) \<longleftrightarrow> in_range x addr (bytes_left addr) \<or> in_range x b1 n2" for x
    using n unfolding b1(2) by (intro in_range_add) simp_all
  ultimately show ?thesis by (auto simp: t1)
qed

lemma marks_across:
  assumes t: "wf_access t" and a: "unat addr < 2 ^ 63" and s: "0 < unat sz" "unat sz \<le> 8"
    and l: "length ex = 8" and n: "bytes_left addr < unat sz" and ok: "tracked_exactly t addr (unat sz)"
  shows "\<exists>t' ex'. addAddrInfo addr sz (t, ex) = Inr (t', ex') \<and> marks t addr (unat sz) t' ex'"
proof -
  define n1 n2 where "n1 = bytes_left addr" and "n2 = unat sz - bytes_left addr"
  let ?b = "chunk_base addr"
  let ?b1 = "?b + 8192"
  let ?r = "unat addr mod 8192"
  let ?t1 = "RBT.insert ?b (marked (flags t ?b) ?r n1) t"
  let ?ex1 = "map (\<lambda>k. Some (flags t ?b (?r + k))) [0..<n1] @ drop n1 ex"
  let ?t2 = "RBT.insert ?b1 (marked (flags ?t1 ?b1) 0 n2) ?t1"
  let ?ex2 = "take n1 ?ex1 @ map (\<lambda>k. Some (flags ?t1 ?b1 k)) [0..<n2] @ drop (n1 + n2) ?ex1"
  have cross: "8192 < ?r + unat sz" and n2: "?r + unat sz - 8192 = n2"
    using n mod_less_divisor [of 8192 "unat addr"] by (simp_all add: bytes_left_def n2_def)
  have sz: "n1 + n2 = unat sz" "n1 \<le> 8" "n2 \<le> 8" using n s(2) by (simp_all add: n1_def n2_def)
  have fl: "flags ?t1 ?b1 = flags t ?b1"
    using next_chunk(3) [OF a] by (simp add: flags_def)
  have ok1: "RBT.lookup ?t1 ?b1 = None \<or> n1 = n2"
    using ok n next_chunk(3) [OF a] by (auto simp: tracked_exactly_def n1_def n2_def)
  have "addAddrInfo addr sz (t, ex) = addAddrInfo_second ?b1 (of_nat n1) (of_nat n2) (?t1, ?ex1)"
    using addAddrInfo_across [OF a s l cross] by (simp add: n2 bytes_left_def n1_def)
  also have "\<dots> = Inr (?t2, ?ex2)"
    using sz s(2) l by (intro addAddrInfo_second_eq [OF _ _ ok1]) simp_all
  finally have eq: "addAddrInfo addr sz (t, ex) = Inr (?t2, ?ex2)" .
  have wf2: "wf_access ?t2"
    using t next_chunk(1) [OF a] by (simp add: wf_access_insert)
  have ex: "?ex2 ! k = Some (if addr + of_nat k \<in> touched t then 1 else 0)" if k: "k < unat sz" for k
  proof (cases "k < n1")
    case True
    then show ?thesis
      using flags_at [OF t chunk_of_offset [OF a]] sz by (simp add: nth_append n1_def)
  next
    case False
    then have k': "k = n1 + (k - n1)" "k - n1 < 8" using k s(2) by simp_all
    then show ?thesis
      using k sz l next_chunk_flag [OF t a k'(2)] unfolding fl by (simp add: nth_append n1_def)
  qed
  have tch: "touched ?t2 = touched t \<union> {x. in_range x addr (unat sz)}"
    using touched_two_chunks [OF a, of n2 t] sz s(2) by (simp add: n1_def)
  have "length ?ex2 = 8" using sz s(2) l by simp
  then have "marks t addr (unat sz) ?t2 ?ex2"
    unfolding marks_def using wf2 tch ex by blast
  with eq show ?thesis by blast
qed

theorem addAddrInfo_marks:
  assumes "wf_access t" and "unat addr < 2 ^ 63" and "0 < unat sz" and "unat sz \<le> 8"
    and "length ex = 8" and "tracked_exactly t addr (unat sz)"
  shows "\<exists>t' ex'. addAddrInfo addr sz (t, ex) = Inr (t', ex') \<and> marks t addr (unat sz) t' ex'"
  using marks_within [OF assms(1-5)] marks_across [OF assms(1-5) _ assms(6)]
  by (cases "unat sz \<le> bytes_left addr") auto

section \<open>Recording loads and stores\<close>

lemma first_bits_eq:
  assumes "n \<le> length ex" and "n \<le> length d" and "n \<le> length data" and "n \<le> 8"
    and "\<forall>k < n. \<exists>e. ex ! k = Some e"
  shows "\<exists>f' d'. first_bits n ex data (f, d) = Inr (f', d') \<and> length d' = length d \<and>
    (\<forall>k < n. ex ! k = Some 0 \<longrightarrow> d' ! k = Some (data ! k)) \<and>
    (\<forall>k < 8. bit f' k \<longleftrightarrow> (if k < n then ex ! k = Some 0 else bit f (k - n))) \<and>
    (\<forall>k. n \<le> k \<longrightarrow> d' ! k = d ! k)"
  using assms
proof (induction n arbitrary: f d)
  case (Suc n)
  obtain e where e: "ex ! n = Some e" using Suc.prems(5) by blast
  have dbl: "bit (f * 2 :: u8) k \<longleftrightarrow> 0 < k \<and> k < 8 \<and> bit f (k - 1)" for k
    by (auto simp: mult.commute [of f] bit_double_iff)
  have "f * 2 + 1 = f * 2 OR (1 :: u8)"
    by (rule disjunctive_add) (auto simp: bit_1_iff dbl)
  then have dbl1: "bit (f * 2 + 1 :: u8) k \<longleftrightarrow> k = 0 \<or> bit (f * 2) k" for k
    by (auto simp: bit_or_iff bit_1_iff)
  define f1 where "f1 = (if e = 0 then push_bit 1 f + 1 else push_bit 1 f)"
  define d1 where "d1 = (if e = 0 then d[n := Some (data ! n)] else d)"
  have step: "first_bits (Suc n) ex data (f, d) = first_bits n ex data (f1, d1)"
    using Suc.prems e by (simp add: Let_def f1_def d1_def)
  have f1: "bit f1 k \<longleftrightarrow> (if k = 0 then e = 0 else bit f (k - 1))" if "k < 8" for k
    using that unfolding f1_def by (auto simp: dbl dbl1)
  have len: "length d1 = length d" by (simp add: d1_def)
  then obtain f' d' where r: "first_bits n ex data (f1, d1) = Inr (f', d')"
    "length d' = length d1" "\<forall>k<n. ex ! k = Some 0 \<longrightarrow> d' ! k = Some (data ! k)"
    "\<forall>k<8. bit f' k = (if k < n then ex ! k = Some 0 else bit f1 (k - n))"
    "\<forall>k\<ge>n. d' ! k = d1 ! k"
    using Suc.IH [of d1 f1] Suc.prems by auto
  have "d' ! k = Some (data ! k)" if "k < Suc n" "ex ! k = Some 0" for k
    using that r(3,5) e Suc.prems(2) by (cases "k = n") (auto simp: d1_def)
  moreover have "bit f' k = (if k < Suc n then ex ! k = Some 0 else bit f (k - Suc n))" if "k < 8" for k
    using that r(4) f1 [of "k - n"] e by (auto simp: less_Suc_eq)
  moreover have "d' ! k = d ! k" if "Suc n \<le> k" for k
    using that r(5) by (simp add: d1_def)
  ultimately show ?case
    using step r(1,2) len by auto
qed auto

text \<open>
  A \<open>LoadInfo\<close> describes the load of \<open>data\<close> at \<open>addr\<close> seen when the bytes \<open>T\<close> had been
  touched: bit \<open>k\<close> of \<open>first\<close> is set exactly for the bytes seen first, and their values are
  in \<open>data\<close>.
\<close>

definition describes :: "u64 set \<Rightarrow> u64 \<Rightarrow> bytes \<Rightarrow> u8 \<Rightarrow> LoadInfo \<Rightarrow> bool" where
  "describes T addr data sz li \<longleftrightarrow>
     li_addr li = addr \<and> li_size li = sz \<and> length (li_data li) = 8 \<and>
     (\<forall>k < 8. bit (li_first li) k \<longleftrightarrow> k < unat sz \<and> addr + of_nat k \<notin> T) \<and>
     (\<forall>k < unat sz. addr + of_nat k \<notin> T \<longrightarrow> li_data li ! k = Some (data ! k))"

lemma u8_eq_0_iff: "(f :: u8) = 0 \<longleftrightarrow> (\<forall>k < 8. \<not> bit f k)"
  using bit_eq_iff [of f 0] bit_imp_le_length [of f] by fastforce

lemma addload_records:
  assumes "wf_access t" and "unat addr < 2 ^ 63" and "0 < unat sz" and "unat sz \<le> 8"
    and "length data = unat sz" and "tracked_exactly t addr (unat sz)"
  shows "\<exists>t' li. addload addr data sz (t, loads) =
      Inr (t', if {x. in_range x addr (unat sz)} \<subseteq> touched t then loads else loads @ [li]) \<and>
    wf_access t' \<and> touched t' = touched t \<union> {x. in_range x addr (unat sz)} \<and>
    describes (touched t) addr data sz li"
proof -
  obtain t' ex where m: "addAddrInfo addr sz (t, exist_uninit) = Inr (t', ex)"
    "marks t addr (unat sz) t' ex"
    using addAddrInfo_marks [OF assms(1-4) _ assms(6), of exist_uninit]
    by (auto simp: exist_uninit_def)
  then have ex: "ex ! k = Some (if addr + of_nat k \<in> touched t then 1 else 0)" if "k < unat sz" for k
    using that by (simp add: marks_def)
  have l: "length ex = 8" using m(2) by (simp add: marks_def)
  then obtain f d where fb: "first_bits (unat sz) ex data (0, replicate 8 None) = Inr (f, d)"
    "length d = 8" "\<forall>k < unat sz. ex ! k = Some 0 \<longrightarrow> d ! k = Some (data ! k)"
    "\<forall>k < 8. bit f k \<longleftrightarrow> (if k < unat sz then ex ! k = Some 0 else bit (0 :: u8) (k - unat sz))"
    using first_bits_eq [of "unat sz" ex "replicate 8 None" data 0] assms(4,5) ex by auto
  let ?li = "\<lparr>li_addr = addr, li_data = d, li_first = f, li_size = sz\<rparr>"
  have desc: "describes (touched t) addr data sz ?li"
    using fb ex by (auto simp: describes_def split: if_splits)
  have "f = 0 \<longleftrightarrow> {x. in_range x addr (unat sz)} \<subseteq> touched t"
  proof
    assume "f = 0"
    then show "{x. in_range x addr (unat sz)} \<subseteq> touched t"
      using desc assms(4) by (fastforce simp: describes_def elim: in_rangeE)
  next
    assume "{x. in_range x addr (unat sz)} \<subseteq> touched t"
    then have "addr + of_nat k \<in> touched t" if "k < unat sz" for k
      using in_range_of_nat [OF that, of addr] assms(4) by auto
    then show "f = 0"
      using desc by (simp add: u8_eq_0_iff describes_def)
  qed
  then have "addload addr data sz (t, loads) =
      Inr (t', if {x. in_range x addr (unat sz)} \<subseteq> touched t then loads else loads @ [?li])"
    using m(1) fb(1) by (simp add: addload_def)
  with m(2) desc show ?thesis unfolding marks_def by blast
qed

lemma addstore_records:
  assumes "wf_access t" and "unat addr < 2 ^ 63" and "0 < unat sz" and "unat sz \<le> 8"
    and "tracked_exactly t addr (unat sz)"
  shows "\<exists>t'. addstore addr sz (t, loads) = Inr (t', loads) \<and> wf_access t' \<and>
    touched t' = touched t \<union> {x. in_range x addr (unat sz)}"
proof -
  obtain t' ex where "addAddrInfo addr sz (t, exist_uninit) = Inr (t', ex)"
    "marks t addr (unat sz) t' ex"
    using addAddrInfo_marks [OF assms(1-4) _ assms(5), of exist_uninit]
    by (auto simp: exist_uninit_def)
  then show ?thesis by (auto simp: addstore_def marks_def)
qed

text \<open>
  An access that reaches a chunk already present: the second loop runs as often as the first
  one, so twice \<open>bytes_left addr\<close> bytes are marked, whatever the size of the access, and when that is
  more than 8 the loop writes past the caller's array.
\<close>

lemma addAddrInfo_known_neighbour:
  assumes t: "wf_access t" and a: "unat addr < 2 ^ 63" and s: "0 < unat sz" "unat sz \<le> 8"
    and l: "length ex = 8" and n: "bytes_left addr < unat sz"
    and d: "RBT.lookup t (chunk_base addr + 8192) = Some d"
  shows "4 < bytes_left addr \<Longrightarrow> addAddrInfo addr sz (t, ex) = Inl OutOfBounds"
    and "bytes_left addr \<le> 4 \<Longrightarrow> \<exists>t' ex'. addAddrInfo addr sz (t, ex) = Inr (t', ex') \<and>
           touched t' = touched t \<union> {x. in_range x addr (2 * bytes_left addr)} \<and>
           (\<forall>k. 2 * bytes_left addr \<le> k \<and> k < 8 \<longrightarrow> ex' ! k = ex ! k)"
proof -
  let ?b = "chunk_base addr"
  let ?r = "unat addr mod 8192"
  let ?n2 = "?r + unat sz - 8192"
  let ?t1 = "RBT.insert ?b (marked (flags t ?b) ?r (bytes_left addr)) t"
  let ?ex1 = "map (\<lambda>k. Some (flags t ?b (?r + k))) [0..<bytes_left addr] @ drop (bytes_left addr) ex"
  have cross: "8192 < ?r + unat sz"
    using n mod_less_divisor [of 8192 "unat addr"] by (simp add: bytes_left_def)
  have eq: "addAddrInfo addr sz (t, ex) =
      addAddrInfo_second (?b + 8192) (of_nat (bytes_left addr)) (of_nat ?n2) (?t1, ?ex1)"
    using addAddrInfo_across [OF a s l cross] by (simp add: bytes_left_def)
  have d1: "RBT.lookup ?t1 (?b + 8192) = Some d" "flags ?t1 (?b + 8192) = d"
    using d next_chunk(3) [OF a] by (simp_all add: flags_def)
  have u: "unat (of_nat (bytes_left addr) :: u8) = bytes_left addr" and l1: "length ?ex1 = 8"
    using n s(2) l by (simp_all add: unsigned_of_nat take_bit_eq_mod)
  show "addAddrInfo addr sz (t, ex) = Inl OutOfBounds" if "4 < bytes_left addr"
    unfolding eq using that l1 n s(2) d1(1)
    by (simp add: addAddrInfo_second_def u mark_old_fault AccessRange_def)
  show "\<exists>t' ex'. addAddrInfo addr sz (t, ex) = Inr (t', ex') \<and>
           touched t' = touched t \<union> {x. in_range x addr (2 * bytes_left addr)} \<and>
           (\<forall>k. 2 * bytes_left addr \<le> k \<and> k < 8 \<longrightarrow> ex' ! k = ex ! k)" if "bytes_left addr \<le> 4"
    unfolding eq using that l l1 d1 touched_two_chunks [OF a, of "bytes_left addr" t]
    by (auto simp: addAddrInfo_second_def u mark_old_eq AccessRange_def nth_append mult_2)
qed

end
