(* ===== verification/FirstLoads.thy ===== *)
theory FirstLoads
  imports AccessTrack
begin

unbundle bit_operations_syntax

text \<open>
  \<open>CkptInfo::getFistloads\<close> and \<open>combine_loads\<close> of \<open>sim/ckptinfo.cc\<close>: at the end of a
  checkpoint the recorded loads are cut into single bytes, sorted, and packed into records of
  eight bytes; records that hold only zeros are dropped, since the memory they would
  initialise is zero already. The theory shows that recording followed by packing is exact:
  the packed records, stored into zeroed memory, give every byte that the program loads
  before storing it the value it saw, and leave every other byte zero.
\<close>

section \<open>Cutting loads into bytes\<close>

text \<open>
  A byte of the vector \<open>temploads\<close>: the fields \<open>addr\<close> and \<open>data[0]\<close>, the only ones the
  source writes there and reads back.
\<close>

type_synonym byte_load = "u64 \<times> u8"

fun expand_bits :: "nat \<Rightarrow> nat \<Rightarrow> u8 \<Rightarrow> LoadInfo \<Rightarrow> byte_load list \<Rightarrow> byte_load list res" where
  "expand_bits 0 j isFirst li temploads = Inr temploads"
| "expand_bits (Suc n) j isFirst li temploads =
     (if isFirst mod 2 = 1
      then (if length (li_data li) \<le> j then Inl OutOfBounds
            else case li_data li ! j of
                   None \<Rightarrow> Inl UninitRead
                 | Some b \<Rightarrow> expand_bits n (Suc j) (drop_bit 1 isFirst) li
                     (temploads @ [(li_addr li + of_nat j, b)]))
      else expand_bits n (Suc j) (drop_bit 1 isFirst) li temploads)"

definition expand_load :: "LoadInfo \<Rightarrow> byte_load list \<Rightarrow> byte_load list res" where
  "expand_load li temploads = expand_bits (unat (li_size li)) 0 (li_first li) li temploads"

section \<open>Packing bytes into records\<close>

record FirstLoadInfo =
  fl_addr :: u64
  fl_data :: bytes

definition fresh_record :: "byte_load \<Rightarrow> FirstLoadInfo" where
  "fresh_record t = \<lparr>fl_addr = fst t, fl_data = (replicate 8 0)[0 := snd t]\<rparr>"

text \<open>
  The loop over the sorted bytes: \<open>len\<close> is a signed 64-bit difference, and the byte goes into
  the current record when it is less than 8.
\<close>

fun combine_loop :: "byte_load list \<Rightarrow> FirstLoadInfo \<Rightarrow> FirstLoadInfo list \<Rightarrow> FirstLoadInfo list res"
where
  "combine_loop [] info firstloads = Inr (firstloads @ [info])"
| "combine_loop (t # ts) info firstloads =
     (let len = sint (fst t - fl_addr info)
      in if len < 8
         then (if len < 0 then Inl OutOfBounds
               else combine_loop ts (info\<lparr>fl_data := (fl_data info)[nat len := snd t]\<rparr>) firstloads)
         else combine_loop ts (fresh_record t)
                (if un64 (fl_data info) \<noteq> 0 then firstloads @ [info] else firstloads))"

definition combine_loads :: "byte_load list \<Rightarrow> FirstLoadInfo list \<Rightarrow> FirstLoadInfo list res" where
  "combine_loads temploads firstloads =
     (case sort_key fst temploads of
        [] \<Rightarrow> Inr firstloads
      | t # ts \<Rightarrow> combine_loop ts (fresh_record t) firstloads)"

definition getFistloads :: "LoadInfo list \<Rightarrow> FirstLoadInfo list \<Rightarrow> FirstLoadInfo list res" where
  "getFistloads loads firstloads =
     res_bind (res_fold expand_load loads []) (\<lambda>temploads. combine_loads temploads firstloads)"

section \<open>The image of a set of records\<close>

definition fl_write :: "FirstLoadInfo \<Rightarrow> memory \<Rightarrow> memory" where
  "fl_write fl m = mem_write m (fl_addr fl) (fl_data fl)"

definition fl_image :: "FirstLoadInfo list \<Rightarrow> memory" where
  "fl_image fls = fold fl_write fls (\<lambda>_. 0)"

definition byte_image :: "(u64 \<rightharpoonup> u8) \<Rightarrow> memory" where
  "byte_image F = (\<lambda>x. case F x of None \<Rightarrow> 0 | Some b \<Rightarrow> b)"

lemma fl_image_Nil [simp]: "fl_image [] = (\<lambda>_. 0)"
  by (simp add: fl_image_def)

lemma fl_image_snoc [simp]: "fl_image (fls @ [fl]) = fl_write fl (fl_image fls)"
  by (simp add: fl_image_def)

text \<open>Records in ascending order, eight bytes each, that do not overlap.\<close>

definition spaced :: "FirstLoadInfo list \<Rightarrow> bool" where
  "spaced fls \<longleftrightarrow>
     sorted_wrt (\<lambda>x y. unat (fl_addr x) + 8 \<le> unat (fl_addr y)) fls \<and>
     (\<forall>fl \<in> set fls. length (fl_data fl) = 8 \<and> unat (fl_addr fl) < 2 ^ 63)"

lemma spaced_snoc:
  "spaced (fls @ [fl]) \<longleftrightarrow> spaced fls \<and> length (fl_data fl) = 8 \<and> unat (fl_addr fl) < 2 ^ 63 \<and>
     (\<forall>f \<in> set fls. unat (fl_addr f) + 8 \<le> unat (fl_addr fl))"
  by (auto simp: spaced_def sorted_wrt_append)

lemma fl_image_above:
  assumes "spaced fls" and "\<forall>f \<in> set fls. unat (fl_addr f) + 8 \<le> unat x"
  shows "fl_image fls x = 0"
  using assms
proof (induction fls rule: rev_induct)
  case (snoc fl fls)
  then have fl: "length (fl_data fl) = 8" "unat (fl_addr fl) < 2 ^ 63" by (auto simp: spaced_snoc)
  then have "\<not> in_range x (fl_addr fl) 8"
    using snoc.prems(2) in_range_no_wrap [of "fl_addr fl" 8 x] by auto
  with snoc fl show ?case by (simp add: fl_write_def mem_write_out spaced_snoc)
qed simp

lemma fl_write_upd:
  assumes "length (fl_data info) = 8" and "k < 8"
  shows "fl_write (info\<lparr>fl_data := (fl_data info)[k := b]\<rparr>) m =
    (fl_write info m)(fl_addr info + of_nat k := b)"
proof
  fix x
  show "fl_write (info\<lparr>fl_data := (fl_data info)[k := b]\<rparr>) m x =
    ((fl_write info m)(fl_addr info + of_nat k := b)) x"
  proof (cases "x = fl_addr info + of_nat k")
    case True
    with assms show ?thesis by (simp add: fl_write_def mem_write_def unat_of_nat_u64)
  next
    case False
    then have "unat (x - fl_addr info) \<noteq> k"
      by (metis add.commute diff_add_cancel eq_of_nat_unatI)
    with False show ?thesis by (simp add: fl_write_def mem_write_def nth_list_update_neq)
  qed
qed

lemma fresh_record_simps [simp]:
  "fl_addr (fresh_record t) = fst t"
  "length (fl_data (fresh_record t)) = 8"
  "k < 8 \<Longrightarrow> fl_data (fresh_record t) ! k = (if k = 0 then snd t else 0)"
  by (simp_all add: fresh_record_def nth_list_update)

lemma fl_write_fresh:
  assumes "\<And>k. 0 < k \<Longrightarrow> k < 8 \<Longrightarrow> m (fst t + of_nat k) = 0"
  shows "fl_write (fresh_record t) m = m(fst t := snd t)"
proof
  fix x
  show "fl_write (fresh_record t) m x = (m(fst t := snd t)) x"
  proof (cases "in_range x (fst t) 8")
    case True
    then obtain k where "k < 8" "x = fst t + of_nat k" by (rule in_rangeE)
    then have "fl_write (fresh_record t) m x = (if k = 0 then snd t else 0)"
      by (simp add: fl_write_def mem_write_def unat_of_nat_u64)
    moreover have "x = fst t \<longleftrightarrow> k = 0"
      using \<open>k < 8\<close> \<open>x = _\<close> unat_of_nat_u64 [of k] by auto
    ultimately show ?thesis
      using assms [of k] \<open>k < 8\<close> \<open>x = _\<close> by simp
  next
    case False
    then have "x \<noteq> fst t" by (auto simp: in_range_def)
    with False show ?thesis by (simp add: fl_write_def mem_write_out)
  qed
qed

section \<open>Packing is exact\<close>

text \<open>Storing bytes one by one, as the uncut loads would.\<close>

definition bytes_write :: "byte_load list \<Rightarrow> memory \<Rightarrow> memory" where
  "bytes_write ts m = fold (\<lambda>(a, b) m. m(a := b)) ts m"

lemma bytes_write_simps [simp]:
  "bytes_write [] m = m"
  "bytes_write (t # ts) m = bytes_write ts (m(fst t := snd t))"
  by (simp_all add: bytes_write_def case_prod_beta)

lemma bytes_write_map_of:
  "distinct (map fst ts) \<Longrightarrow>
   bytes_write ts m x = (case map_of ts x of None \<Rightarrow> m x | Some b \<Rightarrow> b)"
proof (induction ts arbitrary: m)
  case (Cons t ts)
  then have "fst t \<notin> dom (map_of ts)" by (simp add: dom_map_of_conv_image_fst)
  with Cons show ?case by (auto simp: domIff split: option.splits)
qed simp

definition flushed :: "FirstLoadInfo list \<Rightarrow> FirstLoadInfo \<Rightarrow> FirstLoadInfo list" where
  "flushed fls info = (if un64 (fl_data info) \<noteq> 0 then fls @ [info] else fls)"

lemma flushed_image:
  assumes "spaced (fls @ [info])"
  shows "fl_image (flushed fls info) = fl_image (fls @ [info])"
proof (cases "un64 (fl_data info) = 0")
  case True
  have info: "length (fl_data info) = 8" "unat (fl_addr info) < 2 ^ 63"
    using assms by (auto simp: spaced_snoc)
  with True have z: "fl_data info = replicate 8 0"
    using un64_eq_0_iff by blast
  have "fl_image fls x = 0" if "in_range x (fl_addr info) 8" for x
    using that assms in_range_no_wrap [of "fl_addr info" 8 x] info(2)
    by (intro fl_image_above) (fastforce simp: spaced_snoc)+
  then have "fl_write info (fl_image fls) = fl_image fls"
    by (auto simp: fun_eq_iff fl_write_def z mem_write_def in_range_def)
  with True show ?thesis by (simp add: flushed_def)
qed (simp add: flushed_def)

lemma flushed_fresh:
  assumes sp: "spaced (fls @ [info])"
    and t: "unat (fl_addr info) + 8 \<le> unat (fst t)" "unat (fst t) < 2 ^ 63"
  shows "spaced (flushed fls info @ [fresh_record t])"
    and "fl_image (flushed fls info @ [fresh_record t]) = (fl_image (fls @ [info]))(fst t := snd t)"
proof -
  show "spaced (flushed fls info @ [fresh_record t])"
    using sp t by (fastforce simp: spaced_snoc flushed_def)
  have zero: "fl_image (fls @ [info]) (fst t + of_nat k) = 0" if "k < 8" for k
  proof (rule fl_image_above [OF sp])
    have "unat (fst t + of_nat k) = unat (fst t) + k"
      using t(2) that by (intro unat_add_less) simp
    then show "\<forall>f \<in> set (fls @ [info]). unat (fl_addr f) + 8 \<le> unat (fst t + of_nat k)"
      using sp t(1) by (fastforce simp: spaced_snoc)
  qed
  show "fl_image (flushed fls info @ [fresh_record t]) = (fl_image (fls @ [info]))(fst t := snd t)"
    unfolding fl_image_snoc [of "flushed fls info"] flushed_image [OF sp]
    by (rule fl_write_fresh) (rule zero)
qed

text \<open>
  The loop invariant: the records written so far, followed by the current one, are spaced
  and lie below the bytes still to come.
\<close>

lemma combine_loop_exact:
  assumes "spaced (fls @ [info])"
    and "sorted_wrt (\<lambda>x y. unat (fst x) < unat (fst y)) ts"
    and "\<forall>t \<in> set ts. unat (fl_addr info) < unat (fst t) \<and> unat (fst t) < 2 ^ 63"
  shows "\<exists>r. combine_loop ts info fls = Inr r \<and> spaced r \<and>
    fl_image r = bytes_write ts (fl_image (fls @ [info]))"
  using assms
proof (induction ts arbitrary: info fls)
  case (Cons t ts)
  define d where "d = unat (fst t) - unat (fl_addr info)"
  have t: "unat (fl_addr info) < unat (fst t)" "unat (fst t) < 2 ^ 63"
    using Cons.prems(3) by auto
  have info: "length (fl_data info) = 8"
    using Cons.prems(1) by (auto simp: spaced_snoc)
  have ud: "unat (fst t - fl_addr info) = d"
    using t(1) by (simp add: d_def unat_diff_le word_le_nat_alt)
  then have len: "sint (fst t - fl_addr info) = int d"
    using t(2) by (simp add: sint_of_small d_def)
  have ts: "sorted_wrt (\<lambda>x y. unat (fst x) < unat (fst y)) ts"
    "\<forall>u \<in> set ts. unat (fst t) < unat (fst u) \<and> unat (fst u) < 2 ^ 63"
    using Cons.prems(2,3) by auto
  show ?case
  proof (cases "d < 8")
    case True
    let ?info = "info\<lparr>fl_data := (fl_data info)[d := snd t]\<rparr>"
    have at: "fl_addr info + of_nat d = fst t"
      using ud by (metis add.commute diff_add_cancel eq_of_nat_unatI)
    have sp: "spaced (fls @ [?info])"
      using Cons.prems(1) by (auto simp: spaced_snoc)
    have below: "\<forall>u \<in> set ts. unat (fl_addr ?info) < unat (fst u) \<and> unat (fst u) < 2 ^ 63"
      using ts(2) t(1) by auto
    obtain r where "combine_loop ts ?info fls = Inr r" "spaced r"
      "fl_image r = bytes_write ts (fl_image (fls @ [?info]))"
      using Cons.IH [OF sp ts(1) below] by blast
    then show ?thesis
      using True len fl_write_upd [OF info True, of "snd t" "fl_image fls"] at
      by (auto simp: Let_def)
  next
    case False
    then have "unat (fl_addr info) + 8 \<le> unat (fst t)" using t(1) by (simp add: d_def)
    note fl = flushed_fresh [OF Cons.prems(1) this t(2)]
    obtain r where "combine_loop ts (fresh_record t) (flushed fls info) = Inr r" "spaced r"
      "fl_image r = bytes_write ts (fl_image (flushed fls info @ [fresh_record t]))"
      using Cons.IH [OF fl(1) ts(1)] ts(2) by auto
    then show ?thesis
      using False len fl(2) by (auto simp: Let_def flushed_def)
  qed
qed simp

lemma map_of_same_set:
  assumes "distinct (map fst xs)" and "distinct (map fst ys)" and "set xs = set ys"
  shows "map_of xs = map_of ys"
  using assms by (metis Some_eq_map_of_iff ext not_None_eq)

lemma combine_loads_exact:
  assumes d: "distinct (map fst ts)" and u: "\<forall>t \<in> set ts. unat (fst t) < 2 ^ 63"
  shows "\<exists>r. combine_loads ts [] = Inr r \<and> spaced r \<and> fl_image r = byte_image (map_of ts)"
proof (cases "sort_key fst ts")
  case Nil
  then have "ts = []" by (metis length_0_conv length_sort)
  then show ?thesis
    by (simp add: combine_loads_def spaced_def byte_image_def)
next
  case (Cons s ss)
  have ds: "distinct (map fst (s # ss))"
    using d by (simp flip: Cons add: distinct_map inj_on_def)
  have "sorted_wrt (<) (map fst (s # ss))"
    using ds sorted_sort_key [of fst ts] strict_sorted_iff unfolding Cons by blast
  then have so: "sorted_wrt (\<lambda>x y. unat (fst x) < unat (fst y)) (s # ss)"
    by (simp only: sorted_wrt_map word_less_nat_alt)
  have su: "\<forall>t \<in> set (s # ss). unat (fst t) < 2 ^ 63"
    using u by (simp flip: Cons)
  have sp: "spaced ([] @ [fresh_record s])"
    using su by (simp add: spaced_def)
  obtain r where r: "combine_loop ss (fresh_record s) [] = Inr r" "spaced r"
    "fl_image r = bytes_write ss (fl_image ([] @ [fresh_record s]))"
    using combine_loop_exact [OF sp, of ss] so su by auto
  have "fl_image ([] @ [fresh_record s]) = (\<lambda>_. 0)(fst s := snd s)"
    unfolding fl_image_snoc by (simp add: fl_write_fresh)
  then have "fl_image r = bytes_write (s # ss) (\<lambda>_. 0)"
    using r(3) by simp
  also have "\<dots> = byte_image (map_of (s # ss))"
    using ds by (auto simp: fun_eq_iff bytes_write_map_of byte_image_def simp del: bytes_write_simps)
  also have "map_of (s # ss) = map_of ts"
    using d ds by (intro map_of_same_set) (simp_all flip: Cons)
  finally show ?thesis
    using r(1,2) by (auto simp: combine_loads_def Cons)
qed

section \<open>Recording a run refines the set of bytes seen first\<close>

text \<open>
  A memory access of the recorded program: a load with the bytes it returned, or a store with
  the number of bytes it wrote. \<open>do_access\<close> is what a pending checkpoint does with it.
\<close>

datatype access = LoadAcc u64 bytes | StoreAcc u64 nat

fun acc_addr :: "access \<Rightarrow> u64" where
  "acc_addr (LoadAcc a bs) = a"
| "acc_addr (StoreAcc a n) = a"

fun acc_size :: "access \<Rightarrow> nat" where
  "acc_size (LoadAcc a bs) = length bs"
| "acc_size (StoreAcc a n) = n"

fun do_access :: "access \<Rightarrow> access_map \<times> LoadInfo list \<Rightarrow> (access_map \<times> LoadInfo list) res" where
  "do_access (LoadAcc a bs) st = addload a bs (of_nat (length bs)) st"
| "do_access (StoreAcc a n) st = addstore a (of_nat n) st"

text \<open>
  The specification: the set of bytes touched so far, and for the bytes whose first access is a
  load, the value it returned.
\<close>

fun spec_access :: "access \<Rightarrow> u64 set \<times> (u64 \<rightharpoonup> u8) \<Rightarrow> u64 set \<times> (u64 \<rightharpoonup> u8)" where
  "spec_access (LoadAcc a bs) (T, F) =
     (T \<union> {x. in_range x a (length bs)},
      \<lambda>x. if in_range x a (length bs) \<and> x \<notin> T then Some (bs ! unat (x - a)) else F x)"
| "spec_access (StoreAcc a n) (T, F) = (T \<union> {x. in_range x a n}, F)"

text \<open>An access of one to eight bytes in user space that stays inside one 8 KiB chunk.\<close>

definition plain_access :: "access \<Rightarrow> bool" where
  "plain_access acc \<longleftrightarrow>
     0 < acc_size acc \<and> acc_size acc \<le> 8 \<and> unat (acc_addr acc) < 2 ^ 62 \<and>
     unat (acc_addr acc) mod 8192 + acc_size acc \<le> 8192"

definition records :: "access_map \<times> LoadInfo list \<Rightarrow> u64 set \<times> (u64 \<rightharpoonup> u8) \<Rightarrow> bool" where
  "records st sp \<longleftrightarrow>
     wf_access (fst st) \<and> touched (fst st) = fst sp \<and>
     (\<exists>ts. res_fold expand_load (snd st) [] = Inr ts \<and> distinct (map fst ts) \<and>
        map_of ts = snd sp \<and> (\<forall>t \<in> set ts. fst t \<in> fst sp \<and> unat (fst t) < 2 ^ 63))"

lemma odd_u8: "(f :: u8) mod 2 = 1 \<longleftrightarrow> bit f 0"
  by (simp add: bit_0 odd_iff_mod_2_eq_one)

lemma expand_bits_eq:
  assumes "j + n \<le> length (li_data li)"
    and "\<forall>k < n. bit f k \<longrightarrow> (\<exists>b. li_data li ! (j + k) = Some b)"
  shows "expand_bits n j f li acc =
    Inr (acc @ map (\<lambda>k. (li_addr li + of_nat (j + k), the (li_data li ! (j + k))))
               (filter (bit f) [0..<n]))"
  using assms
proof (induction n arbitrary: j f acc)
  case (Suc n)
  have dr: "bit (drop_bit (Suc 0) f) k \<longleftrightarrow> bit f (Suc k)" for k by (simp add: bit_drop_bit_eq)
  have rec: "expand_bits n (Suc j) (drop_bit (Suc 0) f) li acc' =
      Inr (acc' @ map (\<lambda>k. (li_addr li + of_nat (Suc j + k), the (li_data li ! (Suc j + k))))
                   (filter (bit (drop_bit (Suc 0) f)) [0..<n]))" for acc'
  proof (intro Suc.IH allI impI)
    fix k assume "k < n" and "bit (drop_bit (Suc 0) f) k"
    then show "\<exists>b. li_data li ! (Suc j + k) = Some b"
      using Suc.prems(2) [rule_format, of "Suc k"] by (simp only: dr) simp
  qed (use Suc.prems(1) in simp)
  have up: "[0..<Suc n] = 0 # map Suc [0..<n]"
    by (simp add: upt_conv_Cons map_Suc_upt del: upt_Suc)
  have fl: "filter (bit f) (map Suc [0..<n]) = map Suc (filter (bit (drop_bit (Suc 0) f)) [0..<n])"
    by (simp add: filter_map comp_def bit_drop_bit_eq)
  show ?case
  proof (cases "bit f 0")
    case True
    with Suc.prems(2) obtain b where "li_data li ! j = Some b" by fastforce
    with True Suc.prems(1) show ?thesis
      by (simp add: odd_u8 rec up fl comp_def del: upt_Suc)
  next
    case False
    then show ?thesis by (simp add: odd_u8 rec up fl comp_def del: upt_Suc)
  qed
qed simp

lemma unat_of_nat_u8: "n \<le> 8 \<Longrightarrow> unat (of_nat n :: u8) = n"
  by (simp add: unsigned_of_nat take_bit_eq_mod)

lemma expand_load_describes:
  assumes "describes T a bs (of_nat (length bs)) li" and "length bs \<le> 8"
  shows "expand_load li acc =
    Inr (acc @ map (\<lambda>k. (a + of_nat k, bs ! k)) (filter (\<lambda>k. a + of_nat k \<notin> T) [0..<length bs]))"
proof -
  note d = assms(1) [unfolded describes_def unat_of_nat_u8 [OF assms(2)]]
  have f: "filter (bit (li_first li)) [0..<length bs] =
      filter (\<lambda>k. a + of_nat k \<notin> T) [0..<length bs]"
    using d assms(2) by (intro filter_cong) auto
  have "expand_load li acc = Inr (acc @ map (\<lambda>k. (li_addr li + of_nat k, the (li_data li ! k)))
      (filter (bit (li_first li)) [0..<length bs]))"
    using expand_bits_eq [of 0 "length bs" li "li_first li" acc] d assms(2)
    by (auto simp: expand_load_def unat_of_nat_u8)
  also have "\<dots> = Inr (acc @ map (\<lambda>k. (a + of_nat k, bs ! k))
      (filter (\<lambda>k. a + of_nat k \<notin> T) [0..<length bs]))"
    unfolding f using d by auto
  finally show ?thesis .
qed

lemma add_of_nat_inj:
  assumes "k < 2 ^ 64" and "l < 2 ^ 64"
  shows "a + of_nat k = a + (of_nat l :: u64) \<longleftrightarrow> k = l"
  using unat_of_nat_u64 [OF assms(1)] unat_of_nat_u64 [OF assms(2)] by (metis add_left_cancel)

lemma new_bytes:
  fixes a :: u64 and g :: "nat \<Rightarrow> u8" and P :: "nat \<Rightarrow> bool"
  assumes "n \<le> 2 ^ 64"
  defines "new \<equiv> map (\<lambda>k. (a + of_nat k :: u64, g k)) (filter P [0..<n])"
  shows "distinct (map fst new)"
    and "map_of new x = (if in_range x a n \<and> P (unat (x - a)) then Some (g (unat (x - a))) else None)"
proof -
  have "inj_on (\<lambda>k. a + of_nat k) (set (filter P [0..<n]))"
  proof (rule inj_onI)
    fix k l
    assume "k \<in> set (filter P [0..<n])" "l \<in> set (filter P [0..<n])" "a + of_nat k = a + of_nat l"
    then show "k = l" using add_of_nat_inj [of k l a] assms(1) by simp
  qed
  then show d: "distinct (map fst new)"
    by (simp add: new_def comp_def distinct_map)
  have "map_of new x = Some v \<longleftrightarrow> in_range x a n \<and> P (unat (x - a)) \<and> v = g (unat (x - a))" for v
  proof -
    have "map_of new x = Some v \<longleftrightarrow> (\<exists>k < n. P k \<and> x = a + of_nat k \<and> v = g k)"
      using d by (auto simp: map_of_eq_Some_iff new_def)
    also have "\<dots> \<longleftrightarrow> in_range x a n \<and> P (unat (x - a)) \<and> v = g (unat (x - a))"
    proof
      assume "\<exists>k < n. P k \<and> x = a + of_nat k \<and> v = g k"
      then obtain k where k: "k < n" "P k" "x = a + of_nat k" "v = g k" by blast
      then have "unat (x - a) = k" using assms(1) by (simp add: unat_of_nat_u64)
      with k show "in_range x a n \<and> P (unat (x - a)) \<and> v = g (unat (x - a))"
        by (simp add: in_range_def)
    next
      assume "in_range x a n \<and> P (unat (x - a)) \<and> v = g (unat (x - a))"
      then show "\<exists>k < n. P k \<and> x = a + of_nat k \<and> v = g k"
        using word_eq_add_of_nat_diff [of x a] unfolding in_range_def by blast
    qed
    finally show ?thesis .
  qed
  then show "map_of new x = (if in_range x a n \<and> P (unat (x - a)) then Some (g (unat (x - a))) else None)"
    by (metis not_None_eq)
qed

lemma plain_accessD:
  assumes "plain_access acc"
  shows "0 < acc_size acc" "acc_size acc \<le> 8" "unat (acc_addr acc) < 2 ^ 62"
    "unat (of_nat (acc_size acc) :: u8) = acc_size acc" "tracked_exactly t (acc_addr acc) (acc_size acc)"
proof -
  have "acc_size acc \<le> bytes_left (acc_addr acc)"
    using assms unfolding plain_access_def bytes_left_def by linarith
  then show "tracked_exactly t (acc_addr acc) (acc_size acc)" by (simp add: tracked_exactly_def)
qed (use assms in \<open>simp_all add: plain_access_def unat_of_nat_u8\<close>)

lemma records_load:
  assumes r: "records (t, loads) (T, F)" and p: "plain_access (LoadAcc a bs)"
  shows "\<exists>st. do_access (LoadAcc a bs) (t, loads) = Inr st \<and>
    records st (spec_access (LoadAcc a bs) (T, F))"
proof -
  let ?R = "{x. in_range x a (length bs)}"
  note p' = plain_accessD [OF p, simplified]
  have s8: "length bs \<le> 2 ^ 64" using p'(2) by simp
  obtain ts where ts: "wf_access t" "touched t = T" "res_fold expand_load loads [] = Inr ts"
    "distinct (map fst ts)" "map_of ts = F" "\<forall>u \<in> set ts. fst u \<in> T \<and> unat (fst u) < 2 ^ 63"
    using r by (auto simp: records_def)
  obtain t' li where ld: "addload a bs (of_nat (length bs)) (t, loads) =
      Inr (t', if ?R \<subseteq> T then loads else loads @ [li])"
    "wf_access t'" "touched t' = T \<union> ?R" "describes T a bs (of_nat (length bs)) li"
    using addload_records [OF ts(1), of a "of_nat (length bs)" bs loads] p' ts(2) by auto
  define new where
    "new = map (\<lambda>k. (a + of_nat k, bs ! k)) (filter (\<lambda>k. a + of_nat k \<notin> T) [0..<length bs])"
  have ex: "res_fold expand_load (if ?R \<subseteq> T then loads else loads @ [li]) [] = Inr (ts @ new)"
  proof (cases "?R \<subseteq> T")
    case True
    then have "new = []" using s8 in_range_of_nat [of _ "length bs" a]
      by (auto simp: new_def filter_empty_conv)
    with True ts(3) show ?thesis by simp
  next
    case False
    with ts(3) expand_load_describes [OF ld(4) p'(2)] show ?thesis
      by (simp add: res_fold_append new_def)
  qed
  note nb = new_bytes [OF s8, of a "\<lambda>k. bs ! k" "\<lambda>k. a + of_nat k \<notin> T", folded new_def]
  have keys: "fst u \<in> ?R - T \<and> unat (fst u) < 2 ^ 63" if "u \<in> set new" for u
  proof -
    obtain k where k: "k < length bs" "fst u = a + of_nat k" "fst u \<notin> T"
      using \<open>u \<in> set new\<close> by (auto simp: new_def)
    then have "unat (fst u) = unat a + k" using p'(2,3) by (simp add: unat_add_less)
    with k p'(2,3) s8 show ?thesis by (auto intro: in_range_of_nat)
  qed
  have dist: "distinct (map fst (ts @ new))"
    using ts(4,6) nb(1) keys by fastforce
  have "map_of (ts @ new) x = (if in_range x a (length bs) \<and> x \<notin> T then Some (bs ! unat (x - a)) else F x)" for x
  proof (cases "x \<in> T")
    case False
    then have "map_of ts x = None" using ts(6) by (auto simp: map_of_eq_None_iff)
    with False nb(2) [of x] ts(5) show ?thesis by (simp add: map_add_def)
  next
    case True
    with nb(2) [of x] ts(5) show ?thesis by (simp add: map_add_def split: option.splits)
  qed
  then have "records (t', if ?R \<subseteq> T then loads else loads @ [li]) (spec_access (LoadAcc a bs) (T, F))"
    using ex ld(2,3) dist keys ts(6) by (auto simp: records_def fun_eq_iff)
  with ld(1) show ?thesis by auto
qed

lemma records_store:
  assumes r: "records (t, loads) (T, F)" and p: "plain_access (StoreAcc a n)"
  shows "\<exists>st. do_access (StoreAcc a n) (t, loads) = Inr st \<and>
    records st (spec_access (StoreAcc a n) (T, F))"
proof -
  note p' = plain_accessD [OF p, simplified]
  obtain t' where "addstore a (of_nat n) (t, loads) = Inr (t', loads)" "wf_access t'"
    "touched t' = touched t \<union> {x. in_range x a n}"
    using addstore_records [of t a "of_nat n" loads] r p' by (auto simp: records_def)
  with r show ?thesis by (auto simp: records_def)
qed

lemma records_access:
  assumes "records st sp" and "plain_access acc"
  shows "\<exists>st'. do_access acc st = Inr st' \<and> records st' (spec_access acc sp)"
proof (cases acc)
  case (LoadAcc a bs)
  with assms show ?thesis using records_load [of "fst st" "snd st" "fst sp" "snd sp"] by simp
next
  case (StoreAcc a n)
  with assms show ?thesis using records_store [of "fst st" "snd st" "fst sp" "snd sp"] by simp
qed

lemma records_init: "records (RBT.empty, []) ({}, Map.empty)"
  by (simp add: records_def wf_access_empty touched_empty)

lemma records_run:
  assumes "records st sp" and "\<forall>acc \<in> set accs. plain_access acc"
  shows "\<exists>st'. res_fold do_access accs st = Inr st' \<and> records st' (fold spec_access accs sp)"
  using assms
proof (induction accs arbitrary: st sp)
  case (Cons acc accs)
  then obtain st1 where "do_access acc st = Inr st1" "records st1 (spec_access acc sp)"
    using records_access [of st sp acc] by auto
  with Cons show ?case by simp
qed simp

lemma records_first_loads:
  assumes "records (t, loads) (T, F)"
  shows "\<exists>fls. getFistloads loads [] = Inr fls \<and> spaced fls \<and> fl_image fls = byte_image F"
  using assms combine_loads_exact by (fastforce simp: records_def getFistloads_def)

end
