(* ===== verification/Ranges.thy ===== *)
theory Ranges
  imports AccessTrack
begin

unbundle bit_operations_syntax

text \<open>
  \<open>addinst\<close>, the two overloads of \<open>CkptInfo::getRange\<close> and the trimming of overlapping
  ranges in \<open>detectOver\<close> (\<open>sim/ckptinfo.cc\<close>): the addresses a checkpoint has touched are
  merged into ranges that the loader will map. Both overloads run the same loop, with pages
  of 4096 bytes for text and chunks of 8192 bytes for memory; the locale \<open>merger\<close> states what the loop
  promises for either unit.
\<close>

section \<open>Merging addresses into ranges\<close>

record CodeRange =
  cr_addr :: u64
  cr_size :: u64

definition page_of :: "u64 \<Rightarrow> u64" where
  "page_of a = push_bit 12 (drop_bit 12 a)"

definition addinst :: "u64 \<Rightarrow> u64 set \<Rightarrow> u64 set" where
  "addinst addr textAccess =
     (let t1 = page_of addr
      in if t1 + 4096 < addr + 4 then insert (addr + 4096) (insert addr textAccess)
         else insert addr textAccess)"

text \<open>The loop of both overloads, in units of \<open>sz\<close>; \<open>len\<close> is a signed difference.\<close>

fun range_loop :: "u64 \<Rightarrow> u64 list \<Rightarrow> CodeRange \<Rightarrow> CodeRange list \<Rightarrow> u64 \<Rightarrow> CodeRange list \<times> u64" where
  "range_loop sz [] r ranges totalsize = (ranges @ [r], totalsize + cr_size r)"
| "range_loop sz (a # as) r ranges totalsize =
     (let eaddr = cr_addr r + cr_size r; len = sint (a - eaddr)
      in if len < 0 then range_loop sz as r ranges totalsize
         else if len < sint sz then range_loop sz as (r\<lparr>cr_size := cr_size r + sz\<rparr>) ranges totalsize
         else range_loop sz as \<lparr>cr_addr = page_of a, cr_size = sz\<rparr> (ranges @ [r]) (totalsize + cr_size r))"

definition get_ranges :: "u64 \<Rightarrow> u64 list \<Rightarrow> CodeRange list \<Rightarrow> (CodeRange list \<times> u64) res" where
  "get_ranges sz addrs ranges =
     (case addrs of
        [] \<Rightarrow> Inl EndDeref
      | a # _ \<Rightarrow> Inr (range_loop sz addrs \<lparr>cr_addr = page_of a, cr_size = sz\<rparr> ranges 0))"

text \<open>Iterating over a \<open>std::set\<close> or \<open>std::map\<close> visits the keys in ascending order.\<close>

definition getRange_set :: "u64 set \<Rightarrow> CodeRange list \<Rightarrow> (CodeRange list \<times> u64) res" where
  "getRange_set addrs ranges = get_ranges 4096 (sorted_list_of_set addrs) ranges"

definition getRange_map :: "access_map \<Rightarrow> CodeRange list \<Rightarrow> (CodeRange list \<times> u64) res" where
  "getRange_map addrs ranges = get_ranges (of_nat AccessRange) (RBT.keys addrs) ranges"

section \<open>Trimming memory ranges at the end of the text\<close>

text \<open>
  \<open>int textend\<close> keeps the low 32 bits of a 64-bit address; in the comparisons with
  \<open>uint64_t\<close> it is sign-extended.
\<close>

definition int_textend :: "CodeRange \<Rightarrow> u64" where
  "int_textend r = scast (ucast (cr_addr r + cr_size r) :: u32)"

fun trim_loop :: "u64 \<Rightarrow> CodeRange list \<Rightarrow> CodeRange list" where
  "trim_loop textend [] = []"
| "trim_loop textend (m # ms) =
     (if cr_addr m < textend
      then let temp = cr_addr m + cr_size m
           in if temp > textend
              then m\<lparr>cr_addr := textend, cr_size := temp - textend\<rparr> # trim_loop textend ms
              else trim_loop textend ms
      else m # ms)"

definition trim_memrange :: "CodeRange list \<Rightarrow> CodeRange list \<Rightarrow> CodeRange list res" where
  "trim_memrange textrange memrange =
     (if textrange = [] then Inl OutOfBounds
      else let textend = int_textend (last textrange)
           in if memrange \<noteq> [] \<and> cr_addr (hd memrange) < textend
              then Inr (trim_loop textend memrange)
              else Inr memrange)"

section \<open>What ranges cover\<close>

definition range_end :: "CodeRange \<Rightarrow> nat" where
  "range_end r = unat (cr_addr r) + unat (cr_size r)"

definition in_code_range :: "u64 \<Rightarrow> CodeRange \<Rightarrow> bool" where
  "in_code_range x r \<longleftrightarrow> unat (cr_addr r) \<le> unat x \<and> unat x < range_end r"

definition covers :: "CodeRange list \<Rightarrow> u64 \<Rightarrow> bool" where
  "covers rs x \<longleftrightarrow> (\<exists>r \<in> set rs. in_code_range x r)"

text \<open>
  Ranges that can be mapped: whole units of \<open>u\<close> bytes, in ascending order, disjoint, below the
  top of user space.
\<close>

definition wf_ranges :: "nat \<Rightarrow> CodeRange list \<Rightarrow> bool" where
  "wf_ranges u rs \<longleftrightarrow>
     (\<forall>r \<in> set rs. u dvd unat (cr_addr r) \<and> u dvd unat (cr_size r) \<and> 0 < unat (cr_size r) \<and>
        range_end r < 2 ^ 63) \<and>
     sorted_wrt (\<lambda>r s. range_end r \<le> unat (cr_addr s)) rs"

lemma wf_ranges_snoc:
  "wf_ranges u (rs @ [r]) \<longleftrightarrow> wf_ranges u rs \<and> (\<forall>s \<in> set rs. range_end s \<le> unat (cr_addr r)) \<and>
     u dvd unat (cr_addr r) \<and> u dvd unat (cr_size r) \<and> 0 < unat (cr_size r) \<and> range_end r < 2 ^ 63"
  by (auto simp: wf_ranges_def sorted_wrt_append)

lemma covers_snoc: "covers (rs @ [r]) x \<longleftrightarrow> covers rs x \<or> in_code_range x r"
  by (auto simp: covers_def)

lemma unat_page_of: "unat (page_of a) = unat a div 4096 * 4096"
proof -
  have "unat (page_of a) = take_bit 64 (push_bit 12 (unat a div 4096))"
    by (simp add: page_of_def unsigned_push_bit_eq unsigned_drop_bit_eq drop_bit_eq_div unat_div)
  also have "\<dots> = unat a div 4096 * 4096"
  proof -
    have "unat a div 4096 * 4096 \<le> unat a" by simp
    also have "unat a < 2 ^ 64" by simp
    finally show ?thesis by (simp add: push_bit_eq_mult take_bit_eq_mod)
  qed
  finally show ?thesis .
qed

lemma page_of_bounds: "unat (page_of a) \<le> unat a" "unat a < unat (page_of a) + 4096" "4096 dvd unat (page_of a)"
  unfolding unat_page_of using div_mult_mod_eq [of "unat a" 4096] mod_less_divisor [of 4096 "unat a"]
  by linarith+ simp

lemma sint_user_diff:
  assumes "unat a < 2 ^ 63" and "unat e < 2 ^ 63"
  shows "sint (a - e :: u64) = int (unat a) - int (unat e)"
proof -
  have u: "0 \<le> uint a" "uint a < 2 ^ 63" "0 \<le> uint e" "uint e < 2 ^ 63"
    using assms by (simp_all flip: of_nat_less_iff [where 'a = int])
  have "sint (a - e) = (uint a - uint e + 2 ^ 63) mod 2 ^ 64 - 2 ^ 63"
    unfolding word_sub_wi using int_word_sint [of "uint a - uint e", where 'a = 64] by simp
  also have "(uint a - uint e + 2 ^ 63) mod 2 ^ 64 = uint a - uint e + 2 ^ 63"
  proof (rule mod_pos_pos_trivial)
    have "(2 :: int) ^ 64 = 2 * 2 ^ 63" by simp
    then show "uint a - uint e + 2 ^ 63 < 2 ^ 64" using u by linarith
  qed (use u in linarith)
  finally show ?thesis by simp
qed

section \<open>The merging loop\<close>

locale merger =
  fixes sz :: u64
  assumes sz_pages: "4096 \<le> unat sz" and sz_small: "unat sz < 2 ^ 32"
begin

abbreviation unit_aligned :: "u64 \<Rightarrow> bool" where
  "unit_aligned a \<equiv> unat sz dvd unat (page_of a)"

lemma start_range:
  assumes "unat a < 2 ^ 62" "unit_aligned a" "wf_ranges (unat sz) rs" "\<forall>s \<in> set rs. range_end s \<le> unat (page_of a)"
  shows "wf_ranges (unat sz) (rs @ [\<lparr>cr_addr = page_of a, cr_size = sz\<rparr>])"
    and "in_code_range a \<lparr>cr_addr = page_of a, cr_size = sz\<rparr>"
    and "range_end \<lparr>cr_addr = page_of a, cr_size = sz\<rparr> \<le> 2 ^ 62 + unat sz"
  using assms page_of_bounds [of a] sz_pages sz_small
  by (auto simp: wf_ranges_snoc range_end_def in_code_range_def)

lemma loop_ok:
  assumes "wf_ranges (unat sz) (ranges @ [r])" and "sorted (map unat as)" and "\<forall>a \<in> set as. unat a < 2 ^ 62 \<and> unit_aligned a"
    and "\<forall>a \<in> set as. unat (cr_addr r) \<le> unat a" and "range_end r \<le> 2 ^ 62 + unat sz"
  shows "\<exists>rs t. range_loop sz as r ranges t0 = (rs, t) \<and> wf_ranges (unat sz) rs \<and> (\<forall>a \<in> set as. covers rs a) \<and>
    (\<forall>x. covers (ranges @ [r]) x \<longrightarrow> covers rs x) \<and>
    t + sum_list (map cr_size ranges) = t0 + sum_list (map cr_size rs)"
  using assms
proof (induction as arbitrary: r ranges t0)
  case (Cons a as)
  let ?e = "cr_addr r + cr_size r"
  have "unat ?e = range_end r"
    using unat_add_less [of "cr_addr r" "unat (cr_size r)"] Cons.prems(5) sz_small by (simp add: range_end_def)
  then have len: "sint (a - ?e) = int (unat a) - int (range_end r)"
    using Cons.prems(3,5) sz_small by (subst sint_user_diff) auto
  have ssz: "sint sz = int (unat sz)" using sz_small by (intro sint_of_small) simp
  have neg: "sint (a - ?e) < 0 \<longleftrightarrow> unat a < range_end r"
    and lt: "sint (a - ?e) < sint sz \<longleftrightarrow> unat a < range_end r + unat sz"
    unfolding len ssz by linarith+
  have as: "sorted (map unat as)" "\<forall>b \<in> set as. unat b < 2 ^ 62 \<and> unit_aligned b" "\<forall>b \<in> set as. unat a \<le> unat b"
    "\<forall>b \<in> set as. unat (cr_addr r) \<le> unat b"
    using Cons.prems(2-4) by auto
  consider (old) "unat a < range_end r" | (extend) "range_end r \<le> unat a" "unat a < range_end r + unat sz"
    | (fresh) "range_end r + unat sz \<le> unat a" by linarith
  then show ?case
  proof cases
    case old
    have "in_code_range a r" using old Cons.prems(4) by (simp add: in_code_range_def)
    with old neg Cons.IH [OF Cons.prems(1) as(1,2,4) Cons.prems(5), of t0] show ?thesis
      by (auto simp: Let_def covers_snoc)
  next
    case extend
    let ?r = "r\<lparr>cr_size := cr_size r + sz\<rparr>"
    have "unat (cr_size r + sz) = unat (cr_size r) + unat sz"
      using unat_add_less [of "cr_size r" "unat sz"] Cons.prems(5) sz_small by (simp add: range_end_def)
    then have e: "range_end ?r = range_end r + unat sz" "unat (cr_size ?r) = unat (cr_size r) + unat sz"
      by (simp_all add: range_end_def)
    have wf: "wf_ranges (unat sz) (ranges @ [?r])" and re: "range_end ?r \<le> 2 ^ 62 + unat sz"
      using Cons.prems(1,3) extend(1) e sz_small by (auto simp: wf_ranges_snoc)
    have "in_code_range a ?r" using extend(2) e Cons.prems(4) by (simp add: in_code_range_def)
    moreover have "in_code_range x ?r" if "in_code_range x r" for x
      using that e by (simp add: in_code_range_def)
    ultimately show ?thesis
      using extend neg lt Cons.IH [OF wf as(1,2) _ re, of t0] as(4) by (auto simp: Let_def covers_snoc)
  next
    case fresh
    let ?r = "\<lparr>cr_addr = page_of a, cr_size = sz\<rparr>"
    have "range_end r \<le> unat (page_of a)" using fresh page_of_bounds(2) [of a] sz_pages by linarith
    then have below: "\<forall>s \<in> set (ranges @ [r]). range_end s \<le> unat (page_of a)"
      using Cons.prems(1) by (fastforce simp: wf_ranges_snoc range_end_def)
    have a: "unat a < 2 ^ 62" "unit_aligned a" using Cons.prems(3) by auto
    note st = start_range [OF a Cons.prems(1) below]
    have "\<forall>b \<in> set as. unat (cr_addr ?r) \<le> unat b" using as(3) page_of_bounds(1) [of a] by fastforce
    from Cons.IH [OF st(1) as(1,2) this st(3), of "t0 + cr_size r"] fresh neg lt st(2) show ?thesis
      by (auto simp: Let_def covers_def algebra_simps)
  qed
qed (auto simp: algebra_simps)

lemma get_ranges_ok:
  assumes "addrs \<noteq> []" "sorted (map unat addrs)" "\<forall>a \<in> set addrs. unat a < 2 ^ 62 \<and> unit_aligned a"
  shows "\<exists>rs t. get_ranges sz addrs [] = Inr (rs, t) \<and> wf_ranges (unat sz) rs \<and> (\<forall>a \<in> set addrs. covers rs a) \<and>
    t = sum_list (map cr_size rs)"
proof -
  obtain a as where addrs: "addrs = a # as" using assms(1) by (cases addrs) auto
  let ?r = "\<lparr>cr_addr = page_of a, cr_size = sz\<rparr>"
  have "wf_ranges (unat sz) ([] @ [?r])" "range_end ?r \<le> 2 ^ 62 + unat sz"
    using start_range [of a "[]"] assms(3) addrs by (auto simp: wf_ranges_def)
  moreover have "\<forall>b \<in> set addrs. unat (cr_addr ?r) \<le> unat b"
    using assms(2) addrs page_of_bounds(1) [of a] by fastforce
  ultimately show ?thesis
    using loop_ok [of "[]" ?r addrs 0] assms(2,3) by (auto simp: get_ranges_def addrs)
qed

text \<open>A unit is covered as a whole.\<close>

lemma whole_unit:
  assumes "wf_ranges (unat sz) rs" "covers rs a" "unat x div unat sz = unat a div unat sz"
  shows "covers rs x"
proof -
  obtain r where r: "r \<in> set rs" "in_code_range a r" using assms(2) by (auto simp: covers_def)
  then obtain p q where pq: "unat (cr_addr r) = unat sz * p" "unat (cr_size r) = unat sz * q"
    using assms(1) by (auto simp: wf_ranges_def dvd_def)
  have s: "0 < unat sz" using sz_pages by simp
  let ?k = "unat a div unat sz"
  have "p \<le> ?k" "?k < p + q"
    using r(2) pq s unfolding in_code_range_def range_end_def
    by (simp_all add: less_eq_div_iff_mult_less_eq div_less_iff_less_mult algebra_simps)
  then have "in_code_range x r"
    using pq s assms(3) unfolding in_code_range_def range_end_def
    by (metis add_mult_distrib2 div_less_iff_less_mult less_eq_div_iff_mult_less_eq mult.commute)
  with r(1) show ?thesis by (auto simp: covers_def)
qed

end

section \<open>Text ranges and memory ranges\<close>

interpretation pages: merger 4096
  by unfold_locales simp_all

interpretation chunks: merger "of_nat AccessRange"
  by unfold_locales (simp_all add: AccessRange_def)

lemma sorted_unat: "sorted (xs :: u64 list) \<Longrightarrow> sorted (map unat xs)"
  by (simp add: sorted_map word_le_nat_alt [abs_def] sorted_wrt_iff_nth_less)

lemma getRange_set_ok:
  assumes "finite A" "A \<noteq> {}" "\<forall>a \<in> A. unat a < 2 ^ 62"
  shows "\<exists>rs t. getRange_set A [] = Inr (rs, t) \<and> wf_ranges 4096 rs \<and> (\<forall>a \<in> A. covers rs a) \<and>
    t = sum_list (map cr_size rs)"
proof -
  have "sorted (map unat (sorted_list_of_set A))" by (intro sorted_unat) simp
  moreover have "\<forall>a \<in> set (sorted_list_of_set A). unat a < 2 ^ 62 \<and> pages.unit_aligned a"
    using assms page_of_bounds(3) by simp
  moreover have "sorted_list_of_set A \<noteq> []" using assms(1,2) by simp
  ultimately show ?thesis
    using pages.get_ranges_ok [of "sorted_list_of_set A"] assms(1) by (simp add: getRange_set_def)
qed

text \<open>The four bytes of every instruction that was recorded end up in a text range.\<close>

lemma addinst_covered:
  assumes "wf_ranges 4096 rs" "\<forall>a \<in> addinst pc A. covers rs a" "unat pc < 2 ^ 62" "k < 4"
  shows "covers rs (pc + of_nat k)"
proof -
  define q r where "q = unat pc div 4096" and "r = unat pc mod 4096"
  have pc: "unat pc = 4096 * q + r" "r < 4096" by (simp_all add: q_def r_def)
  have u: "unat (pc + of_nat k) = 4096 * q + (r + k)"
    using unat_add_less [of pc k] assms(3,4) pc by simp
  have u4: "unat (pc + 4) = 4096 * q + (r + 4)" "unat (pc + 4096) = 4096 * q + (r + 4096)"
    using unat_add_less [of pc 4] unat_add_less [of pc 4096] assms(3) pc by simp_all
  have pg: "unat (page_of pc + 4096) = 4096 * q + 4096"
    using unat_add_less [of "page_of pc" 4096] page_of_bounds(1) [of pc] assms(3)
    by (simp add: unat_page_of q_def)
  have pcA: "covers rs pc" using assms(2) by (auto simp: addinst_def Let_def)
  show ?thesis
  proof (cases "r + k < 4096")
    case True
    then have "unat (pc + of_nat k) div 4096 = unat pc div 4096" unfolding u pc(1) using pc(2) by simp
    with pcA show ?thesis using pages.whole_unit [of rs pc "pc + of_nat k"] assms(1) by simp
  next
    case False
    then have "page_of pc + 4096 < pc + 4" using assms(4) unfolding word_less_nat_alt pg u4 by simp
    then have "covers rs (pc + 4096)" using assms(2) by (simp add: addinst_def Let_def)
    moreover have "unat (pc + of_nat k) div 4096 = unat (pc + 4096) div 4096"
    proof -
      have "(4096 * q + (r + k)) div 4096 = q + 1" using False assms(4) pc(2) by (intro div_nat_eqI) auto
      moreover have "(4096 * q + (r + 4096)) div 4096 = q + 1" using pc(2) by (intro div_nat_eqI) auto
      ultimately show ?thesis unfolding u u4 by simp
    qed
    ultimately show ?thesis using pages.whole_unit [of rs "pc + 4096" "pc + of_nat k"] assms(1) by simp
  qed
qed

text \<open>Every byte that was loaded or stored ends up in a memory range.\<close>

lemma getRange_map_ok:
  assumes t: "wf_access t" "touched t \<noteq> {}" and user: "\<forall>b \<in> dom (RBT.lookup t). unat b < 2 ^ 62"
  shows "\<exists>rs n. getRange_map t [] = Inr (rs, n) \<and> wf_ranges 8192 rs \<and> (\<forall>x \<in> touched t. covers rs x) \<and>
    n = sum_list (map cr_size rs)"
proof -
  have keys: "set (RBT.keys t) = dom (RBT.lookup t)" by (simp add: RBT.lookup_keys)
  have al: "8192 dvd unat b" if "b \<in> dom (RBT.lookup t)" for b
  proof -
    have "chunk_base b = b" using that wf_accessD(2) [OF t(1)] by auto
    then have "unat b = unat b div 8192 * 8192" by (metis unat_chunk_base)
    then show ?thesis by (metis dvd_triv_right)
  qed
  then have pg: "page_of b = b" if "b \<in> dom (RBT.lookup t)" for b
  proof -
    have "4096 dvd unat b" using al [OF that] by (rule dvd_trans [rotated]) simp
    then show ?thesis by (simp add: word_unat_eq_iff unat_page_of)
  qed
  have u: "unat (of_nat AccessRange :: u64) = 8192" by (simp add: AccessRange_def)
  have "RBT.keys t \<noteq> []" using t(2) keys by (auto simp: touched_def)
  moreover have "sorted (map unat (RBT.keys t))" by (intro sorted_unat RBT.sorted_keys)
  moreover have "\<forall>a \<in> set (RBT.keys t). unat a < 2 ^ 62 \<and> chunks.unit_aligned a"
    using user al pg unfolding u keys by simp
  ultimately obtain rs n where r: "getRange_map t [] = Inr (rs, n)" "wf_ranges 8192 rs"
    "\<forall>a \<in> set (RBT.keys t). covers rs a" "n = sum_list (map cr_size rs)"
    using chunks.get_ranges_ok [of "RBT.keys t"] unfolding u by (auto simp: getRange_map_def)
  have "covers rs x" if "x \<in> touched t" for x
  proof (rule chunks.whole_unit [of rs "chunk_base x", unfolded u])
    show "covers rs (chunk_base x)" using that r(3) keys by (auto simp: touched_def)
    show "unat x div 8192 = unat (chunk_base x) div 8192" by (simp add: unat_chunk_base)
  qed (rule r(2))
  with r show ?thesis by blast
qed

lemma getRange_empty:
  "getRange_set {} ranges = Inl EndDeref" "getRange_map RBT.empty ranges = Inl EndDeref"
  by (simp_all add: getRange_set_def getRange_map_def get_ranges_def)

section \<open>Trimming\<close>

lemma unat_text_end: "range_end r < 2 ^ 63 \<Longrightarrow> unat (cr_addr r + cr_size r) = range_end r"
  using unat_add_less [of "cr_addr r" "unat (cr_size r)"] by (simp add: range_end_def)

lemma bit_unat: "bit (x :: u64) n \<longleftrightarrow> odd (unat x div 2 ^ n)"
  by (simp add: bit_unsigned_iff flip: bit_iff_odd)

lemma bit_int_textend:
  "n < 64 \<Longrightarrow> bit (int_textend r) n \<longleftrightarrow> bit (cr_addr r + cr_size r) (min n 31)"
  by (auto simp: int_textend_def bit_signed_iff bit_ucast_iff min.commute [of n])

lemma int_textend_small:
  assumes "range_end r < 2 ^ 31"
  shows "int_textend r = cr_addr r + cr_size r"
proof (rule bit_word_eqI)
  fix n assume "n < LENGTH(64)"
  then have n: "n < 64" by simp
  let ?x = "cr_addr r + cr_size r"
  have "\<not> bit ?x m" if "31 \<le> m" for m
  proof -
    have "range_end r < 2 ^ m" using assms power_increasing [OF that, of "2 :: nat"] by simp
    then show ?thesis using assms by (simp add: bit_unat unat_text_end)
  qed
  then show "bit (int_textend r) n = bit ?x n"
    using bit_int_textend [OF n, of r] by (cases "n < 31") (auto simp: min_def not_less)
qed

lemma int_textend_large:
  assumes "2 ^ 31 \<le> range_end r" "range_end r < 2 ^ 32"
  shows "2 ^ 63 \<le> unat (int_textend r)"
proof -
  have "range_end r div 2 ^ 31 = 1" using assms by (intro div_nat_eqI) simp_all
  then have "bit (cr_addr r + cr_size r) 31" using assms(2) by (simp add: bit_unat unat_text_end)
  then have "bit (int_textend r) 63" by (simp add: bit_int_textend)
  then have "unat (int_textend r) div 2 ^ 63 \<noteq> 0" unfolding bit_unat by (metis even_zero)
  then show ?thesis by (simp add: div_eq_0_iff not_less)
qed

text \<open>
  While the text ends below 2 GiB, trimming keeps exactly the bytes of the memory ranges that
  lie above the end of the text.
\<close>

lemma trim_loop_ok:
  assumes "\<forall>m \<in> set ms. range_end m < 2 ^ 63" and "sorted_wrt (\<lambda>r s. range_end r \<le> unat (cr_addr s)) ms"
  shows "covers (trim_loop e ms) x \<longleftrightarrow> covers ms x \<and> unat e \<le> unat x"
  using assms
proof (induction ms)
  case (Cons m ms)
  have fit: "unat (cr_addr m + cr_size m) = range_end m" using Cons.prems(1) by (simp add: unat_text_end)
  have IH: "covers (trim_loop e ms) x \<longleftrightarrow> covers ms x \<and> unat e \<le> unat x" using Cons by simp
  have cons: "covers (r # rs) x \<longleftrightarrow> in_code_range x r \<or> covers rs x" for r rs by (simp add: covers_def)
  consider (keep) "unat e \<le> unat (cr_addr m)" | (cut) "unat (cr_addr m) < unat e" "unat e < range_end m"
    | (drop) "unat (cr_addr m) < unat e" "range_end m \<le> unat e" by linarith
  then show ?case
  proof cases
    case keep
    moreover have "unat e \<le> unat x" if "covers (m # ms) x"
      using that Cons.prems(2) keep by (fastforce simp: covers_def in_code_range_def range_end_def)
    ultimately show ?thesis by (auto simp: word_less_nat_alt)
  next
    case cut
    let ?m = "m\<lparr>cr_addr := e, cr_size := cr_addr m + cr_size m - e\<rparr>"
    have "unat (cr_addr m + cr_size m - e) = range_end m - unat e"
      using cut fit by (subst unat_diff_le) (simp_all add: word_le_nat_alt)
    then have "in_code_range x ?m \<longleftrightarrow> in_code_range x m \<and> unat e \<le> unat x"
      using cut by (auto simp: in_code_range_def range_end_def)
    moreover have "trim_loop e (m # ms) = ?m # trim_loop e ms"
      using cut fit by (simp add: word_less_nat_alt Let_def)
    ultimately show ?thesis using IH by (auto simp: cons)
  next
    case drop
    then have "trim_loop e (m # ms) = trim_loop e ms"
      using fit by (simp add: word_less_nat_alt Let_def)
    moreover have "unat x < unat e" if "in_code_range x m" using that drop(2) by (simp add: in_code_range_def)
    ultimately show ?thesis using IH by (auto simp: cons)
  qed
qed (simp add: covers_def)

lemma trim_memrange_ok:
  assumes "text \<noteq> []" "range_end (last text) < 2 ^ 31" and "wf_ranges u mem"
  shows "\<exists>ms. trim_memrange text mem = Inr ms \<and>
    (\<forall>x. covers ms x \<longleftrightarrow> covers mem x \<and> range_end (last text) \<le> unat x)"
proof -
  let ?e = "int_textend (last text)"
  have e: "unat ?e = range_end (last text)" using assms(2) by (simp add: int_textend_small unat_text_end)
  have m: "\<forall>m \<in> set mem. range_end m < 2 ^ 63" "sorted_wrt (\<lambda>r s. range_end r \<le> unat (cr_addr s)) mem"
    using assms(3) by (auto simp: wf_ranges_def)
  show ?thesis
  proof (cases "mem \<noteq> [] \<and> cr_addr (hd mem) < ?e")
    case True
    then show ?thesis using assms(1) trim_loop_ok [OF m, of ?e] e by (simp add: trim_memrange_def Let_def)
  next
    case False
    have "range_end (last text) \<le> unat x" if c: "covers mem x" for x
    proof -
      obtain r rs where r: "mem = r # rs" using c by (cases mem) (auto simp: covers_def)
      then have "unat ?e \<le> unat (cr_addr r)" using False by (simp add: word_less_nat_alt)
      then show ?thesis using c m(2) e unfolding r by (fastforce simp: covers_def in_code_range_def range_end_def)
    qed
    then show ?thesis using False assms(1) by (auto simp: trim_memrange_def Let_def)
  qed
qed

lemma trim_loop_sizes:
  "\<forall>m \<in> set ms. range_end m < 2 ^ 63 \<Longrightarrow> m \<in> set (trim_loop e ms) \<Longrightarrow> unat (cr_size m) < 2 ^ 63"
proof (induction ms)
  case (Cons a ms)
  have fit: "unat (cr_addr a + cr_size a) < 2 ^ 63" using Cons.prems(1) by (simp add: unat_text_end)
  have "unat (cr_addr a + cr_size a - e) < 2 ^ 63" if "e < cr_addr a + cr_size a"
    using that fit by (subst unat_diff_le) (simp_all add: word_less_nat_alt word_le_nat_alt)
  moreover have "unat (cr_size x) < 2 ^ 63" if "x \<in> set (a # ms)" for x
    using that Cons.prems(1) by (auto simp: range_end_def)
  ultimately show ?case using Cons by (auto simp: Let_def split: if_splits)
qed simp

lemma trim_memrange_sizes:
  assumes "wf_ranges u mem" "trim_memrange text mem = Inr ms" "m \<in> set ms"
  shows "unat (cr_size m) < 2 ^ 63"
proof -
  have m: "\<forall>m \<in> set mem. range_end m < 2 ^ 63" using assms(1) by (auto simp: wf_ranges_def)
  show ?thesis
    using assms(2,3) m trim_loop_sizes [OF m] by (auto simp: trim_memrange_def Let_def range_end_def split: if_splits)
qed

text \<open>With the text ending between 2 GiB and 4 GiB, every memory range is dropped.\<close>

lemma trim_memrange_truncates:
  assumes "text \<noteq> []" "2 ^ 31 \<le> range_end (last text)" "range_end (last text) < 2 ^ 32" and "wf_ranges u mem"
  shows "trim_memrange text mem = Inr []"
proof -
  let ?e = "int_textend (last text)"
  have e: "2 ^ 63 \<le> unat ?e" by (rule int_textend_large [OF assms(2,3)])
  have m: "\<forall>m \<in> set mem. range_end m < 2 ^ 63" using assms(4) by (auto simp: wf_ranges_def)
  have all: "trim_loop ?e ms = []" if "set ms \<subseteq> set mem" for ms
    using that
  proof (induction ms)
    case (Cons r ms)
    then have "range_end r < 2 ^ 63" using m by auto
    then have "unat (cr_addr r) < unat ?e" "unat (cr_addr r + cr_size r) \<le> unat ?e"
      using e by (simp_all add: unat_text_end) (simp add: range_end_def)
    with Cons show ?case by (simp add: word_less_nat_alt Let_def)
  qed simp
  show ?thesis
  proof (cases mem)
    case (Cons r rs)
    then have "range_end r < 2 ^ 63" using m by auto
    then have "cr_addr r < ?e" using e by (simp add: word_less_nat_alt range_end_def)
    with Cons all [of mem] assms(1) show ?thesis by (simp add: trim_memrange_def Let_def)
  qed (use assms(1) in \<open>simp add: trim_memrange_def\<close>)
qed

end
