(* ===== verification/SysInfo.thy ===== *)
theory SysInfo
  imports CkptPrelude
begin

unbundle bit_operations_syntax

text \<open>
  The system calls of a checkpoint (\<open>sim/ckptinfo.cc\<close>): recording them
  (\<open>add_sysenter\<close>, \<open>add_sysret\<close>, \<open>add_sysexe\<close>) and writing them to the file so that calls
  with the same outcome share one record (\<open>isSameSyscall\<close>, \<open>dectect_Sysinfos\<close>,
  \<open>saveSysInfo\<close>; \<open>saveSysInfo1\<close> is the older form without sharing).
\<close>

section \<open>Recording\<close>

record SyscallInfo =
  si_name :: string
  si_pc :: u64
  si_num :: u64
  si_ret :: u64
  si_hasret :: bool
  si_bufaddr :: u64
  si_data :: bytes
  si_params :: "u64 list"

definition SyscallInfo_new :: SyscallInfo where
  "SyscallInfo_new = \<lparr>si_name = '''', si_pc = 0, si_num = 0, si_ret = 0, si_hasret = False,
     si_bufaddr = 0, si_data = [], si_params = []\<rparr>"

definition add_sysenter :: "u64 \<Rightarrow> u32 \<Rightarrow> u64 list \<Rightarrow> SyscallInfo list \<Rightarrow> SyscallInfo list" where
  "add_sysenter pc sysnum params sysinfos =
     sysinfos @ [SyscallInfo_new\<lparr>si_pc := pc, si_num := ucast sysnum, si_params := params, si_data := []\<rparr>]"

definition upd_last :: "('a \<Rightarrow> 'a) \<Rightarrow> 'a list \<Rightarrow> 'a list" where
  "upd_last f xs = (if xs = [] then [] else butlast xs @ [f (last xs)])"

definition add_sysret :: "u64 \<Rightarrow> string \<Rightarrow> bool \<Rightarrow> u64 \<Rightarrow> SyscallInfo list \<Rightarrow> SyscallInfo list" where
  "add_sysret pc name hasret ret sysinfos =
     (if sysinfos = [] then sysinfos
      else if si_pc (last sysinfos) \<noteq> pc then sysinfos
      else upd_last (\<lambda>s. s\<lparr>si_ret := ret, si_hasret := hasret, si_name := name\<rparr>) sysinfos)"

definition add_sysexe :: "u64 \<Rightarrow> u64 \<Rightarrow> u64 \<Rightarrow> u32 \<Rightarrow> bytes \<Rightarrow> SyscallInfo list \<Rightarrow> SyscallInfo list res" where
  "add_sysexe pc ret bufaddr bufsize data sysinfos =
     (if sysinfos = [] then Inr sysinfos
      else if si_pc (last sysinfos) \<noteq> pc then Inr sysinfos
      else if length data < unat bufsize then Inl OutOfBounds
      else Inr (upd_last (\<lambda>s. s\<lparr>si_ret := ret, si_bufaddr := bufaddr,
                                si_data := si_data s @ take (unat bufsize) data\<rparr>) sysinfos))"

section \<open>Sharing equal calls\<close>

definition isSameSyscall :: "SyscallInfo \<Rightarrow> SyscallInfo \<Rightarrow> bool res" where
  "isSameSyscall info1 info2 =
     (if si_pc info1 \<noteq> si_pc info2 then Inr False
      else if si_num info1 \<noteq> si_num info2 then Inr False
      else if si_hasret info1 \<noteq> si_hasret info2 then Inr False
      else if si_ret info1 \<noteq> si_ret info2 then Inr False
      else if si_params info1 = [] \<or> si_params info2 = [] then Inl OutOfBounds
      else if hd (si_params info1) \<noteq> hd (si_params info2) then Inr False
      else if length (si_data info1) = 0 then Inr True
      else if length (si_data info1) \<noteq> length (si_data info2) then Inr False
      else if si_bufaddr info1 \<noteq> si_bufaddr info2 then Inr False
      else Inr (list_all2 (=) (si_data info1) (si_data info2)))"

text \<open>The search loop over \<open>newinfos\<close>; \<open>None\<close> is \<open>c == newinfos.size()\<close>.\<close>

fun find_same :: "SyscallInfo list \<Rightarrow> SyscallInfo \<Rightarrow> nat \<Rightarrow> nat list \<Rightarrow> nat option res" where
  "find_same sysinfos info c [] = Inr None"
| "find_same sysinfos info c (k # ks) =
     (if length sysinfos \<le> k then Inl OutOfBounds
      else res_bind (isSameSyscall info (sysinfos ! k)) (\<lambda>same.
             if same then Inr (Some c) else find_same sysinfos info (c + 1) ks))"

record sysgroup =
  prepc :: "u64 set"
  prenum :: "u32 set"
  newinfos :: "nat list"

definition dectect_Sysinfos :: "SyscallInfo list \<Rightarrow> nat \<Rightarrow> sysgroup \<Rightarrow> (nat \<times> sysgroup) res" where
  "dectect_Sysinfos sysinfos idx g =
     (if length sysinfos \<le> idx then Inl OutOfBounds
      else let info = sysinfos ! idx;
               g' = g\<lparr>prepc := insert (si_pc info) (prepc g), prenum := insert (ucast (si_num info)) (prenum g)\<rparr>;
               new = (length (newinfos g), g'\<lparr>newinfos := newinfos g @ [idx]\<rparr>)
           in if si_pc info \<notin> prepc g \<or> ucast (si_num info) \<notin> prenum g then Inr new
              else res_bind (find_same sysinfos info 0 (newinfos g)) (\<lambda>r. case r of
                       None \<Rightarrow> Inr new
                     | Some c \<Rightarrow> Inr (c, g')))"

definition sysgroup_empty :: sysgroup where
  "sysgroup_empty = \<lparr>prepc = {}, prenum = {}, newinfos = []\<rparr>"

text \<open>
  The first loop of \<open>saveSysInfo\<close>: the calls with data form one group, those without another;
  each call gets the index of its record in its group.
\<close>

definition classify :: "SyscallInfo list \<Rightarrow> nat \<Rightarrow> nat list \<times> sysgroup \<times> sysgroup \<Rightarrow>
    (nat list \<times> sysgroup \<times> sysgroup) res" where
  "classify sysinfos i st =
     (case st of (sys_idxs, g, g1) \<Rightarrow>
      if length (si_data (sysinfos ! i)) \<noteq> 0
      then res_bind (dectect_Sysinfos sysinfos i g1) (\<lambda>(r, g1'). Inr (sys_idxs @ [r], g, g1'))
      else res_bind (dectect_Sysinfos sysinfos i g) (\<lambda>(r, g'). Inr (sys_idxs @ [r], g', g1)))"

section \<open>Writing\<close>

definition param0 :: "SyscallInfo \<Rightarrow> u64 res" where
  "param0 s = (case si_params s of [] \<Rightarrow> Inl OutOfBounds | p # _ \<Rightarrow> Inr p)"

definition hasret_bit :: "SyscallInfo \<Rightarrow> u64" where
  "hasret_bit s = (if si_hasret s then 1 else 0)"

text \<open>One record of five words; the last one is the position of the data and the flag.\<close>

definition sys_record :: "SyscallInfo \<Rightarrow> u64 \<Rightarrow> bytes res" where
  "sys_record s data_addr =
     res_bind (param0 s) (\<lambda>p0.
       Inr (le64 (si_pc s) @ le64 (push_bit 32 (si_num s) + of_nat (length (si_data s))) @
            le64 p0 @ le64 (si_ret s) @ le64 (push_bit 8 data_addr + hasret_bit s)))"

definition invalid_addr :: u64 where "invalid_addr = 0xffffffff"

definition write_plain :: "SyscallInfo list \<Rightarrow> nat \<Rightarrow> bytes \<Rightarrow> bytes res" where
  "write_plain sysinfos k out = res_bind (sys_record (sysinfos ! k) invalid_addr) (\<lambda>bs. Inr (out @ bs))"

definition write_withdata :: "SyscallInfo list \<Rightarrow> nat \<Rightarrow> bytes \<times> u64 \<Rightarrow> (bytes \<times> u64) res" where
  "write_withdata sysinfos k st =
     (case st of (out, data_addr) \<Rightarrow>
      res_bind (sys_record (sysinfos ! k) data_addr) (\<lambda>bs.
        Inr (out @ bs, data_addr + of_nat (length (si_data (sysinfos ! k))) + 8)))"

definition sys_payload :: "SyscallInfo \<Rightarrow> bytes" where
  "sys_payload s = le64 (si_bufaddr s) @ si_data s"

definition clear_data :: "nat \<Rightarrow> SyscallInfo list \<Rightarrow> SyscallInfo list" where
  "clear_data k sysinfos = sysinfos[k := (sysinfos ! k)\<lparr>si_data := []\<rparr>]"

definition saveSysInfo :: "SyscallInfo list \<Rightarrow> (bytes \<times> SyscallInfo list) res" where
  "saveSysInfo sysinfos =
     res_bind (res_fold (classify sysinfos) [0..<length sysinfos] ([], sysgroup_empty, sysgroup_empty))
       (\<lambda>(sys_idxs0, g, g1).
        let news = newinfos g; news1 = newinfos g1; size1 = length news;
            sys_idxs = map (\<lambda>i. if length (si_data (sysinfos ! i)) \<noteq> 0 then sys_idxs0 ! i + size1
                                else sys_idxs0 ! i) [0..<length sysinfos];
            idx_size = 4 * length sysinfos;
            info_size = 5 * 8 * (length news + length news1);
            out0 = le64 (of_nat (length sysinfos)) @ concat (map (\<lambda>i. le32 (of_nat i)) sys_idxs)
        in res_bind (res_fold (write_plain sysinfos) news out0) (\<lambda>out1.
           res_bind (res_fold (write_withdata sysinfos) news1 (out1, of_nat (idx_size + info_size + 8)))
             (\<lambda>(out2, _).
              Inr (out2 @ concat (map (\<lambda>k. sys_payload (sysinfos ! k)) news1),
                   fold clear_data news1 sysinfos))))"

text \<open>The older form: ten words per call, then all the data.\<close>

definition sys_record1 :: "SyscallInfo \<Rightarrow> u64 \<Rightarrow> bytes res" where
  "sys_record1 s data_addr =
     (if length (si_params s) < 3 then Inl OutOfBounds
      else Inr (concat (map le64
             [si_pc s, si_num s, si_params s ! 0, si_params s ! 1, si_params s ! 2, hasret_bit s,
              si_ret s, si_bufaddr s, if length (si_data s) = 0 then invalid_addr else data_addr,
              of_nat (length (si_data s))])))"

definition write_record1 :: "SyscallInfo \<Rightarrow> bytes \<times> u64 \<Rightarrow> (bytes \<times> u64) res" where
  "write_record1 s st =
     (case st of (out, data_addr) \<Rightarrow>
      res_bind (sys_record1 s data_addr) (\<lambda>bs. Inr (out @ bs, data_addr + of_nat (length (si_data s)))))"

definition saveSysInfo1 :: "SyscallInfo list \<Rightarrow> (bytes \<times> SyscallInfo list) res" where
  "saveSysInfo1 sysinfos =
     res_bind (res_fold write_record1 sysinfos
                 (le64 (of_nat (length sysinfos)), of_nat (10 * 8 * length sysinfos + 8))) (\<lambda>(out, _).
       Inr (out @ concat (map si_data sysinfos), map (\<lambda>s. s\<lparr>si_data := []\<rparr>) sysinfos))"

section \<open>Recording keeps one entry per call\<close>

lemma length_upd_last [simp]: "length (upd_last f xs) = length xs"
  by (cases xs rule: rev_cases) (simp_all add: upd_last_def)

lemma upd_last_snoc [simp]: "upd_last f (xs @ [x]) = xs @ [f x]"
  by (simp add: upd_last_def)

text \<open>
  A call that enters, runs with a buffer and returns, with nothing in between, leaves exactly
  one entry that holds its number, arguments, result and data.
\<close>

lemma record_call:
  assumes "length data = unat sz"
  shows "res_bind (add_sysexe pc ret0 buf sz data (add_sysenter pc num ps infos))
      (\<lambda>infos'. Inr (add_sysret pc name hasret ret infos')) =
    Inr (infos @ [\<lparr>si_name = name, si_pc = pc, si_num = ucast num, si_ret = ret, si_hasret = hasret,
      si_bufaddr = buf, si_data = data, si_params = ps\<rparr>])"
  using assms by (simp add: add_sysenter_def add_sysexe_def add_sysret_def SyscallInfo_new_def)

section \<open>Shared records describe the call\<close>

definition same_call :: "SyscallInfo \<Rightarrow> SyscallInfo \<Rightarrow> bool" where
  "same_call s t \<longleftrightarrow> si_pc s = si_pc t \<and> si_num s = si_num t \<and> si_hasret s = si_hasret t \<and>
     si_ret s = si_ret t \<and> hd (si_params s) = hd (si_params t) \<and> si_data s = si_data t \<and>
     (si_data s \<noteq> [] \<longrightarrow> si_bufaddr s = si_bufaddr t)"

lemma same_call_refl [simp]: "same_call s s"
  by (simp add: same_call_def)

lemma isSameSyscall_ok:
  assumes "si_params s \<noteq> []" "si_params t \<noteq> []" and "si_data s = [] \<longleftrightarrow> si_data t = []"
  shows "isSameSyscall s t = Inr (same_call s t)"
  using assms by (auto simp: isSameSyscall_def same_call_def list_all2_eq [symmetric])

definition group_ok :: "SyscallInfo list \<Rightarrow> bool \<Rightarrow> sysgroup \<Rightarrow> bool" where
  "group_ok infos d g \<longleftrightarrow> (\<forall>k \<in> set (newinfos g). k < length infos \<and> (si_data (infos ! k) = [] \<longleftrightarrow> d))"

lemma find_same_ok:
  assumes "\<forall>k \<in> set ks. k < length infos \<and> (si_data (infos ! k) = [] \<longleftrightarrow> si_data s = [])"
    and "\<forall>t \<in> set infos. si_params t \<noteq> []" "si_params s \<noteq> []"
  shows "\<exists>r. find_same infos s c ks = Inr r \<and>
    (\<forall>j. r = Some j \<longrightarrow> c \<le> j \<and> j < c + length ks \<and> same_call s (infos ! (ks ! (j - c))))"
  using assms(1)
proof (induction ks arbitrary: c)
  case (Cons k ks)
  have k: "k < length infos" "si_params (infos ! k) \<noteq> []" "si_data s = [] \<longleftrightarrow> si_data (infos ! k) = []"
    using Cons.prems assms(2) by auto
  show ?case
  proof (cases "same_call s (infos ! k)")
    case True
    with k isSameSyscall_ok [OF assms(3) k(2,3)] show ?thesis by simp
  next
    case False
    obtain r where "find_same infos s (c + 1) ks = Inr r"
      "\<forall>j. r = Some j \<longrightarrow> c + 1 \<le> j \<and> j < c + 1 + length ks \<and> same_call s (infos ! (ks ! (j - (c + 1))))"
      using Cons.IH [of "c + 1"] Cons.prems by auto
    with False k isSameSyscall_ok [OF assms(3) k(2,3)] show ?thesis
      by (auto simp: nth_Cons' Suc_le_eq)
  qed
qed simp

lemma dectect_ok:
  assumes i: "i < length infos" and g: "group_ok infos (si_data (infos ! i) = []) g"
    and ps: "\<forall>t \<in> set infos. si_params t \<noteq> []"
  shows "\<exists>r g' ext. dectect_Sysinfos infos i g = Inr (r, g') \<and> newinfos g' = newinfos g @ ext \<and>
    r < length (newinfos g') \<and> same_call (infos ! i) (infos ! (newinfos g' ! r)) \<and>
    group_ok infos (si_data (infos ! i) = []) g'"
proof -
  let ?s = "infos ! i"
  let ?g = "g\<lparr>prepc := insert (si_pc ?s) (prepc g), prenum := insert (ucast (si_num ?s)) (prenum g)\<rparr>"
  let ?new = "Inr (length (newinfos g), ?g\<lparr>newinfos := newinfos g @ [i]\<rparr>) :: (nat \<times> sysgroup) res"
  have new: ?thesis if "dectect_Sysinfos infos i g = ?new"
    using that i g by (auto simp: group_ok_def)
  show ?thesis
  proof (cases "si_pc ?s \<notin> prepc g \<or> ucast (si_num ?s) \<notin> prenum g")
    case True
    then show ?thesis using i by (intro new) (simp add: dectect_Sysinfos_def Let_def)
  next
    case False
    obtain r where r: "find_same infos ?s 0 (newinfos g) = Inr r"
      "\<forall>j. r = Some j \<longrightarrow> j < length (newinfos g) \<and> same_call ?s (infos ! (newinfos g ! j))"
      using find_same_ok [of "newinfos g" infos ?s 0] g ps i by (auto simp: group_ok_def)
    show ?thesis
    proof (cases r)
      case None
      then show ?thesis using i False r(1) by (intro new) (simp add: dectect_Sysinfos_def Let_def)
    next
      case (Some j)
      then have "dectect_Sysinfos infos i g = Inr (j, ?g)"
        using i False r(1) by (simp add: dectect_Sysinfos_def Let_def)
      with Some r(2) g show ?thesis by (intro exI [of _ j] exI [of _ ?g] exI [of _ "[]"]) (simp add: group_ok_def)
    qed
  qed
qed

definition assigned :: "SyscallInfo list \<Rightarrow> sysgroup \<Rightarrow> sysgroup \<Rightarrow> nat \<Rightarrow> nat \<Rightarrow> bool" where
  "assigned infos g g1 i r \<longleftrightarrow>
     (let ks = newinfos (if si_data (infos ! i) = [] then g else g1)
      in r < length ks \<and> same_call (infos ! i) (infos ! (ks ! r)))"

lemma assigned_mono:
  assumes "assigned infos g g1 i r" "newinfos g' = newinfos g @ ext" "newinfos g1' = newinfos g1 @ ext1"
  shows "assigned infos g' g1' i r"
  using assms by (auto simp: assigned_def Let_def nth_append split: if_splits)

lemma classify_ok:
  assumes "n \<le> length infos" and ps: "\<forall>t \<in> set infos. si_params t \<noteq> []"
  shows "\<exists>idxs g g1. res_fold (classify infos) [0..<n] ([], sysgroup_empty, sysgroup_empty) = Inr (idxs, g, g1) \<and>
    length idxs = n \<and> group_ok infos True g \<and> group_ok infos False g1 \<and>
    (\<forall>i < n. assigned infos g g1 i (idxs ! i))"
  using assms(1)
proof (induction n)
  case 0
  then show ?case by (simp add: sysgroup_empty_def group_ok_def)
next
  case (Suc n)
  then obtain idxs g g1 where s: "res_fold (classify infos) [0..<n] ([], sysgroup_empty, sysgroup_empty) = Inr (idxs, g, g1)"
    "length idxs = n" "group_ok infos True g" "group_ok infos False g1" "\<forall>i < n. assigned infos g g1 i (idxs ! i)"
    by auto
  have n: "n < length infos" using Suc.prems by simp
  show ?case
  proof (cases "si_data (infos ! n) = []")
    case True
    obtain r g' ext where d: "dectect_Sysinfos infos n g = Inr (r, g')" "newinfos g' = newinfos g @ ext"
      "r < length (newinfos g')" "same_call (infos ! n) (infos ! (newinfos g' ! r))" "group_ok infos True g'"
      using dectect_ok [OF n _ ps, of g] True s(3) by auto
    have an: "assigned infos g' g1 n r" using d(3,4) True by (simp add: assigned_def)
    have "assigned infos g' g1 i ((idxs @ [r]) ! i)" if "i < Suc n" for i
      using that s(2,5) assigned_mono [OF _ d(2), of infos g1 i _ g1 "[]"] an
      by (auto simp: less_Suc_eq nth_append)
    moreover have "classify infos n (idxs, g, g1) = Inr (idxs @ [r], g', g1)"
      using True d(1) by (simp add: classify_def)
    then have "res_fold (classify infos) [0..<Suc n] ([], sysgroup_empty, sysgroup_empty) = Inr (idxs @ [r], g', g1)"
      using s(1) by (simp add: res_fold_append)
    moreover have "length (idxs @ [r]) = Suc n" using s(2) by simp
    ultimately show ?thesis using d(5) s(4) by blast
  next
    case False
    obtain r g' ext where d: "dectect_Sysinfos infos n g1 = Inr (r, g')" "newinfos g' = newinfos g1 @ ext"
      "r < length (newinfos g')" "same_call (infos ! n) (infos ! (newinfos g' ! r))" "group_ok infos False g'"
      using dectect_ok [OF n _ ps, of g1] False s(4) by auto
    have an: "assigned infos g g' n r" using d(3,4) False by (simp add: assigned_def)
    have "assigned infos g g' i ((idxs @ [r]) ! i)" if "i < Suc n" for i
      using that s(2,5) assigned_mono [OF _ _ d(2), of infos g i _ g "[]"] an
      by (auto simp: less_Suc_eq nth_append)
    moreover have "classify infos n (idxs, g, g1) = Inr (idxs @ [r], g, g')"
      using False d(1) by (simp add: classify_def)
    then have "res_fold (classify infos) [0..<Suc n] ([], sysgroup_empty, sysgroup_empty) = Inr (idxs @ [r], g, g')"
      using s(1) by (simp add: res_fold_append)
    moreover have "length (idxs @ [r]) = Suc n" using s(2) by simp
    ultimately show ?thesis using d(5) s(3) by blast
  qed
qed

section \<open>The layout of the section\<close>

definition rec_bytes :: "SyscallInfo \<Rightarrow> u64 \<Rightarrow> bytes" where
  "rec_bytes s off =
     le64 (si_pc s) @ le64 (push_bit 32 (si_num s) + of_nat (length (si_data s))) @
     le64 (hd (si_params s)) @ le64 (si_ret s) @ le64 (push_bit 8 off + hasret_bit s)"

lemma length_rec_bytes [simp]: "length (rec_bytes s off) = 40"
  by (simp add: rec_bytes_def)

lemma sys_record_eq: "si_params s \<noteq> [] \<Longrightarrow> sys_record s off = Inr (rec_bytes s off)"
  by (cases "si_params s") (simp_all add: sys_record_def param0_def rec_bytes_def)

lemma rec_bytes_same: "same_call s t \<Longrightarrow> rec_bytes s off = rec_bytes t off"
  by (simp add: same_call_def rec_bytes_def hasret_bit_def)

text \<open>Where the data of the \<open>j\<close>-th record with data starts, relative to the first one.\<close>

definition payload_off :: "SyscallInfo list \<Rightarrow> nat list \<Rightarrow> nat \<Rightarrow> nat" where
  "payload_off infos ks j = sum_list (map (\<lambda>k. length (si_data (infos ! k)) + 8) (take j ks))"

lemma write_plain_all:
  assumes "\<forall>k \<in> set ks. si_params (infos ! k) \<noteq> []"
  shows "res_fold (write_plain infos) ks out = Inr (out @ concat (map (\<lambda>k. rec_bytes (infos ! k) invalid_addr) ks))"
  using assms by (induction ks arbitrary: out) (simp_all add: write_plain_def sys_record_eq)

lemma write_withdata_all:
  assumes "\<forall>k \<in> set ks. si_params (infos ! k) \<noteq> []"
  shows "res_fold (write_withdata infos) ks (out, da) =
    Inr (out @ concat (map (\<lambda>j. rec_bytes (infos ! (ks ! j)) (da + of_nat (payload_off infos ks j))) [0..<length ks]),
         da + of_nat (payload_off infos ks (length ks)))"
  using assms
proof (induction ks rule: rev_induct)
  case (snoc k ks)
  have m: "map (\<lambda>j. rec_bytes (infos ! ((ks @ [k]) ! j)) (da + of_nat (payload_off infos (ks @ [k]) j))) [0..<length ks] =
      map (\<lambda>j. rec_bytes (infos ! (ks ! j)) (da + of_nat (payload_off infos ks j))) [0..<length ks]"
    by (simp add: nth_append payload_off_def)
  have off: "payload_off infos (ks @ [k]) (length ks) = payload_off infos ks (length ks)"
    "payload_off infos (ks @ [k]) (Suc (length ks)) = payload_off infos ks (length ks) + (length (si_data (infos ! k)) + 8)"
    by (simp_all add: payload_off_def)
  have step: "write_withdata infos k (x, a) =
      Inr (x @ rec_bytes (infos ! k) a, a + of_nat (length (si_data (infos ! k)) + 8))" for x a
    using snoc.prems by (simp add: write_withdata_def sys_record_eq)
  have IH: "res_fold (write_withdata infos) ks (out, da) =
      Inr (out @ concat (map (\<lambda>j. rec_bytes (infos ! (ks ! j)) (da + of_nat (payload_off infos ks j))) [0..<length ks]),
         da + of_nat (payload_off infos ks (length ks)))"
    using snoc by simp
  have up: "[0..<length (ks @ [k])] = [0..<length ks] @ [length ks]" by simp
  show ?case
    unfolding res_fold_append IH up map_append m by (simp add: step off)
qed (simp add: payload_off_def)

lemma nth_block:
  assumes "\<And>x. x \<in> set xs \<Longrightarrow> length (f x) = m" and "k < length xs"
  shows "take m (drop (m * k) (concat (map f xs) @ ys)) = f (xs ! k)"
  using assms
proof (induction xs arbitrary: k)
  case (Cons x xs)
  show ?case
  proof (cases k)
    case (Suc j)
    have "drop (m * k) (concat (map f (x # xs)) @ ys) = drop (m * j) (concat (map f xs) @ ys)"
      using Cons.prems(1) [of x] by (simp add: Suc)
    then show ?thesis using Cons Suc by simp
  qed (use Cons.prems(1) [of x] in simp)
qed simp

lemma length_blocks: "(\<And>x. x \<in> set xs \<Longrightarrow> length (f x) = m) \<Longrightarrow> length (concat (map f xs)) = m * length xs"
  by (induction xs) auto

lemma nth_payload:
  assumes "j < length ks"
  shows "take (8 + length (si_data (infos ! (ks ! j)))) (drop (payload_off infos ks j)
      (concat (map (\<lambda>k. sys_payload (infos ! k)) ks))) = sys_payload (infos ! (ks ! j))"
    and "payload_off infos ks j + 8 + length (si_data (infos ! (ks ! j))) \<le>
      length (concat (map (\<lambda>k. sys_payload (infos ! k)) ks))"
proof -
  let ?f = "\<lambda>k. sys_payload (infos ! k)"
  have ks: "ks = take j ks @ ks ! j # drop (Suc j) ks" using assms by (rule id_take_nth_drop)
  have off: "length (concat (map ?f (take j ks))) = payload_off infos ks j"
    by (simp add: payload_off_def length_concat comp_def sys_payload_def add.commute)
  have c: "concat (map ?f ks) = concat (map ?f (take j ks)) @ ?f (ks ! j) @ concat (map ?f (drop (Suc j) ks))"
    by (subst ks) simp
  have l: "length (?f (ks ! j)) = 8 + length (si_data (infos ! (ks ! j)))" by (simp add: sys_payload_def)
  show "take (8 + length (si_data (infos ! (ks ! j)))) (drop (payload_off infos ks j) (concat (map ?f ks))) = ?f (ks ! j)"
    unfolding c using off l by simp
  show "payload_off infos ks j + 8 + length (si_data (infos ! (ks ! j))) \<le> length (concat (map ?f ks))"
    unfolding c using off l by simp
qed

text \<open>
  What a section has to hold for call \<open>i\<close> of \<open>n\<close>, at the places where the loader looks: the
  index of a record, the record, and behind it the buffer address and the data.
\<close>

definition sec_call :: "bytes \<Rightarrow> nat \<Rightarrow> nat \<Rightarrow> SyscallInfo \<Rightarrow> bool" where
  "sec_call sec n i s \<longleftrightarrow> (\<exists>r off. 8 + 4 * n + 40 * r + 40 \<le> length sec \<and>
     take 4 (drop (8 + 4 * i) sec) = le32 (of_nat r) \<and>
     take 40 (drop (8 + 4 * n + 40 * r) sec) = rec_bytes s (of_nat off) \<and>
     (if si_data s = [] then off = 0xffffffff
      else off + 8 + length (si_data s) \<le> length sec \<and>
           take (8 + length (si_data s)) (drop off sec) = sys_payload s))"

text \<open>Where the parts of a section are: the indexes, the records and the data behind them.\<close>

lemma section_parts:
  fixes recs :: "bytes list" and ixs :: "nat list" and P :: bytes and c :: u64
  assumes recs: "\<And>x. x \<in> set recs \<Longrightarrow> length x = 40"
  defines "sec \<equiv> le64 c @ concat (map (\<lambda>i. le32 (of_nat i)) ixs) @ concat recs @ P"
  shows "i < length ixs \<Longrightarrow> take 4 (drop (8 + 4 * i) sec) = le32 (of_nat (ixs ! i))"
    and "r < length recs \<Longrightarrow> take 40 (drop (8 + 4 * length ixs + 40 * r) sec) = recs ! r"
    and "r < length recs \<Longrightarrow> 8 + 4 * length ixs + 40 * r + 40 \<le> length sec"
    and "drop (8 + 4 * length ixs + 40 * length recs + k) sec = drop k P"
    and "length sec = 8 + 4 * length ixs + 40 * length recs + length P"
proof -
  have lI: "length (concat (map (\<lambda>i. le32 (of_nat i)) ixs)) = 4 * length ixs"
    by (rule length_blocks) simp
  have lR: "length (concat recs) = 40 * length recs" using length_blocks [of recs id 40] recs by simp
  show "i < length ixs \<Longrightarrow> take 4 (drop (8 + 4 * i) sec) = le32 (of_nat (ixs ! i))"
    using nth_block [of ixs "\<lambda>i. le32 (of_nat i)" 4 i "concat recs @ P"] by (simp add: sec_def)
  show "r < length recs \<Longrightarrow> take 40 (drop (8 + 4 * length ixs + 40 * r) sec) = recs ! r"
    using nth_block [of recs id 40 r P] recs by (simp add: sec_def lI)
  show "drop (8 + 4 * length ixs + 40 * length recs + k) sec = drop k P" by (simp add: sec_def lI lR)
  show l: "length sec = 8 + 4 * length ixs + 40 * length recs + length P" by (simp add: sec_def lI lR)
  show "r < length recs \<Longrightarrow> 8 + 4 * length ixs + 40 * r + 40 \<le> length sec" by (simp add: l)
qed

lemma sec_call_plain:
  fixes recs :: "bytes list" and ixs :: "nat list" and P :: bytes and c :: u64
  assumes recs: "\<And>x. x \<in> set recs \<Longrightarrow> length x = 40"
    and s: "si_data s = []" "r < length recs" "recs ! r = rec_bytes s invalid_addr" "ixs ! i = r" "i < length ixs"
  defines "sec \<equiv> le64 c @ concat (map (\<lambda>i. le32 (of_nat i)) ixs) @ concat recs @ P"
  shows "sec_call sec (length ixs) i s"
proof -
  note parts = section_parts [where recs = recs and ixs = ixs and P = P and c = c, OF recs, folded sec_def]
  show ?thesis
    unfolding sec_call_def
    by (rule exI [of _ r], rule exI [of _ "0xffffffff"]) (use s parts in \<open>simp add: invalid_addr_def\<close>)
qed

lemma sec_call_withdata:
  fixes recs :: "bytes list" and ixs :: "nat list" and P :: bytes and c :: u64
  assumes recs: "\<And>x. x \<in> set recs \<Longrightarrow> length x = 40"
    and s: "si_data s \<noteq> []" "r < length recs" "ixs ! i = r" "i < length ixs"
    and at: "recs ! r = rec_bytes s (of_nat (8 + 4 * length ixs + 40 * length recs + k))"
      "take (8 + length (si_data s)) (drop k P) = sys_payload s" "k + 8 + length (si_data s) \<le> length P"
  defines "sec \<equiv> le64 c @ concat (map (\<lambda>i. le32 (of_nat i)) ixs) @ concat recs @ P"
  shows "sec_call sec (length ixs) i s"
proof -
  note parts = section_parts [where recs = recs and ixs = ixs and P = P and c = c, OF recs, folded sec_def]
  show ?thesis
    unfolding sec_call_def
    by (rule exI [of _ r], rule exI [of _ "8 + 4 * length ixs + 40 * length recs + k"])
      (use s at parts(1,2,3) parts(4) [of k] parts(5) in simp)
qed

lemma saveSysInfo_ok:
  assumes ps: "\<forall>t \<in> set infos. si_params t \<noteq> []"
  shows "\<exists>sec infos'. saveSysInfo infos = Inr (sec, infos') \<and> take 8 sec = le64 (of_nat (length infos)) \<and>
    (\<forall>i < length infos. sec_call sec (length infos) i (infos ! i))"
proof -
  let ?n = "length infos"
  obtain idxs g g1 where c: "res_fold (classify infos) [0..<?n] ([], sysgroup_empty, sysgroup_empty) = Inr (idxs, g, g1)"
    "length idxs = ?n" "group_ok infos True g" "group_ok infos False g1" "\<forall>i < ?n. assigned infos g g1 i (idxs ! i)"
    using classify_ok [OF order.refl ps] by blast
  define news news1 where "news = newinfos g" and "news1 = newinfos g1"
  define idx where "idx = (\<lambda>i. if length (si_data (infos ! i)) \<noteq> 0 then idxs ! i + length news else idxs ! i)"
  define D where "D = 4 * ?n + 5 * 8 * (length news + length news1) + 8"
  define ixs where "ixs = map idx [0..<?n]"
  define recs where "recs = map (\<lambda>k. rec_bytes (infos ! k) invalid_addr) news @
    map (\<lambda>j. rec_bytes (infos ! (news1 ! j)) (of_nat D + of_nat (payload_off infos news1 j))) [0..<length news1]"
  define P where "P = concat (map (\<lambda>k. sys_payload (infos ! k)) news1)"
  define sec where "sec = le64 (of_nat ?n) @ concat (map (\<lambda>i. le32 (of_nat i)) ixs) @ concat recs @ P"
  have ps': "\<forall>k \<in> set news. si_params (infos ! k) \<noteq> []" "\<forall>k \<in> set news1. si_params (infos ! k) \<noteq> []"
    using c(3,4) ps by (auto simp: group_ok_def news_def news1_def)
  have "saveSysInfo infos = Inr (sec, fold clear_data news1 infos)"
    unfolding saveSysInfo_def c(1) res_bind_simps prod.case Let_def
      news_def [symmetric] news1_def [symmetric] write_plain_all [OF ps'(1)] write_withdata_all [OF ps'(2)]
    by (simp add: sec_def ixs_def idx_def recs_def P_def D_def)
  moreover have "take 8 sec = le64 (of_nat ?n)" by (simp add: sec_def)
  moreover have "sec_call sec (length ixs) i (infos ! i)" if i: "i < ?n" for i
  proof -
    have a: "assigned infos g g1 i (idxs ! i)" using c(5) i by blast
    have l: "length ixs = ?n" "length recs = length news + length news1" "ixs ! i = idx i"
      using i by (simp_all add: ixs_def recs_def)
    have l40: "\<And>x. x \<in> set recs \<Longrightarrow> length x = 40" by (auto simp: recs_def)
    show ?thesis
    proof (cases "si_data (infos ! i) = []")
      case True
      then have r: "idx i < length news" "same_call (infos ! i) (infos ! (news ! idx i))"
        using a by (simp_all add: assigned_def Let_def idx_def news_def)
      then have "recs ! idx i = rec_bytes (infos ! i) invalid_addr"
        using rec_bytes_same [OF r(2)] by (simp add: recs_def nth_append)
      with True r(1) i l show ?thesis unfolding sec_def by (intro sec_call_plain [OF l40]) simp_all
    next
      case False
      define j where "j = idxs ! i"
      have r: "idx i = length news + j" "j < length news1" "same_call (infos ! i) (infos ! (news1 ! j))"
        using a False by (simp_all add: assigned_def Let_def idx_def news1_def j_def)
      have "recs ! idx i = rec_bytes (infos ! i) (of_nat (8 + 4 * length ixs + 40 * length recs + payload_off infos news1 j))"
        using rec_bytes_same [OF r(3)] r(1,2) l by (simp add: recs_def nth_append D_def algebra_simps)
      moreover have "sys_payload (infos ! (news1 ! j)) = sys_payload (infos ! i)"
        "si_data (infos ! (news1 ! j)) = si_data (infos ! i)"
        using r(3) False by (auto simp: same_call_def sys_payload_def)
      ultimately show ?thesis
        using nth_payload [OF r(2), of infos] False r i l unfolding sec_def P_def
        by (intro sec_call_withdata [OF l40]) simp_all
    qed
  qed
  ultimately show ?thesis by (auto simp: ixs_def)
qed

end
