(* ===== verification/FastLZ.thy ===== *)
theory FastLZ
  imports CkptPrelude
begin

unbundle bit_operations_syntax

text \<open>
  The compressor of first-load data, \<open>sim/fastlz.cc\<close> (the loaders carry the same file as
  \<open>fastlz.cpp\<close>), built for a 64-bit host (\<open>FLZ_ARCH64\<close>) with bound checks (\<open>FASTLZ_SAFE\<close>).
  Pointers are indices into bounded buffers, so every load and store of the source,
  the wide copies past the end of a run included, is checked. The level-1 format is the one
  the checkpoint writer uses.
\<close>

section \<open>Wide reads and copies\<close>

definition flz_readu32 :: "cbuf \<Rightarrow> nat \<Rightarrow> u32 res" where
  "flz_readu32 b p = res_bind (peek b p 4) (\<lambda>bs. Inr (un32 bs))"

definition flz_readu64 :: "cbuf \<Rightarrow> nat \<Rightarrow> u64 res" where
  "flz_readu64 b p = res_bind (peek b p 8) (\<lambda>bs. Inr (un64 bs))"

definition fastlz_memcpy :: "cbuf \<Rightarrow> nat \<Rightarrow> cbuf \<Rightarrow> nat \<Rightarrow> nat \<Rightarrow> cbuf res" where
  "fastlz_memcpy dest d src s count = res_bind (peek src s count) (poke dest d)"

text \<open>
  \<open>fastlz_memmove\<close> works inside the output. The \<open>switch\<close> of the source unrolls the last
  three iterations of the byte loop.
\<close>

fun move_bytes :: "nat \<Rightarrow> cbuf \<Rightarrow> nat \<Rightarrow> nat \<Rightarrow> cbuf res" where
  "move_bytes 0 b d s = Inr b"
| "move_bytes (Suc count) b d s =
     res_bind (peek1 b s) (\<lambda>x. res_bind (poke b d [x]) (\<lambda>b'. move_bytes count b' (d + 1) (s + 1)))"

definition fastlz_memmove :: "cbuf \<Rightarrow> nat \<Rightarrow> nat \<Rightarrow> nat \<Rightarrow> cbuf res" where
  "fastlz_memmove b d s count =
     (if 4 < count \<and> s + count \<le> d then res_bind (peek b s count) (poke b d)
      else move_bytes count b d s)"

function flz_cmp_tail :: "cbuf \<Rightarrow> nat \<Rightarrow> nat \<Rightarrow> nat \<Rightarrow> nat res" where
  "flz_cmp_tail b p q r =
     (if q < r
      then res_bind (peek1 b p) (\<lambda>x. res_bind (peek1 b q) (\<lambda>y.
             if x \<noteq> y then Inr (p + 1) else flz_cmp_tail b (p + 1) (q + 1) r))
      else Inr p)"
  by pat_completeness auto
termination by (relation "measure (\<lambda>(b, p, q, r). r - q)") auto

declare flz_cmp_tail.simps [simp del]

definition flz_cmp :: "cbuf \<Rightarrow> nat \<Rightarrow> nat \<Rightarrow> nat \<Rightarrow> nat res" where
  "flz_cmp b p q r =
     res_bind (flz_readu64 b p) (\<lambda>x8. res_bind (flz_readu64 b q) (\<lambda>y8.
       let k = (if x8 = y8 then 8 else 0)
       in res_bind (flz_readu32 b (p + k)) (\<lambda>x4. res_bind (flz_readu32 b (q + k)) (\<lambda>y4.
            let k' = (if x4 = y4 then k + 4 else k)
            in res_bind (flz_cmp_tail b (p + k') (q + k') r) (\<lambda>e. Inr (e - p))))))"

fun copy_words :: "nat \<Rightarrow> cbuf \<Rightarrow> nat \<Rightarrow> cbuf \<Rightarrow> nat \<Rightarrow> cbuf res" where
  "copy_words 0 dest d src s = Inr dest"
| "copy_words (Suc n) dest d src s =
     res_bind (peek src s 8) (\<lambda>bs. res_bind (poke dest d bs) (\<lambda>dest'.
       copy_words n dest' (d + 8) src (s + 8)))"

definition flz_copy64 :: "cbuf \<Rightarrow> nat \<Rightarrow> cbuf \<Rightarrow> nat \<Rightarrow> nat \<Rightarrow> cbuf res" where
  "flz_copy64 dest d src s count =
     (if count < 16 then (if 8 \<le> count then copy_words 2 dest d src s else copy_words 1 dest d src s)
      else copy_words 4 dest d src s)"

definition flz_copy256 :: "cbuf \<Rightarrow> nat \<Rightarrow> cbuf \<Rightarrow> nat \<Rightarrow> cbuf res" where
  "flz_copy256 dest d src s = copy_words 4 dest d src s"

section \<open>Emitting tokens\<close>

definition MAX_COPY :: nat where "MAX_COPY = 32"
definition MAX_LEN :: nat where "MAX_LEN = 264"
definition MAX_L1_DISTANCE :: nat where "MAX_L1_DISTANCE = 8192"
definition MAX_L2_DISTANCE :: nat where "MAX_L2_DISTANCE = 8191"
definition MAX_FARDISTANCE :: nat where "MAX_FARDISTANCE = 65535 + MAX_L2_DISTANCE - 1"
definition HASH_LOG :: nat where "HASH_LOG = 14"

lemmas lz_const = MAX_COPY_def MAX_LEN_def MAX_L1_DISTANCE_def MAX_L2_DISTANCE_def MAX_FARDISTANCE_def

definition flz_hash :: "u32 \<Rightarrow> u16" where
  "flz_hash v = (let h = ucast (drop_bit (32 - HASH_LOG) (ucast v * 2654435769 :: u64)) :: u32
                 in ucast (h AND mask HASH_LOG))"

text \<open>Both emitters return the new output and the new end of it.\<close>

function flz_literals :: "nat \<Rightarrow> cbuf \<Rightarrow> nat \<Rightarrow> cbuf \<Rightarrow> nat \<Rightarrow> (nat \<times> cbuf) res" where
  "flz_literals runs src s dest d =
     (if MAX_COPY \<le> runs
      then res_bind (poke dest d [of_nat (MAX_COPY - 1)]) (\<lambda>dest1.
           res_bind (flz_copy256 dest1 (d + 1) src s) (\<lambda>dest2.
             flz_literals (runs - MAX_COPY) src (s + MAX_COPY) dest2 (d + 1 + MAX_COPY)))
      else if 0 < runs
      then res_bind (poke dest d [of_nat (runs - 1)]) (\<lambda>dest1.
           res_bind (flz_copy64 dest1 (d + 1) src s runs) (\<lambda>dest2. Inr (d + 1 + runs, dest2)))
      else Inr (d, dest))"
  by pat_completeness auto
termination by (relation "measure (\<lambda>(runs, _). runs)") (auto simp: MAX_COPY_def)

declare flz_literals.simps [simp del]

function smallcopy_words :: "nat \<Rightarrow> cbuf \<Rightarrow> nat \<Rightarrow> cbuf \<Rightarrow> nat \<Rightarrow> (nat \<times> cbuf \<times> nat \<times> nat) res" where
  "smallcopy_words count dest d src s =
     (if 8 < count
      then res_bind (peek src s 8) (\<lambda>bs. res_bind (poke dest d bs) (\<lambda>dest'.
             smallcopy_words (count - 8) dest' (d + 8) src (s + 8)))
      else Inr (count, dest, d, s))"
  by pat_completeness auto
termination by (relation "measure (\<lambda>(count, _). count)") auto

declare smallcopy_words.simps [simp del]

definition flz_smallcopy :: "cbuf \<Rightarrow> nat \<Rightarrow> cbuf \<Rightarrow> nat \<Rightarrow> nat \<Rightarrow> cbuf res" where
  "flz_smallcopy dest d src s count =
     res_bind (if 8 \<le> count then smallcopy_words count dest d src s else Inr (count, dest, d, s))
       (\<lambda>(count', dest', d', s'). fastlz_memcpy dest' d' src s' count')"

function flz_finalize :: "nat \<Rightarrow> cbuf \<Rightarrow> nat \<Rightarrow> cbuf \<Rightarrow> nat \<Rightarrow> (nat \<times> cbuf) res" where
  "flz_finalize runs src s dest d =
     (if MAX_COPY \<le> runs
      then res_bind (poke dest d [of_nat (MAX_COPY - 1)]) (\<lambda>dest1.
           res_bind (flz_smallcopy dest1 (d + 1) src s MAX_COPY) (\<lambda>dest2.
             flz_finalize (runs - MAX_COPY) src (s + MAX_COPY) dest2 (d + 1 + MAX_COPY)))
      else if 0 < runs
      then res_bind (poke dest d [of_nat (runs - 1)]) (\<lambda>dest1.
           res_bind (flz_smallcopy dest1 (d + 1) src s runs) (\<lambda>dest2. Inr (d + 1 + runs, dest2)))
      else Inr (d, dest))"
  by pat_completeness auto
termination by (relation "measure (\<lambda>(runs, _). runs)") (auto simp: MAX_COPY_def)

declare flz_finalize.simps [simp del]

text \<open>The loop of \<open>flz1_match\<close> for long matches, then the last token; \<open>dist\<close> is already decremented.\<close>

function flz1_match_long :: "nat \<Rightarrow> nat \<Rightarrow> cbuf \<Rightarrow> nat \<Rightarrow> (nat \<times> nat \<times> cbuf) res" where
  "flz1_match_long len dist out op =
     (if MAX_LEN - 2 < len
      then res_bind (poke out op [of_nat (push_bit 5 7 + drop_bit 8 dist)]) (\<lambda>out1.
           res_bind (poke out1 (op + 1) [of_nat (MAX_LEN - 2 - 7 - 2)]) (\<lambda>out2.
           res_bind (poke out2 (op + 2) [of_nat (dist AND 255)]) (\<lambda>out3.
             flz1_match_long (len - (MAX_LEN - 2)) dist out3 (op + 3))))
      else Inr (len, op, out))"
  by pat_completeness auto
termination by (relation "measure (\<lambda>(len, _). len)") (auto simp: MAX_LEN_def)

declare flz1_match_long.simps [simp del]

definition flz1_match :: "nat \<Rightarrow> nat \<Rightarrow> cbuf \<Rightarrow> nat \<Rightarrow> (nat \<times> cbuf) res" where
  "flz1_match len0 distance out0 op0 =
     (let dist = distance - 1
      in res_bind (flz1_match_long len0 dist out0 op0) (\<lambda>(len, op, out).
           if len < 7
           then res_bind (poke out op [of_nat (push_bit 5 len + drop_bit 8 dist)]) (\<lambda>out1.
                res_bind (poke out1 (op + 1) [of_nat (dist AND 255)]) (\<lambda>out2. Inr (op + 2, out2)))
           else res_bind (poke out op [of_nat (push_bit 5 7 + drop_bit 8 dist)]) (\<lambda>out1.
                res_bind (poke out1 (op + 1) [of_nat (len - 7)]) (\<lambda>out2.
                res_bind (poke out2 (op + 2) [of_nat (dist AND 255)]) (\<lambda>out3. Inr (op + 3, out3))))))"

section \<open>Compression, level 1\<close>

text \<open>
  The \<open>do ... while\<close> search for a match, shared by both levels up to the largest distance:
  \<open>ip_limit\<close> is \<open>length - 13\<close>, which may lie before the input, so \<open>ip >= ip_limit\<close> is
  \<open>n \<le> ip + 13\<close>. The result holds \<open>ip\<close>, \<open>ref\<close>, \<open>distance\<close> and the table.
\<close>

type_synonym htab = "nat \<Rightarrow> nat"

function lz_find :: "nat \<Rightarrow> cbuf \<Rightarrow> nat \<Rightarrow> nat \<Rightarrow> htab \<Rightarrow> (nat \<times> nat \<times> nat \<times> htab) res" where
  "lz_find maxd b n ip htab =
     res_bind (flz_readu32 b ip) (\<lambda>w.
       let seq = w AND 0xffffff;
           h = unat (flz_hash seq);
           ref = htab h;
           htab' = htab(h := ip);
           distance = ip - ref
       in res_bind (if distance < maxd then res_bind (flz_readu32 b ref) (\<lambda>v. Inr (v AND 0xffffff))
                    else Inr 0x1000000) (\<lambda>cmp.
            if n \<le> ip + 13 then Inr (ip, ref, distance, htab')
            else if seq \<noteq> cmp then lz_find maxd b n (ip + 1) htab'
            else Inr (ip + 1, ref, distance, htab')))"
  by pat_completeness auto
termination by (relation "measure (\<lambda>(maxd, b, n, ip, htab). n - ip)") auto

declare lz_find.simps [simp del]

text \<open>One round of the search: it stops at the limit, goes on, or has found three equal bytes.\<close>

lemma lz_find_cases:
  assumes "lz_find maxd b n ip htab = Inr r"
  obtains (limit) h ref dist where "n \<le> ip + 13" "r = (ip, ref, dist, htab(h := ip))"
  | (more) h where "ip + 13 < n" "lz_find maxd b n (ip + 1) (htab(h := ip)) = Inr r"
  | (found) h x y where "ip + 13 < n" "r = (ip + 1, htab h, ip - htab h, htab(h := ip))"
      "flz_readu32 b ip = Inr x" "flz_readu32 b (htab h) = Inr y" "x AND 0xffffff = y AND 0xffffff"
      "ip - htab h < maxd"
proof -
  have ne: "(x :: u32) AND 0xffffff \<noteq> 0x1000000" for x
  proof
    assume e: "x AND 0xffffff = 0x1000000"
    have "(0x1000000 :: u32) = (x AND 0xffffff) AND 0x1000000" by (simp add: e)
    then show False by (simp add: and.assoc)
  qed
  show thesis
    using assms that ne
    by (subst (asm) lz_find.simps) (fastforce simp: res_bind_eq_Inr Let_def not_le split: if_splits)
qed

lemma lz_find_ge: "lz_find maxd b n ip htab = Inr (ip', ref, dist, htab') \<Longrightarrow> ip \<le> ip'"
proof (induction "n - ip" arbitrary: ip htab rule: less_induct)
  case less
  from less.prems show ?case
  proof (cases rule: lz_find_cases)
    case (more h)
    then have "n - (ip + 1) < n - ip" by simp
    then show ?thesis using less.hyps [OF _ more(2)] by simp
  qed auto
qed

function lz1_loop :: "cbuf \<Rightarrow> nat \<Rightarrow> nat \<Rightarrow> nat \<Rightarrow> htab \<Rightarrow> nat \<Rightarrow> cbuf \<Rightarrow> (nat \<times> nat \<times> cbuf) res" where
  "lz1_loop b n ip0 anchor htab0 op0 out0 =
     (if ip0 + 13 < n
      then res_bind (lz_find MAX_L1_DISTANCE b n ip0 htab0) (\<lambda>(ip1, ref, distance, htab1).
        if n \<le> ip1 + 13 then Inr (anchor, op0, out0)
        else let ip2 = ip1 - 1
             in res_bind (if anchor < ip2 then flz_literals (ip2 - anchor) b anchor out0 op0
                          else Inr (op0, out0)) (\<lambda>(op1, out1).
                res_bind (flz_cmp b (ref + 3) (ip2 + 3) (n - 4)) (\<lambda>len.
                res_bind (flz1_match len distance out1 op1) (\<lambda>(op2, out2).
                res_bind (flz_readu32 b (ip2 + len)) (\<lambda>seq.
                  let htab2 = htab1(unat (flz_hash (seq AND 0xffffff)) := ip2 + len);
                      htab3 = htab2(unat (flz_hash (drop_bit 8 seq)) := ip2 + len + 1)
                  in lz1_loop b n (ip2 + len + 2) (ip2 + len + 2) htab3 op2 out2)))))
      else Inr (anchor, op0, out0))"
  by pat_completeness auto
termination
  by (relation "measure (\<lambda>(b, n, ip, _). n - ip)") (auto dest!: lz_find_ge)

declare lz1_loop.simps [simp del]

definition fastlz1_compress :: "cbuf \<Rightarrow> nat \<Rightarrow> cbuf \<Rightarrow> (nat \<times> cbuf) res" where
  "fastlz1_compress input n output =
     res_bind (lz1_loop input n 2 0 (\<lambda>_. 0) 0 output) (\<lambda>(anchor, op, out).
       flz_finalize (n - anchor) input anchor out op)"

section \<open>Decompression, level 1\<close>

text \<open>
  One round of the loop; \<open>None\<close> is a failed bound check, which makes the caller return 0.
  \<open>ref\<close> may point before the output until it is checked.
\<close>

definition lz1_step :: "cbuf \<Rightarrow> nat \<Rightarrow> nat \<Rightarrow> nat \<Rightarrow> nat \<Rightarrow> nat \<Rightarrow> cbuf \<Rightarrow>
    (nat \<times> nat \<times> cbuf) option res" where
  "lz1_step b n maxout ctrl ip op out =
     (if 32 \<le> ctrl
      then let len = drop_bit 5 ctrl - 1;
               ofs = push_bit 8 (ctrl AND 31);
               ref = int op - int ofs - 1
           in if len = 7 - 1 \<and> n < ip + 2 then Inr None
              else res_bind (if len = 7 - 1 then res_bind (peek1 b ip) (\<lambda>c. Inr (len + unat c, ip + 1))
                             else Inr (len, ip)) (\<lambda>(len, ip).
                   res_bind (peek1 b ip) (\<lambda>c.
                     let ref = ref - int (unat c); ip = ip + 1; len = len + 3
                     in if maxout < op + len then Inr None
                        else if ref < 0 then Inr None
                        else res_bind (fastlz_memmove out op (nat ref) len) (\<lambda>out'.
                               Inr (Some (ip, op + len, out')))))
      else let ctrl = ctrl + 1
           in if maxout < op + ctrl then Inr None
              else if n < ip + ctrl then Inr None
              else res_bind (fastlz_memcpy out op b ip ctrl) (\<lambda>out'.
                     Inr (Some (ip + ctrl, op + ctrl, out'))))"

lemma lz1_step_ge: "lz1_step b n maxout ctrl ip op out = Inr (Some (ip', op', out')) \<Longrightarrow> ip \<le> ip'"
  by (auto simp: lz1_step_def Let_def res_bind_eq_Inr split: if_splits)

function lz1_rounds :: "cbuf \<Rightarrow> nat \<Rightarrow> nat \<Rightarrow> nat \<Rightarrow> nat \<Rightarrow> nat \<Rightarrow> cbuf \<Rightarrow> (nat \<times> cbuf) res" where
  "lz1_rounds b n maxout ctrl ip op out =
     res_bind (lz1_step b n maxout ctrl ip op out) (\<lambda>r. case r of
        None \<Rightarrow> Inr (0, out)
      | Some (ip', op', out') \<Rightarrow>
          if n < ip' + 2 then Inr (op', out')
          else res_bind (peek1 b ip') (\<lambda>c. lz1_rounds b n maxout (unat c) (ip' + 1) op' out'))"
  by pat_completeness auto
termination
  by (relation "measure (\<lambda>(b, n, maxout, ctrl, ip, op, out). n - ip)") (auto dest!: lz1_step_ge)

declare lz1_rounds.simps [simp del]

definition fastlz1_decompress :: "cbuf \<Rightarrow> nat \<Rightarrow> cbuf \<Rightarrow> nat \<Rightarrow> (nat \<times> cbuf) res" where
  "fastlz1_decompress input n output maxout =
     res_bind (peek1 input 0) (\<lambda>c. lz1_rounds input n maxout (unat c AND 31) 1 0 output)"

section \<open>Level 2\<close>

function flz2_match_long :: "nat \<Rightarrow> cbuf \<Rightarrow> nat \<Rightarrow> (nat \<times> nat \<times> cbuf) res" where
  "flz2_match_long len out op =
     (if 255 \<le> len
      then res_bind (poke out op [255]) (\<lambda>out1. flz2_match_long (len - 255) out1 (op + 1))
      else Inr (len, op, out))"
  by pat_completeness auto
termination by (relation "measure (\<lambda>(len, _). len)") auto

declare flz2_match_long.simps [simp del]

definition flz2_match :: "nat \<Rightarrow> nat \<Rightarrow> cbuf \<Rightarrow> nat \<Rightarrow> (nat \<times> cbuf) res" where
  "flz2_match len distance out op =
     (let dist = distance - 1
      in if dist < MAX_L2_DISTANCE
         then (if len < 7
               then res_bind (poke out op [of_nat (push_bit 5 len + drop_bit 8 dist)]) (\<lambda>out1.
                    res_bind (poke out1 (op + 1) [of_nat (dist AND 255)]) (\<lambda>out2. Inr (op + 2, out2)))
               else res_bind (poke out op [of_nat (push_bit 5 7 + drop_bit 8 dist)]) (\<lambda>out1.
                    res_bind (flz2_match_long (len - 7) out1 (op + 1)) (\<lambda>(len', op', out2).
                    res_bind (poke out2 op' [of_nat len']) (\<lambda>out3.
                    res_bind (poke out3 (op' + 1) [of_nat (dist AND 255)]) (\<lambda>out4. Inr (op' + 2, out4))))))
         else let far = dist - MAX_L2_DISTANCE
              in if len < 7
                 then res_bind (poke out op [of_nat (push_bit 5 len + 31)]) (\<lambda>out1.
                      res_bind (poke out1 (op + 1) [255]) (\<lambda>out2.
                      res_bind (poke out2 (op + 2) [of_nat (drop_bit 8 far)]) (\<lambda>out3.
                      res_bind (poke out3 (op + 3) [of_nat (far AND 255)]) (\<lambda>out4. Inr (op + 4, out4)))))
                 else res_bind (poke out op [of_nat (push_bit 5 7 + 31)]) (\<lambda>out1.
                      res_bind (flz2_match_long (len - 7) out1 (op + 1)) (\<lambda>(len', op', out2).
                      res_bind (poke out2 op' [of_nat len']) (\<lambda>out3.
                      res_bind (poke out3 (op' + 1) [255]) (\<lambda>out4.
                      res_bind (poke out4 (op' + 2) [of_nat (drop_bit 8 far)]) (\<lambda>out5.
                      res_bind (poke out5 (op' + 3) [of_nat (far AND 255)]) (\<lambda>out6.
                        Inr (op' + 4, out6))))))))"

text \<open>A far match needs two more equal bytes; otherwise the loop goes on one byte later.\<close>

definition far_mismatch :: "cbuf \<Rightarrow> nat \<Rightarrow> nat \<Rightarrow> nat \<Rightarrow> bool res" where
  "far_mismatch b distance ref ip =
     (if MAX_L2_DISTANCE \<le> distance
      then res_bind (peek1 b (ref + 3)) (\<lambda>r3. res_bind (peek1 b (ip + 3)) (\<lambda>i3.
             if r3 \<noteq> i3 then Inr True
             else res_bind (peek1 b (ref + 4)) (\<lambda>r4. res_bind (peek1 b (ip + 4)) (\<lambda>i4.
                    Inr (r4 \<noteq> i4)))))
      else Inr False)"

function lz2_loop :: "cbuf \<Rightarrow> nat \<Rightarrow> nat \<Rightarrow> nat \<Rightarrow> htab \<Rightarrow> nat \<Rightarrow> cbuf \<Rightarrow> (nat \<times> nat \<times> cbuf) res" where
  "lz2_loop b n ip0 anchor htab0 op0 out0 =
     (if ip0 + 13 < n
      then res_bind (lz_find MAX_FARDISTANCE b n ip0 htab0) (\<lambda>(ip1, ref, distance, htab1).
        if n \<le> ip1 + 13 then Inr (anchor, op0, out0)
        else let ip2 = ip1 - 1
             in res_bind (far_mismatch b distance ref ip2) (\<lambda>mismatch.
                if mismatch then lz2_loop b n (ip2 + 1) anchor htab1 op0 out0
                else
                res_bind (if anchor < ip2 then flz_literals (ip2 - anchor) b anchor out0 op0
                          else Inr (op0, out0)) (\<lambda>(op1, out1).
                res_bind (flz_cmp b (ref + 3) (ip2 + 3) (n - 4)) (\<lambda>len.
                res_bind (flz2_match len distance out1 op1) (\<lambda>(op2, out2).
                res_bind (flz_readu32 b (ip2 + len)) (\<lambda>seq.
                  let htab2 = htab1(unat (flz_hash (seq AND 0xffffff)) := ip2 + len);
                      htab3 = htab2(unat (flz_hash (drop_bit 8 seq)) := ip2 + len + 1)
                  in lz2_loop b n (ip2 + len + 2) (ip2 + len + 2) htab3 op2 out2))))))
      else Inr (anchor, op0, out0))"
  by pat_completeness auto

lemma lz_find_gt:
  assumes "lz_find maxd b n ip htab = Inr (ip', ref, dist, htab')" and "\<not> n \<le> ip' + 13"
  shows "ip < ip'"
  using assms(1)
proof (cases rule: lz_find_cases)
  case (more h)
  then show ?thesis using lz_find_ge [OF more(2)] by simp
qed (use assms(2) in auto)

termination lz2_loop
  by (relation "measure (\<lambda>(b, n, ip, _). n - ip)") (auto dest!: lz_find_gt)

declare lz2_loop.simps [simp del]

definition fastlz2_compress :: "cbuf \<Rightarrow> nat \<Rightarrow> cbuf \<Rightarrow> (nat \<times> cbuf) res" where
  "fastlz2_compress input n output =
     res_bind (lz2_loop input n 2 0 (\<lambda>_. 0) 0 output) (\<lambda>(anchor, op, out).
     res_bind (flz_finalize (n - anchor) input anchor out op) (\<lambda>(op', out').
     res_bind (peek1 out' 0) (\<lambda>x. res_bind (poke out' 0 [x OR push_bit 5 1]) (\<lambda>out''.
       Inr (op', out'')))))"

text \<open>The length bytes of a long match: each 255 announces another one.\<close>

function lz2_length :: "cbuf \<Rightarrow> nat \<Rightarrow> nat \<Rightarrow> nat \<Rightarrow> (nat \<times> nat) option res" where
  "lz2_length b n len ip =
     (if n < ip + 2 then Inr None
      else res_bind (peek1 b ip) (\<lambda>code.
             if code = 255 then lz2_length b n (len + unat code) (ip + 1)
             else Inr (Some (len + unat code, ip + 1))))"
  by pat_completeness auto
termination by (relation "measure (\<lambda>(b, n, len, ip). n - ip)") auto

declare lz2_length.simps [simp del]

lemma lz2_length_ge: "lz2_length b n len ip = Inr (Some (len', ip')) \<Longrightarrow> ip \<le> ip'"
proof (induction "n - ip" arbitrary: len ip rule: less_induct)
  case less
  show ?case
  proof (cases "n < ip + 2")
    case True
    with less.prems show ?thesis by (subst (asm) lz2_length.simps) simp
  next
    case False
    then have "n - Suc ip < n - ip" by simp
    with False less.prems less.hyps [OF this] show ?thesis
      by (subst (asm) lz2_length.simps) (fastforce simp: res_bind_eq_Inr split: if_splits)
  qed
qed

definition lz2_step :: "cbuf \<Rightarrow> nat \<Rightarrow> nat \<Rightarrow> nat \<Rightarrow> nat \<Rightarrow> nat \<Rightarrow> cbuf \<Rightarrow>
    (nat \<times> nat \<times> cbuf) option res" where
  "lz2_step b n maxout ctrl ip op out =
     (if 32 \<le> ctrl
      then let len = drop_bit 5 ctrl - 1;
               ofs = push_bit 8 (ctrl AND 31);
               ref = int op - int ofs - 1
           in res_bind (if len = 7 - 1 then lz2_length b n len ip else Inr (Some (len, ip)))
                (\<lambda>r. case r of None \<Rightarrow> Inr None | Some (len, ip) \<Rightarrow>
                   res_bind (peek1 b ip) (\<lambda>code.
                     let ref = ref - int (unat code); ip = ip + 1; len = len + 3;
                         far = (code = 255 \<and> ofs = push_bit 8 31)
                     in if far \<and> \<not> ip + 2 < n then Inr None
                        else res_bind
                               (if far
                                then res_bind (peek1 b ip) (\<lambda>hi. res_bind (peek1 b (ip + 1)) (\<lambda>lo.
                                       Inr (ip + 2, int op - int (push_bit 8 (unat hi) + unat lo)
                                                      - int MAX_L2_DISTANCE - 1)))
                                else Inr (ip, ref))
                               (\<lambda>(ip, ref).
                                  if maxout < op + len then Inr None
                                  else if ref < 0 then Inr None
                                  else res_bind (fastlz_memmove out op (nat ref) len) (\<lambda>out'.
                                         Inr (Some (ip, op + len, out'))))))
      else let ctrl = ctrl + 1
           in if maxout < op + ctrl then Inr None
              else if n < ip + ctrl then Inr None
              else res_bind (fastlz_memcpy out op b ip ctrl) (\<lambda>out'.
                     Inr (Some (ip + ctrl, op + ctrl, out'))))"

lemma lz2_step_ge: "lz2_step b n maxout ctrl ip op out = Inr (Some (ip', op', out')) \<Longrightarrow> ip \<le> ip'"
  by (auto simp: lz2_step_def Let_def res_bind_eq_Inr split: if_splits option.splits
      dest!: lz2_length_ge)

function lz2_rounds :: "cbuf \<Rightarrow> nat \<Rightarrow> nat \<Rightarrow> nat \<Rightarrow> nat \<Rightarrow> nat \<Rightarrow> cbuf \<Rightarrow> (nat \<times> cbuf) res" where
  "lz2_rounds b n maxout ctrl ip op out =
     res_bind (lz2_step b n maxout ctrl ip op out) (\<lambda>r. case r of
        None \<Rightarrow> Inr (0, out)
      | Some (ip', op', out') \<Rightarrow>
          if n \<le> ip' then Inr (op', out')
          else res_bind (peek1 b ip') (\<lambda>c. lz2_rounds b n maxout (unat c) (ip' + 1) op' out'))"
  by pat_completeness auto
termination
  by (relation "measure (\<lambda>(b, n, maxout, ctrl, ip, op, out). n - ip)") (auto dest!: lz2_step_ge)

declare lz2_rounds.simps [simp del]

definition fastlz2_decompress :: "cbuf \<Rightarrow> nat \<Rightarrow> cbuf \<Rightarrow> nat \<Rightarrow> (nat \<times> cbuf) res" where
  "fastlz2_decompress input n output maxout =
     res_bind (peek1 input 0) (\<lambda>c. lz2_rounds input n maxout (unat c AND 31) 1 0 output)"

section \<open>Choosing the level\<close>

definition fastlz_compress :: "cbuf \<Rightarrow> nat \<Rightarrow> cbuf \<Rightarrow> (nat \<times> cbuf) res" where
  "fastlz_compress input n output =
     (if n < 65536 then fastlz1_compress input n output else fastlz2_compress input n output)"

definition fastlz_decompress :: "cbuf \<Rightarrow> nat \<Rightarrow> cbuf \<Rightarrow> nat \<Rightarrow> (nat \<times> cbuf) res" where
  "fastlz_decompress input n output maxout =
     res_bind (peek1 input 0) (\<lambda>c.
       let level = drop_bit 5 (unat c) + 1
       in if level = 1 then fastlz1_decompress input n output maxout
          else if level = 2 then fastlz2_decompress input n output maxout
          else Inr (0, output))"

definition fastlz_compress_level :: "nat \<Rightarrow> cbuf \<Rightarrow> nat \<Rightarrow> cbuf \<Rightarrow> (nat \<times> cbuf) res" where
  "fastlz_compress_level level input n output =
     (if level = 1 then fastlz1_compress input n output
      else if level = 2 then fastlz2_compress input n output
      else Inr (0, output))"

end
