(* ===== verification/LZTokens.thy ===== *)
theory LZTokens
  imports FastLZ
begin

unbundle bit_operations_syntax

text \<open>
  What the compressed streams of \<open>sim/fastlz.cc\<close> mean: a list of tokens, each a run of
  literal bytes or a copy of bytes already produced. The emitters of the compressor are
  shown to write the encodings of such tokens and nothing else.
\<close>

section \<open>Tokens\<close>

datatype token = Literals bytes | Match nat nat

fun copy_back :: "nat \<Rightarrow> nat \<Rightarrow> bytes \<Rightarrow> bytes" where
  "copy_back d 0 out = out"
| "copy_back d (Suc n) out = copy_back d n (out @ [out ! (length out - d)])"

fun lz_token :: "token \<Rightarrow> bytes \<Rightarrow> bytes" where
  "lz_token (Literals bs) out = out @ bs"
| "lz_token (Match d l) out = copy_back d l out"

definition lz_run :: "token list \<Rightarrow> bytes \<Rightarrow> bytes" where
  "lz_run toks out = fold lz_token toks out"

fun tok_len :: "token \<Rightarrow> nat" where
  "tok_len (Literals bs) = length bs"
| "tok_len (Match d l) = l"

text \<open>
  A token that may follow \<open>m\<close> bytes of output: \<open>lim\<close> says which distances and lengths the
  format can express.
\<close>

fun tok_ok :: "(nat \<Rightarrow> nat \<Rightarrow> bool) \<Rightarrow> nat \<Rightarrow> token \<Rightarrow> bool" where
  "tok_ok lim m (Literals bs) \<longleftrightarrow> 0 < length bs \<and> length bs \<le> 32"
| "tok_ok lim m (Match d l) \<longleftrightarrow> 0 < d \<and> d \<le> m \<and> 3 \<le> l \<and> lim d l"

fun toks_ok :: "(nat \<Rightarrow> nat \<Rightarrow> bool) \<Rightarrow> nat \<Rightarrow> token list \<Rightarrow> bool" where
  "toks_ok lim m [] \<longleftrightarrow> True"
| "toks_ok lim m (t # ts) \<longleftrightarrow> tok_ok lim m t \<and> toks_ok lim (m + tok_len t) ts"

lemma length_copy_back [simp]: "length (copy_back d n out) = length out + n"
  by (induction n arbitrary: out) simp_all

lemma copy_back_add: "copy_back d n (copy_back d m out) = copy_back d (m + n) out"
  by (induction m arbitrary: out) simp_all

lemma length_lz_token [simp]: "length (lz_token t out) = length out + tok_len t"
  by (cases t) simp_all

lemma lz_run_simps [simp]:
  "lz_run [] out = out"
  "lz_run (t # ts) out = lz_run ts (lz_token t out)"
  "lz_run (ts @ us) out = lz_run us (lz_run ts out)"
  by (simp_all add: lz_run_def)

lemma length_lz_run: "length (lz_run ts out) = length out + sum_list (map tok_len ts)"
  by (induction ts arbitrary: out) simp_all

lemma toks_ok_append:
  "toks_ok lim m (ts @ us) \<longleftrightarrow> toks_ok lim m ts \<and> toks_ok lim (m + sum_list (map tok_len ts)) us"
  by (induction ts arbitrary: m) (auto simp: add.assoc)

text \<open>Copying back reproduces a stretch of input that repeats an earlier one.\<close>

lemma copy_back_repeat:
  assumes "0 < d" "d \<le> m" and "\<forall>i < l. bm b (m + i) = bm b (m - d + i)"
  shows "copy_back d l (slice b 0 m) = slice b 0 (m + l)"
  using assms
proof (induction l arbitrary: m)
  case (Suc l)
  have "slice b 0 m ! (m - d) = bm b m"
    using Suc.prems(1,2) Suc.prems(3) [rule_format, of 0] by (simp add: nth_slice)
  then have "slice b 0 m @ [slice b 0 m ! (m - d)] = slice b 0 (Suc m)"
    using slice_add [of b 0 m 1] by (simp add: slice_def)
  moreover have "\<forall>i < l. bm b (Suc m + i) = bm b (Suc m - d + i)"
  proof (intro allI impI)
    fix i assume "i < l"
    then show "bm b (Suc m + i) = bm b (Suc m - d + i)"
      using Suc.prems(2) Suc.prems(3) [rule_format, of "Suc i"] by (simp add: Suc_diff_le)
  qed
  ultimately show ?case
    using Suc.IH [of "Suc m"] Suc.prems(1,2) by simp
qed simp

lemma copy_back_far: "n \<le> d \<Longrightarrow> d \<le> length out \<Longrightarrow>
    copy_back d n out = out @ take n (drop (length out - d) out)"
proof (induction n arbitrary: out)
  case (Suc n)
  let ?k = "length out - d"
  have k: "?k < length out" using Suc.prems by simp
  have "copy_back d (Suc n) out = (out @ [out ! ?k]) @ take n (drop (Suc ?k) (out @ [out ! ?k]))"
    using Suc.IH [of "out @ [out ! ?k]"] Suc.prems by (simp add: Suc_diff_le)
  also have "take n (drop (Suc ?k) (out @ [out ! ?k])) = take n (drop (Suc ?k) out)"
    using Suc.prems by simp
  also have "(out @ [out ! ?k]) @ take n (drop (Suc ?k) out) = out @ take (Suc n) (drop ?k out)"
    using Cons_nth_drop_Suc [OF k, symmetric] by (metis append.assoc append_Cons append_Nil take_Suc_Cons)
  finally show ?case .
qed simp

section \<open>Encodings, level 1\<close>

fun enc1 :: "token \<Rightarrow> bytes" where
  "enc1 (Literals bs) = of_nat (length bs - 1) # bs"
| "enc1 (Match d l) =
     (if l - 2 < 7 then [of_nat (push_bit 5 (l - 2) + drop_bit 8 (d - 1)), of_nat ((d - 1) AND 255)]
      else [of_nat (push_bit 5 7 + drop_bit 8 (d - 1)), of_nat (l - 2 - 7), of_nat ((d - 1) AND 255)])"

definition lim1 :: "nat \<Rightarrow> nat \<Rightarrow> bool" where
  "lim1 d l \<longleftrightarrow> d \<le> 8192 \<and> l \<le> 264"

text \<open>Literal bytes in runs of at most 32, a long match in pieces of 262 bytes.\<close>

function lit_tokens :: "bytes \<Rightarrow> token list" where
  "lit_tokens bs =
     (if 32 \<le> length bs then Literals (take 32 bs) # lit_tokens (drop 32 bs)
      else if bs = [] then [] else [Literals bs])"
  by pat_completeness auto
termination by (relation "measure length") auto

declare lit_tokens.simps [simp del]

function match_tokens :: "nat \<Rightarrow> nat \<Rightarrow> token list" where
  "match_tokens d len = (if 262 < len then Match d 262 # match_tokens d (len - 262) else [Match d (len + 2)])"
  by pat_completeness auto
termination by (relation "measure snd") auto

declare match_tokens.simps [simp del]

lemma lz_run_lit_tokens: "lz_run (lit_tokens bs) out = out @ bs"
proof (induction bs arbitrary: out rule: lit_tokens.induct)
  case (1 bs)
  then show ?case by (subst lit_tokens.simps) simp
qed

lemma lit_tokens_ok: "toks_ok lim m (lit_tokens bs)"
proof (induction bs arbitrary: m rule: lit_tokens.induct)
  case (1 bs)
  then show ?case by (subst lit_tokens.simps) auto
qed

lemma sum_lit_tokens: "sum_list (map tok_len (lit_tokens bs)) = length bs"
  using length_lz_run [of "lit_tokens bs" "[]"] by (simp add: lz_run_lit_tokens)

lemma lit_tokens_hd: "bs \<noteq> [] \<Longrightarrow> \<exists>l ts. lit_tokens bs = Literals l # ts"
  by (subst lit_tokens.simps) auto

lemma short_run_div: "0 < n \<Longrightarrow> n < 32 \<Longrightarrow> (n + 31) div 32 = (1 :: nat)"
  by (rule div_nat_eqI) simp_all

lemma length_enc_lit:
  assumes "\<And>bs. length (enc (Literals bs)) = Suc (length bs)"
  shows "length (concat (map enc (lit_tokens bs))) = length bs + (length bs + 31) div 32"
proof (induction bs rule: lit_tokens.induct)
  case (1 bs)
  show ?case
  proof (cases "32 \<le> length bs")
    case True
    then obtain k where k: "length bs = 32 + k" by (metis le_Suc_ex)
    with True 1 show ?thesis
      by (subst lit_tokens.simps) (simp add: assms)
  next
    case False
    then show ?thesis
      using short_run_div [of "length bs"] by (subst lit_tokens.simps) (auto simp: assms)
  qed
qed

lemma lz_run_match_tokens:
  assumes "0 < len"
  shows "lz_run (match_tokens d len) out = copy_back d (len + 2) out"
  using assms
proof (induction d len arbitrary: out rule: match_tokens.induct)
  case (1 d len)
  show ?case
  proof (cases "262 < len")
    case True
    with 1 have "lz_run (match_tokens d len) out = copy_back d (len - 262 + 2) (copy_back d 262 out)"
      by (subst match_tokens.simps) simp
    also have "\<dots> = copy_back d (len + 2) out"
      using True by (simp only: copy_back_add) simp
    finally show ?thesis .
  qed (subst match_tokens.simps, simp)
qed

lemma match_tokens_ok:
  assumes "0 < len" "0 < d" "d \<le> m" "d \<le> 8192"
  shows "toks_ok lim1 m (match_tokens d len)"
  using assms
proof (induction d len arbitrary: m rule: match_tokens.induct)
  case (1 d len)
  have "lim1 d 262" and "len \<le> 262 \<Longrightarrow> lim1 d (len + 2)"
    using 1 by (simp_all add: lim1_def)
  with 1 show ?case by (subst match_tokens.simps) auto
qed

lemma sum_match_tokens: "0 < len \<Longrightarrow> sum_list (map tok_len (match_tokens d len)) = len + 2"
  using length_lz_run [of "match_tokens d len" "[]"] by (simp add: lz_run_match_tokens)

lemma length_enc_match:
  "0 < len \<Longrightarrow> length (concat (map enc1 (match_tokens d len))) \<le> len + 1"
proof (induction d len rule: match_tokens.induct)
  case (1 d len)
  then show ?case by (subst match_tokens.simps) auto
qed

section \<open>The emitters\<close>

definition emits :: "(nat \<times> cbuf) res \<Rightarrow> cbuf \<Rightarrow> nat \<Rightarrow> bytes \<Rightarrow> bool" where
  "emits r out op bs \<longleftrightarrow> (\<exists>out'. r = Inr (op + length bs, out') \<and> blen out' = blen out \<and>
     slice out' 0 (op + length bs) = slice out 0 op @ bs)"

lemma poked_poked: "poked (poked b i xs) (i + length xs) ys = poked b i (xs @ ys)"
  by (rule cbuf.equality) (auto simp: poked_def nth_append fun_eq_iff)

lemma poked_Nil [simp]: "poked b i [] = b"
  by (rule cbuf.equality) (auto simp: poked_def fun_eq_iff)

lemma copy_words_eq:
  "s + 8 * n \<le> blen src \<Longrightarrow> d + 8 * n \<le> blen dest \<Longrightarrow>
   copy_words n dest d src s = Inr (poked dest d (slice src s (8 * n)))"
proof (induction n arbitrary: dest d s)
  case 0
  then show ?case by simp
next
  case (Suc n)
  then show ?case
    using poked_poked [of dest d "slice src s 8" "slice src (s + 8) (8 * n)"]
    by (simp add: peek_def poke_def slice_add)
qed

lemma flz_copy64_eq:
  assumes "s + count + 16 \<le> blen src" and "d + count + 16 \<le> blen dest" and "0 < count" "count < 32"
  shows "\<exists>k. count \<le> k \<and> flz_copy64 dest d src s count = Inr (poked dest d (slice src s k))"
proof -
  define k where "k = (if count < 16 then (if 8 \<le> count then 2 else 1) else (4::nat))"
  have "flz_copy64 dest d src s count = copy_words k dest d src s"
    by (simp add: flz_copy64_def k_def)
  also have "\<dots> = Inr (poked dest d (slice src s (8 * k)))"
    using assms by (intro copy_words_eq) (auto simp: k_def)
  finally show ?thesis
    using assms(3,4) by (intro exI [of _ "8 * k"]) (auto simp: k_def)
qed

lemma slice_poked_run:
  assumes "count \<le> k"
  shows "slice (poked (poked dest d [x]) (d + 1) (slice src s k)) 0 (d + (1 + count)) =
    slice dest 0 d @ x # slice src s count"
  using assms poked_poked [of dest d "[x]" "slice src s k"] slice_add [of _ 0 d "1 + count"]
  by (simp add: slice_poked_below slice_poked_at take_slice)

lemma emits_chain:
  assumes "emits (Inr (op1, out1)) out op xs" and "emits r out1 op1 ys"
  shows "emits r out op (xs @ ys)"
  using assms by (auto simp: emits_def add.assoc)

lemma emits_Nil [simp]: "emits (Inr (op, out)) out op []"
  by (simp add: emits_def)

lemma emits_bind:
  assumes "emits r out op xs"
    and "\<And>out'. blen out' = blen out \<Longrightarrow> slice out' 0 (op + length xs) = slice out 0 op @ xs \<Longrightarrow>
           emits (f (op + length xs, out')) out' (op + length xs) ys"
  shows "emits (res_bind r f) out op (xs @ ys)"
  using assms by (fastforce simp: emits_def add.assoc)

lemma emits_poke:
  assumes "op + length bs \<le> blen out"
  shows "emits (res_bind (poke out op bs) (\<lambda>out'. Inr (op + length bs, out'))) out op bs"
  using assms by (simp add: emits_def poke_def slice_poked)

lemma flz_literals_emits:
  assumes "s + runs + 16 \<le> blen src" and "d + runs + (runs + 31) div 32 + 16 \<le> blen dest"
  shows "emits (flz_literals runs src s dest d) dest d (concat (map enc1 (lit_tokens (slice src s runs))))"
  using assms
proof (induction runs arbitrary: s d dest rule: less_induct)
  case (less runs)
  show ?case
  proof (cases "32 \<le> runs")
    case True
    then obtain k where k: "runs = 32 + k" by (metis le_Suc_ex)
    have tok: "lit_tokens (slice src s runs) = Literals (slice src s 32) # lit_tokens (slice src (s + 32) k)"
      by (subst lit_tokens.simps) (simp add: k take_slice drop_slice)
    let ?d1 = "poked (poked dest d [31]) (d + 1) (slice src s 32)"
    have first: "emits (Inr (d + 33, ?d1)) dest d (31 # slice src s 32)"
      using slice_poked_run [of 32 32 dest d 31 src s] by (simp add: emits_def)
    have nxt: "emits (flz_literals k src (s + 32) ?d1 (d + 33)) ?d1 (d + 33)
        (concat (map enc1 (lit_tokens (slice src (s + 32) k))))"
      using less.prems k by (intro less.IH) auto
    have "flz_literals runs src s dest d = flz_literals k src (s + 32) ?d1 (d + 33)"
      using less.prems
      by (subst flz_literals.simps)
        (simp add: k MAX_COPY_def flz_copy256_def poke_def copy_words_eq add.commute [of 33])
    then show ?thesis
      using emits_chain [OF first nxt] by (simp add: tok)
  next
    case False
    show ?thesis
    proof (cases "runs = 0")
      case True
      then show ?thesis by (subst flz_literals.simps, subst lit_tokens.simps) (simp add: MAX_COPY_def)
    next
      case nz: False
      have div: "(runs + 31) div 32 = 1" using False nz by (intro short_run_div) auto
      obtain k where "runs \<le> k"
        "flz_copy64 (poked dest d [of_nat (runs - 1)]) (d + 1) src s runs =
           Inr (poked (poked dest d [of_nat (runs - 1)]) (d + 1) (slice src s k))"
        using flz_copy64_eq [of s runs src "d + 1" "poked dest d [of_nat (runs - 1)]"]
          less.prems False nz div by auto
      moreover have "lit_tokens (slice src s runs) = [Literals (slice src s runs)]"
        using False nz by (subst lit_tokens.simps) (auto simp: slice_def)
      ultimately show ?thesis
        using False nz less.prems div slice_poked_run [of runs k dest d "of_nat (runs - 1)" src s]
        by (subst flz_literals.simps) (simp add: emits_def poke_def MAX_COPY_def)
    qed
  qed
qed

lemma smallcopy_words_eq:
  "s + count \<le> blen src \<Longrightarrow> d + count \<le> blen dest \<Longrightarrow> 0 < count \<Longrightarrow>
   \<exists>k. smallcopy_words count dest d src s = Inr (count - k, poked dest d (slice src s k), d + k, s + k) \<and> k \<le> count"
proof (induction count arbitrary: dest d s rule: less_induct)
  case (less count)
  show ?case
  proof (cases "8 < count")
    case True
    let ?d1 = "poked dest d (slice src s 8)"
    obtain k where "smallcopy_words (count - 8) ?d1 (d + 8) src (s + 8) =
        Inr (count - 8 - k, poked ?d1 (d + 8) (slice src (s + 8) k), d + 8 + k, s + 8 + k)"
      "k \<le> count - 8"
      using less.IH [of "count - 8" "s + 8" "d + 8" ?d1] less.prems True by auto
    with True less.prems show ?thesis
      using poked_poked [of dest d "slice src s 8" "slice src (s + 8) k"]
      by (subst smallcopy_words.simps)
        (intro exI [of _ "8 + k"], simp add: peek_def poke_def slice_add add.assoc)
  next
    case False
    then show ?thesis by (subst smallcopy_words.simps) (intro exI [of _ 0], simp)
  qed
qed

lemma flz_smallcopy_eq:
  assumes "s + count \<le> blen src" and "d + count \<le> blen dest"
  shows "flz_smallcopy dest d src s count = Inr (poked dest d (slice src s count))"
proof (cases "8 \<le> count")
  case True
  then obtain k where k: "k \<le> count" "smallcopy_words count dest d src s =
      Inr (count - k, poked dest d (slice src s k), d + k, s + k)"
    using smallcopy_words_eq [OF assms] by auto
  have "slice src s count = slice src s k @ slice src (s + k) (count - k)"
    using slice_add [of src s k "count - k"] k(1) by simp
  with True k assms poked_poked [of dest d "slice src s k" "slice src (s + k) (count - k)"]
  show ?thesis by (simp add: flz_smallcopy_def fastlz_memcpy_def peek_def poke_def)
qed (use assms in \<open>simp add: flz_smallcopy_def fastlz_memcpy_def peek_def poke_def\<close>)

lemma flz_finalize_emits:
  assumes "s + runs \<le> blen src" and "d + runs + (runs + 31) div 32 \<le> blen dest"
  shows "emits (flz_finalize runs src s dest d) dest d (concat (map enc1 (lit_tokens (slice src s runs))))"
  using assms
proof (induction runs arbitrary: s d dest rule: less_induct)
  case (less runs)
  show ?case
  proof (cases "32 \<le> runs")
    case True
    then obtain k where k: "runs = 32 + k" by (metis le_Suc_ex)
    have tok: "lit_tokens (slice src s runs) = Literals (slice src s 32) # lit_tokens (slice src (s + 32) k)"
      by (subst lit_tokens.simps) (simp add: k take_slice drop_slice)
    let ?d1 = "poked (poked dest d [31]) (d + 1) (slice src s 32)"
    have first: "emits (Inr (d + 33, ?d1)) dest d (31 # slice src s 32)"
      using slice_poked_run [of 32 32 dest d 31 src s] by (simp add: emits_def)
    have nxt: "emits (flz_finalize k src (s + 32) ?d1 (d + 33)) ?d1 (d + 33)
        (concat (map enc1 (lit_tokens (slice src (s + 32) k))))"
      using less.prems k by (intro less.IH) auto
    have "flz_finalize runs src s dest d = flz_finalize k src (s + 32) ?d1 (d + 33)"
      using less.prems
      by (subst flz_finalize.simps)
        (simp add: k MAX_COPY_def poke_def flz_smallcopy_eq add.commute [of 33])
    then show ?thesis
      using emits_chain [OF first nxt] by (simp add: tok)
  next
    case False
    show ?thesis
    proof (cases "runs = 0")
      case True
      then show ?thesis by (subst flz_finalize.simps, subst lit_tokens.simps) (simp add: MAX_COPY_def)
    next
      case nz: False
      have div: "(runs + 31) div 32 = 1" using False nz by (intro short_run_div) auto
      have "lit_tokens (slice src s runs) = [Literals (slice src s runs)]"
        using False nz by (subst lit_tokens.simps) (auto simp: slice_def)
      then show ?thesis
        using False nz less.prems div slice_poked_run [of runs runs dest d "of_nat (runs - 1)" src s]
        by (subst flz_finalize.simps) (simp add: emits_def poke_def MAX_COPY_def flz_smallcopy_eq)
    qed
  qed
qed

text \<open>A sequence of single-byte stores.\<close>

lemma emits_pokes:
  "op + 2 \<le> blen out \<Longrightarrow>
     emits (res_bind (poke out op [x]) (\<lambda>out1. res_bind (poke out1 (op + 1) [y]) (\<lambda>out2.
       Inr (op + 2, out2)))) out op [x, y]"
  "op + 3 \<le> blen out \<Longrightarrow>
     emits (res_bind (poke out op [x]) (\<lambda>out1. res_bind (poke out1 (op + 1) [y]) (\<lambda>out2.
       res_bind (poke out2 (op + 2) [z]) (\<lambda>out3. Inr (op + 3, out3))))) out op [x, y, z]"
  using poked_poked [of out op "[x]" "[y]"] poked_poked [of out op "[x, y]" "[z]"]
    slice_poked [of out op "[x, y]"] slice_poked [of out op "[x, y, z]"]
  by (simp_all add: emits_def poke_def numeral_2_eq_2 numeral_3_eq_3)

lemma flz1_match_long_emits:
  assumes "0 < len" and "op + length (concat (map enc1 (match_tokens (Suc dist) len))) \<le> blen out"
  shows "\<exists>len' op' out'. flz1_match_long len dist out op = Inr (len', op', out') \<and> 0 < len' \<and> len' \<le> 262 \<and>
    blen out' = blen out \<and>
    (\<exists>xs. concat (map enc1 (match_tokens (Suc dist) len)) = xs @ enc1 (Match (Suc dist) (len' + 2)) \<and>
       op' = op + length xs \<and> slice out' 0 op' = slice out 0 op @ xs)"
  using assms
proof (induction len arbitrary: op out rule: less_induct)
  case (less len)
  show ?case
  proof (cases "262 < len")
    case True
    let ?t = "[of_nat (push_bit 5 7 + drop_bit 8 dist), 253, of_nat (dist AND 255) :: u8]"
    let ?out = "poked out op ?t"
    have tok: "concat (map enc1 (match_tokens (Suc dist) len)) =
        ?t @ concat (map enc1 (match_tokens (Suc dist) (len - 262)))"
      using True by (subst match_tokens.simps) simp
    then obtain len' op' out' xs where r: "flz1_match_long (len - 262) dist ?out (op + 3) = Inr (len', op', out')"
      "0 < len'" "len' \<le> 262" "blen out' = blen out"
      "concat (map enc1 (match_tokens (Suc dist) (len - 262))) = xs @ enc1 (Match (Suc dist) (len' + 2))"
      "op' = op + 3 + length xs" "slice out' 0 op' = slice ?out 0 (op + 3) @ xs"
      using less.IH [of "len - 262" "op + 3" ?out] less.prems True by auto
    have "flz1_match_long len dist out op = flz1_match_long (len - 262) dist ?out (op + 3)"
      using True less.prems(2) poked_poked [of out op "[of_nat (push_bit 5 7 + drop_bit 8 dist)]" "[253]"]
        poked_poked [of out op "[of_nat (push_bit 5 7 + drop_bit 8 dist), 253]" "[of_nat (dist AND 255)]"]
      by (subst flz1_match_long.simps) (simp add: tok MAX_LEN_def poke_def numeral_2_eq_2)
    then have "flz1_match_long len dist out op = Inr (len', op', out')" using r(1) by simp
    moreover have "slice out' 0 op' = slice out 0 op @ (?t @ xs)"
      using r(7) slice_poked [of out op ?t] by (simp add: numeral_3_eq_3)
    moreover have "concat (map enc1 (match_tokens (Suc dist) len)) = (?t @ xs) @ enc1 (Match (Suc dist) (len' + 2))"
      by (simp only: tok r(5) append_assoc)
    moreover have "op' = op + length (?t @ xs)" using r(6) by simp
    ultimately show ?thesis
      using r(2-4) by blast
  next
    case False
    with less.prems show ?thesis
      by (subst flz1_match_long.simps, subst match_tokens.simps) (auto simp: MAX_LEN_def)
  qed
qed

lemma flz1_match_emits:
  assumes "0 < len" and "0 < d" and "op + length (concat (map enc1 (match_tokens d len))) \<le> blen out"
  shows "emits (flz1_match len d out op) out op (concat (map enc1 (match_tokens d len)))"
proof -
  obtain dist where d: "d = Suc dist" using assms(2) by (cases d) auto
  obtain len' op' out' xs where r: "flz1_match_long len dist out op = Inr (len', op', out')"
      "0 < len'" "len' \<le> 262" "blen out' = blen out"
      "concat (map enc1 (match_tokens d len)) = xs @ enc1 (Match d (len' + 2))"
      "op' = op + length xs" "slice out' 0 op' = slice out 0 op @ xs"
    using flz1_match_long_emits [of len op dist out] assms by (auto simp: d)
  have xs: "emits (Inr (op', out')) out op xs" using r by (simp add: emits_def)
  have "emits (flz1_match len d out op) out' op' (enc1 (Match d (len' + 2)))"
    using assms(3) r emits_pokes [of op' out'] by (auto simp: flz1_match_def d Let_def)
  then show ?thesis
    using emits_chain [OF xs] r(5) by simp
qed

end
