(* ===== verification/LZRoundTrip.thy ===== *)
theory LZRoundTrip
  imports LZTokens
begin

unbundle bit_operations_syntax

text \<open>
  Correctness of \<open>sim/fastlz.cc\<close>: the search and comparison loops only report bytes that
  are equal, the compressor writes a token stream for its input within a fixed expansion,
  and the decompressor runs such a stream.
\<close>

section \<open>Searching and comparing\<close>

lemma flz_readu32_ok: "p + 4 \<le> blen b \<Longrightarrow> flz_readu32 b p = Inr (un32 (slice b p 4))"
  by (simp add: flz_readu32_def peek_def)

lemma flz_readu64_ok: "p + 8 \<le> blen b \<Longrightarrow> flz_readu64 b p = Inr (un64 (slice b p 8))"
  by (simp add: flz_readu64_def peek_def)

lemma flz_readu32_D: "flz_readu32 b p = Inr x \<Longrightarrow> x = un32 (slice b p 4)"
  by (auto simp: flz_readu32_def peek_def split: if_splits)

lemma three_bytes:
  assumes "un32 xs AND 0xffffff = un32 ys AND 0xffffff" and "length xs = 4" "length ys = 4" and i: "i < 3"
  shows "xs ! i = ys ! i"
proof (rule bit_word_eqI)
  fix k assume "k < LENGTH(8)"
  then have k: "k < 8" by simp
  have m: "(0xffffff :: u32) = mask 24" by (simp add: mask_eq_exp_minus_1)
  have "bit (un32 xs AND 0xffffff) (8 * i + k) \<longleftrightarrow> bit (un32 ys AND 0xffffff) (8 * i + k)"
    using assms(1) by simp
  moreover have "8 * i + k < 24" using i k by simp
  ultimately show "bit (xs ! i) k = bit (ys ! i) k"
    using k assms(2,3) by (simp add: m bit_and_iff bit_mask_iff bit_le_dec)
qed

lemma slice_eq_iff: "slice b p n = slice b' q n \<longleftrightarrow> (\<forall>i < n. bm b (p + i) = bm b' (q + i))"
  by (auto simp: list_eq_iff_nth_eq nth_slice)

lemma un_slice_eq:
  "un32 (slice b p 4) = un32 (slice b q 4) \<longleftrightarrow> slice b p 4 = slice b q 4"
  "un64 (slice b p 8) = un64 (slice b q 8) \<longleftrightarrow> slice b p 8 = slice b q 8"
  by (metis le32_un32 length_slice) (metis le64_un64 length_slice)

lemma flz_cmp_tail_ok:
  assumes "p \<le> q" and "r \<le> blen b"
  shows "\<exists>e. flz_cmp_tail b p q r = Inr e \<and> p \<le> e \<and> e - p \<le> r - q \<and>
    (q < r \<longrightarrow> p < e) \<and> (\<forall>i. p + i + 1 < e \<longrightarrow> bm b (p + i) = bm b (q + i)) \<and>
    (\<forall>j. q + j < r \<longrightarrow> (\<forall>i < j. bm b (p + i) = bm b (q + i)) \<longrightarrow> p + j < e)"
  using assms
proof (induction "r - q" arbitrary: p q rule: less_induct)
  case less
  show ?case
  proof (cases "q < r \<and> bm b p = bm b q")
    case True
    then have "r - (q + 1) < r - q" by linarith
    then obtain e where e: "flz_cmp_tail b (p + 1) (q + 1) r = Inr e" "p + 1 \<le> e" "e - (p + 1) \<le> r - (q + 1)"
      "\<forall>i. p + 1 + i + 1 < e \<longrightarrow> bm b (p + 1 + i) = bm b (q + 1 + i)"
      "\<forall>j. q + 1 + j < r \<longrightarrow> (\<forall>i < j. bm b (p + 1 + i) = bm b (q + 1 + i)) \<longrightarrow> p + 1 + j < e"
      using less.hyps [of "q + 1" "p + 1"] less.prems by auto
    have "bm b (p + i) = bm b (q + i)" if "p + i + 1 < e" for i
      using that e(4) True by (cases i) auto
    moreover have "p + j < e" if "q + j < r" "\<forall>i < j. bm b (p + i) = bm b (q + i)" for j
    proof (cases j)
      case (Suc m)
      have "\<forall>i < m. bm b (p + 1 + i) = bm b (q + 1 + i)"
        using that(2) by (auto simp: Suc)
      with Suc that(1) e(5) [rule_format, of m] show ?thesis by simp
    qed (use e(2) in simp)
    moreover have "flz_cmp_tail b p q r = Inr e"
      using True less.prems e(1) by (subst flz_cmp_tail.simps) (simp add: peek1_def)
    ultimately show ?thesis using True e(2,3) by auto
  next
    case False
    show ?thesis
    proof (cases "q < r")
      case True
      with False less.prems have "flz_cmp_tail b p q r = Inr (p + 1)"
        by (subst flz_cmp_tail.simps) (simp add: peek1_def)
      moreover have "j = 0" if "\<forall>i < j. bm b (p + i) = bm b (q + i)" for j
        using that True False by (cases j) auto
      ultimately show ?thesis using True by (intro exI [of _ "p + 1"]) auto
    next
      case False
      then show ?thesis by (subst flz_cmp_tail.simps) simp
    qed
  qed
qed

text \<open>
  \<open>flz_cmp\<close> returns one more than a number of equal bytes, or the bytes up to the bound, all
  of them equal; it never reads past \<open>q + 12\<close> or the bound.
\<close>

lemma flz_cmp_ok:
  assumes "p < q" and "q < r" and "r \<le> blen b" and "q + 12 \<le> blen b"
  shows "\<exists>len. flz_cmp b p q r = Inr len \<and> 0 < len \<and> q + len \<le> max r (q + 12) \<and>
    (\<forall>i. i + 1 < len \<longrightarrow> bm b (p + i) = bm b (q + i)) \<and>
    (\<forall>j. q + j < r \<longrightarrow> (\<forall>i < j. bm b (p + i) = bm b (q + i)) \<longrightarrow> j < len)"
proof -
  define k where "k = (if slice b p 8 = slice b q 8 then 8 else 0 :: nat)"
  define k' where "k' = (if slice b (p + k) 4 = slice b (q + k) 4 then k + 4 else k)"
  have kb: "k \<le> 8" "k' \<le> 12" by (auto simp: k_def k'_def)
  have eq: "bm b (p + i) = bm b (q + i)" if "i < k'" for i
  proof (cases "i < k")
    case True
    then show ?thesis by (auto simp: k_def slice_eq_iff split: if_splits)
  next
    case False
    then have "i = k + (i - k)" "i - k < 4" "slice b (p + k) 4 = slice b (q + k) 4"
      using that by (auto simp: k'_def split: if_splits)
    then show ?thesis using slice_eq_iff [of b "p + k" 4 b "q + k"] by (metis add.assoc)
  qed
  obtain e where e: "flz_cmp_tail b (p + k') (q + k') r = Inr e" "p + k' \<le> e" "e - (p + k') \<le> r - (q + k')"
    "q + k' < r \<longrightarrow> p + k' < e" "\<forall>i. p + k' + i + 1 < e \<longrightarrow> bm b (p + k' + i) = bm b (q + k' + i)"
    "\<forall>j. q + k' + j < r \<longrightarrow> (\<forall>i < j. bm b (p + k' + i) = bm b (q + k' + i)) \<longrightarrow> p + k' + j < e"
    using flz_cmp_tail_ok [of "p + k'" "q + k'" r b] assms by auto
  have "flz_cmp b p q r = Inr (e - p)"
    using assms kb e(1)
    by (cases "slice b (p + k) 4 = slice b (q + k) 4")
      (simp_all add: flz_cmp_def flz_readu64_ok flz_readu32_ok un_slice_eq Let_def k'_def flip: k_def)
  moreover have "0 < e - p" using e(2,4) assms by (cases "k' = 0") auto
  moreover have "q + (e - p) \<le> max r (q + 12)" using e(2,3) kb by linarith
  moreover have "bm b (p + i) = bm b (q + i)" if "i + 1 < e - p" for i
    using that eq [of i] e(5) [rule_format, of "i - k'"] by (cases "i < k'") auto
  moreover have "j < e - p" if j: "q + j < r" "\<forall>i < j. bm b (p + i) = bm b (q + i)" for j
  proof (cases "j < k'")
    case True
    then show ?thesis using e(2) by simp
  next
    case False
    then have "p + k' + (j - k') < e"
      using j e(6) [rule_format, of "j - k'"] by (simp add: add.assoc)
    with False show ?thesis by simp
  qed
  ultimately show ?thesis by auto
qed

lemma lz_find_ok:
  assumes "ip + 13 \<le> n" and "n \<le> blen b" and "\<forall>h. htab h < ip"
  shows "\<exists>ip' ref dist htab'. lz_find maxd b n ip htab = Inr (ip', ref, dist, htab') \<and>
    (ip' + 13 < n \<longrightarrow> ip < ip' \<and> ref + dist = ip' - 1 \<and> 0 < dist \<and> dist < maxd \<and>
       (\<forall>i < 3. bm b (ref + i) = bm b (ip' - 1 + i)) \<and> (\<forall>h. htab' h < ip'))"
  using assms
proof (induction "n - ip" arbitrary: ip htab rule: less_induct)
  case less
  have lt: "htab h + 4 \<le> blen b" for h
    using less.prems(1,2) less.prems(3) [rule_format, of h] by linarith
  have next_ok: "\<forall>k. (htab(h := ip)) k < ip + 1" for h
    using less.prems(3) by (auto simp: less_SucI)
  have IH: "\<exists>ip' ref dist htab'. lz_find maxd b n (ip + 1) (htab(h := ip)) = Inr (ip', ref, dist, htab') \<and>
    (ip' + 13 < n \<longrightarrow> ip + 1 < ip' \<and> ref + dist = ip' - 1 \<and> 0 < dist \<and> dist < maxd \<and>
       (\<forall>i < 3. bm b (ref + i) = bm b (ip' - 1 + i)) \<and> (\<forall>h. htab' h < ip'))" if "ip + 13 < n" for h
    using that less.prems(2) next_ok by (intro less.hyps) auto
  have total: "\<exists>r. lz_find maxd b n ip htab = Inr r"
  proof (cases "n \<le> ip + 13")
    case True
    with lt less.prems show ?thesis
      by (subst lz_find.simps) (simp add: flz_readu32_ok Let_def)
  next
    case False
    then have "\<exists>r. lz_find maxd b n (ip + 1) (htab(h := ip)) = Inr r" for h
      using IH [of h] by auto
    with False less.prems lt show ?thesis
      by (subst lz_find.simps) (simp add: flz_readu32_ok Let_def)
  qed
  then obtain ip' ref dist htab' where r: "lz_find maxd b n ip htab = Inr (ip', ref, dist, htab')"
    by (metis prod_cases4)
  from r show ?case
  proof (cases rule: lz_find_cases)
    case (more h)
    then show ?thesis using IH [of h] r by auto
  next
    case (found h x y)
    have "slice b (htab h) 4 ! i = slice b ip 4 ! i" if "i < 3" for i
      using found(3-5) that by (intro three_bytes) (auto dest!: flz_readu32_D)
    moreover have "htab h + (ip - htab h) = ip"
      using less.prems(3) by (simp add: less_imp_le)
    ultimately show ?thesis
      using found(2,6) less.prems(3) r by (auto simp: nth_slice less_SucI)
  qed (use r in auto)
qed

section \<open>The compressor writes tokens\<close>

text \<open>
  The state between two matches: the output is the encoding of tokens that produce the input
  up to \<open>anchor\<close>, the first token is a run of literals, and the expansion is at most one
  byte in 32.
\<close>

definition lz_inv :: "(token \<Rightarrow> bytes) \<Rightarrow> (nat \<Rightarrow> nat \<Rightarrow> bool) \<Rightarrow> cbuf \<Rightarrow> nat \<Rightarrow> nat \<Rightarrow> cbuf \<Rightarrow> bool" where
  "lz_inv enc lim b anchor op out \<longleftrightarrow>
     (\<exists>toks. slice out 0 op = concat (map enc toks) \<and> lz_run toks [] = slice b 0 anchor \<and>
        toks_ok lim 0 toks \<and> (toks \<noteq> [] \<longrightarrow> (\<exists>l ts. toks = Literals l # ts))) \<and>
     32 * op \<le> 33 * anchor"

lemma lz_inv_start: "lz_inv enc lim b 0 0 out"
  by (auto simp: lz_inv_def intro: exI [of _ "[]"])

lemma lz_inv_extend:
  assumes inv: "lz_inv enc lim b anchor op out"
    and out: "slice out' 0 op' = slice out 0 op @ concat (map enc ts)"
    and run: "lz_run ts (slice b 0 anchor) = slice b 0 anchor'"
    and ok: "toks_ok lim anchor ts"
    and first: "anchor = 0 \<Longrightarrow> \<exists>l us. ts = Literals l # us"
    and size: "32 * op' \<le> 33 * anchor'"
  shows "lz_inv enc lim b anchor' op' out'"
proof -
  obtain toks where t: "slice out 0 op = concat (map enc toks)" "lz_run toks [] = slice b 0 anchor"
    "toks_ok lim 0 toks" "toks \<noteq> [] \<longrightarrow> (\<exists>l ts. toks = Literals l # ts)"
    using inv by (auto simp: lz_inv_def)
  have len: "sum_list (map tok_len toks) = anchor"
    using length_lz_run [of toks "[]"] t(2) by simp
  have "\<exists>l us. toks @ ts = Literals l # us"
  proof (cases "toks = []")
    case True
    then show ?thesis using first len by simp
  next
    case False
    then show ?thesis using t(4) by auto
  qed
  with t len out run ok size show ?thesis
    by (auto simp: lz_inv_def toks_ok_append intro!: exI [of _ "toks @ ts"])
qed

lemma div32_bound: "32 * ((r + 31) div 32) \<le> r + (31 :: nat)"
  by (metis add.commute mult.commute times_div_less_eq_dividend)

text \<open>One match: the literals before it and its own tokens.\<close>

lemma lz_inv_match:
  assumes inv: "lz_inv enc lim b anchor op out" and le: "anchor \<le> ip" "ip \<noteq> 0"
    and out: "slice out' 0 op' = slice out 0 op @
        concat (map enc (lit_tokens (slice b anchor (ip - anchor)) @ ms))"
      "op' = op + length (concat (map enc (lit_tokens (slice b anchor (ip - anchor)) @ ms)))"
    and enc: "\<And>bs. length (enc (Literals bs)) = Suc (length bs)"
    and run: "lz_run ms (slice b 0 ip) = slice b 0 (ip + l)"
    and ok: "toks_ok lim ip ms" and size: "length (concat (map enc ms)) < l"
  shows "lz_inv enc lim b (ip + l) op' out'"
proof (rule lz_inv_extend [OF inv out(1)])
  let ?r = "ip - anchor"
  have sl: "slice b 0 anchor @ slice b anchor ?r = slice b 0 ip"
    using slice_add [of b 0 anchor ?r] le by simp
  show "lz_run (lit_tokens (slice b anchor ?r) @ ms) (slice b 0 anchor) = slice b 0 (ip + l)"
    by (simp add: lz_run_lit_tokens sl run)
  show "toks_ok lim anchor (lit_tokens (slice b anchor ?r) @ ms)"
    using ok le by (simp add: toks_ok_append lit_tokens_ok sum_lit_tokens)
  show "\<exists>l us. lit_tokens (slice b anchor ?r) @ ms = Literals l # us" if "anchor = 0"
  proof -
    have "slice b anchor ?r \<noteq> []" using that le by (simp add: slice_def)
    then show ?thesis using lit_tokens_hd by fastforce
  qed
  obtain r where r: "ip = anchor + r" using le by (metis le_Suc_ex)
  define m where "m = length (concat (map enc ms))"
  define k where "k = (r + 31) div 32"
  have "op' = op + r + k + m"
    using out(2) length_enc_lit [of enc, OF enc] by (simp add: r m_def k_def)
  moreover have "32 * op \<le> 33 * anchor" using inv by (simp add: lz_inv_def)
  moreover have "m + 1 \<le> l" using size by (simp add: m_def)
  ultimately show "32 * op' \<le> 33 * (ip + l)"
    using div32_bound [of r] unfolding r k_def [symmetric] by simp
qed

lemma match_run:
  assumes "ref + d = ip" "0 < d" and "0 < len"
    and "\<forall>i < 3. bm b (ref + i) = bm b (ip + i)"
    and "\<forall>i. i + 1 < len \<longrightarrow> bm b (ref + 3 + i) = bm b (ip + 3 + i)"
  shows "copy_back d (len + 2) (slice b 0 ip) = slice b 0 (ip + (len + 2))"
proof (rule copy_back_repeat)
  show "\<forall>i < len + 2. bm b (ip + i) = bm b (ip - d + i)"
  proof (intro allI impI)
    fix i assume i: "i < len + 2"
    have ref: "ip - d = ref" using assms(1) by simp
    show "bm b (ip + i) = bm b (ip - d + i)"
    proof (cases "i < 3")
      case False
      then obtain j where j: "i = 3 + j" by (metis le_Suc_ex not_less)
      then show ?thesis using assms(5) [rule_format, of j] i by (simp add: ref add.assoc)
    qed (use assms(4) ref in simp)
  qed
qed (use assms in auto)

text \<open>What the search and the comparison hand to a round that writes a match at \<open>ip\<close>.\<close>

definition match_at :: "cbuf \<Rightarrow> nat \<Rightarrow> nat \<Rightarrow> nat \<Rightarrow> nat \<Rightarrow> nat \<Rightarrow> bool" where
  "match_at b n ip ref d len \<longleftrightarrow> ref + d = ip \<and> 0 < d \<and> 0 < len \<and> ip + len + 3 \<le> n \<and> ip + 15 \<le> n \<and>
     (\<forall>i < 3. bm b (ref + i) = bm b (ip + i)) \<and> (\<forall>i. i + 1 < len \<longrightarrow> bm b (ref + 3 + i) = bm b (ip + 3 + i))"

lemma lz_found:
  assumes "ip + 13 < n" and "n + 1 \<le> blen b" and "\<forall>h. htab h < ip"
    and find: "lz_find maxd b n ip htab = Inr (ip1, ref, d, htab1)" and lim: "\<not> n \<le> ip1 + 13"
  obtains ip2 len w where "ip1 = Suc ip2" "ip \<le> ip2" "d < maxd" "\<forall>h. htab1 h < Suc ip2"
    "flz_cmp b (ref + 3) (ip2 + 3) (n - 4) = Inr len" "match_at b n ip2 ref d len"
    "bm b (ref + 3) = bm b (ip2 + 3) \<and> bm b (ref + 4) = bm b (ip2 + 4) \<longrightarrow> 3 \<le> len"
    "flz_readu32 b (ip2 + len) = Inr w"
proof -
  have "ip + 13 \<le> n" "n \<le> blen b" using assms(1,2) by auto
  from lz_find_ok [OF this assms(3), of maxd] find lim
  have f0: "ip < ip1" "ref + d = ip1 - 1" "0 < d" "d < maxd" "\<forall>i < 3. bm b (ref + i) = bm b (ip1 - 1 + i)" "\<forall>h. htab1 h < ip1"
    by auto
  obtain ip2 where ip2: "ip1 = Suc ip2" using f0(1) by (cases ip1) auto
  have f: "ip \<le> ip2" "ref + d = ip2" "\<forall>i < 3. bm b (ref + i) = bm b (ip2 + i)" "ip2 + 15 \<le> n"
    using f0 lim by (simp_all add: ip2)
  have "ref + 3 < ip2 + 3" "ip2 + 3 < n - 4" "n - 4 \<le> blen b" "ip2 + 3 + 12 \<le> blen b"
    using f(2,4) f0(3) assms(2) by linarith+
  from flz_cmp_ok [OF this] obtain len where len: "flz_cmp b (ref + 3) (ip2 + 3) (n - 4) = Inr len" "0 < len"
    "ip2 + 3 + len \<le> max (n - 4) (ip2 + 3 + 12)" "\<forall>i. i + 1 < len \<longrightarrow> bm b (ref + 3 + i) = bm b (ip2 + 3 + i)"
    "\<forall>j. ip2 + 3 + j < n - 4 \<longrightarrow> (\<forall>i < j. bm b (ref + 3 + i) = bm b (ip2 + 3 + i)) \<longrightarrow> j < len"
    by blast
  have lb: "ip2 + len + 3 \<le> n" using len(3) f(4) by auto
  have m: "match_at b n ip2 ref d len" using f f0(3) len(2,4) lb by (simp add: match_at_def)
  have three: "3 \<le> len" if "bm b (ref + 3) = bm b (ip2 + 3)" "bm b (ref + 4) = bm b (ip2 + 4)"
  proof -
    have "bm b (ref + 3 + i) = bm b (ip2 + 3 + i)" if "i < 2" for i
      using that \<open>bm b (ref + 3) = _\<close> \<open>bm b (ref + 4) = _\<close> by (cases i) (auto simp: less_Suc_eq numeral_2_eq_2 numeral_eq_Suc)
    then have "2 < len" using len(5) [rule_format, of 2] f(4) by simp
    then show ?thesis by simp
  qed
  obtain w where "flz_readu32 b (ip2 + len) = Inr w"
    using flz_readu32_ok [of "ip2 + len" b] lb assms(2) by auto
  with ip2 f(1) f0(4,6) len(1) m three show thesis by (intro that) auto
qed

lemma enc_lit_tokens:
  assumes "\<And>bs. enc (Literals bs) = enc1 (Literals bs)"
  shows "concat (map enc (lit_tokens bs)) = concat (map enc1 (lit_tokens bs))"
proof (induction bs rule: lit_tokens.induct)
  case (1 bs)
  then show ?case by (subst (1 2) lit_tokens.simps) (simp add: assms)
qed

text \<open>
  A round, for either level: \<open>ms\<close> are the tokens of the match and \<open>mat\<close> writes them. The literals before
  the match and the match itself fit the output, and the invariant holds behind them.
\<close>

lemma lz_round:
  assumes b: "n + 1 \<le> blen b" "33 * n + 1100 \<le> 32 * blen out" and a: "anchor \<le> ip" "0 < ip"
    and inv: "lz_inv enc lim b anchor op out" and m: "match_at b n ip ref d len"
    and lit: "\<And>bs. enc (Literals bs) = enc1 (Literals bs)"
    and ms: "\<And>xs. lz_run ms xs = copy_back d (len + 2) xs" "toks_ok lim ip ms" "length (concat (map enc ms)) \<le> len + 1"
    and mat: "\<And>out op. op + length (concat (map enc ms)) \<le> blen out \<Longrightarrow> emits (mat out op) out op (concat (map enc ms))"
  shows "\<exists>op1 out1 op2 out2. (if anchor < ip then flz_literals (ip - anchor) b anchor out op else Inr (op, out)) = Inr (op1, out1) \<and>
    mat out1 op1 = Inr (op2, out2) \<and> blen out2 = blen out \<and> lz_inv enc lim b (ip + len + 2) op2 out2"
proof -
  let ?F = "concat (map enc ms)"
  define E where "E = concat (map enc1 (lit_tokens (slice b anchor (ip - anchor))))"
  have eE: "concat (map enc (lit_tokens (slice b anchor (ip - anchor)))) = E" unfolding E_def by (rule enc_lit_tokens [OF lit])
  have szE: "length E = (ip - anchor) + (ip - anchor + 31) div 32" unfolding E_def by (subst length_enc_lit) simp_all
  have cap: "op + length E + length ?F + 16 \<le> blen out"
  proof -
    define k where "k = (ip - anchor + 31) div 32"
    have "length E = ip - anchor + k" "32 * k \<le> ip - anchor + 31" "32 * op \<le> 33 * anchor" "ip + len + 3 \<le> n"
      using szE div32_bound [of "ip - anchor"] inv m by (simp_all add: k_def lz_inv_def match_at_def)
    then show ?thesis using ms(3) b(2) a(1) by linarith
  qed
  have "emits (if anchor < ip then flz_literals (ip - anchor) b anchor out op else Inr (op, out)) out op E"
  proof (cases "anchor < ip")
    case True
    have "anchor + (ip - anchor) + 16 \<le> blen b" using True b(1) m by (simp add: match_at_def)
    moreover have "op + (ip - anchor) + (ip - anchor + 31) div 32 + 16 \<le> blen out" using cap unfolding szE by simp
    ultimately show ?thesis using True unfolding E_def by (simp only: if_True flz_literals_emits)
  next
    case False
    then have "E = []" unfolding E_def by (subst lit_tokens.simps) simp
    with False show ?thesis by simp
  qed
  then obtain out1 where o1: "(if anchor < ip then flz_literals (ip - anchor) b anchor out op else Inr (op, out)) = Inr (op + length E, out1)"
    "blen out1 = blen out" "slice out1 0 (op + length E) = slice out 0 op @ E"
    by (auto simp: emits_def)
  obtain out2 where o2: "mat out1 (op + length E) = Inr (op + length E + length ?F, out2)"
    "blen out2 = blen out" "slice out2 0 (op + length E + length ?F) = slice out 0 op @ E @ ?F"
    using mat [of "op + length E" out1] cap o1(2,3) by (auto simp: emits_def)
  have "lz_inv enc lim b (ip + (len + 2)) (op + length E + length ?F) out2"
  proof (rule lz_inv_match [OF inv])
    show "lz_run ms (slice b 0 ip) = slice b 0 (ip + (len + 2))"
      using match_run [of ref d ip len b] m by (simp add: ms(1) match_at_def)
  qed (use a o2(3) ms(2,3) lit in \<open>auto simp: eE\<close>)
  with o1(1) o2(1,2) show ?thesis by simp
qed

lemma lz1_loop_ok:
  assumes "n + 1 \<le> blen b" and "33 * n + 1100 \<le> 32 * blen out"
    and "\<forall>h. htab h < ip" and "anchor \<le> ip" and "anchor = 0 \<or> anchor < n" and "0 < ip"
    and "lz_inv enc1 lim1 b anchor op out"
  shows "\<exists>anchor' op' out'. lz1_loop b n ip anchor htab op out = Inr (anchor', op', out') \<and>
    (anchor' = 0 \<or> anchor' < n) \<and> blen out' = blen out \<and> lz_inv enc1 lim1 b anchor' op' out'"
  using assms
proof (induction "n - ip" arbitrary: ip anchor htab op out rule: less_induct)
  case less
  obtain ip1 ref d htab1 where find: "ip + 13 < n \<Longrightarrow> lz_find MAX_L1_DISTANCE b n ip htab = Inr (ip1, ref, d, htab1)"
    using lz_find_ok [of ip n b htab MAX_L1_DISTANCE] less.prems(1,3) by (cases "ip + 13 < n") auto
  show ?case
  proof (cases "ip + 13 < n \<and> \<not> n \<le> ip1 + 13")
    case False
    then show ?thesis using less.prems find by (subst lz1_loop.simps) auto
  next
    case True
    then have lt: "ip + 13 < n" "\<not> n \<le> ip1 + 13" by auto
    from lt(1) less.prems(1,3) find [OF lt(1)] lt(2) obtain ip2 len w where f: "ip1 = Suc ip2" "ip \<le> ip2" "d < MAX_L1_DISTANCE"
      "\<forall>h. htab1 h < Suc ip2" "flz_cmp b (ref + 3) (ip2 + 3) (n - 4) = Inr len" "match_at b n ip2 ref d len"
      "flz_readu32 b (ip2 + len) = Inr w"
      by (rule lz_found)
    have m: "0 < len" "0 < d" "d \<le> ip2" "ip2 + len + 3 \<le> n" "d \<le> 8192"
      using f(3,6) by (auto simp: match_at_def MAX_L1_DISTANCE_def)
    obtain op1 out1 op2 out2 where r: "(if anchor < ip2 then flz_literals (ip2 - anchor) b anchor out op else Inr (op, out)) = Inr (op1, out1)"
      "flz1_match len d out1 op1 = Inr (op2, out2)" "blen out2 = blen out" "lz_inv enc1 lim1 b (ip2 + len + 2) op2 out2"
      using lz_round [where mat = "flz1_match len d" and ms = "match_tokens d len", OF less.prems(1,2) _ _ less.prems(7) f(6)]
        less.prems(4,6) f(2) m length_enc_match match_tokens_ok flz1_match_emits
      by (force simp: lz_run_match_tokens)
    let ?htab = "htab1(unat (flz_hash (w AND 0xffffff)) := ip2 + len, unat (flz_hash (drop_bit 8 w)) := ip2 + len + 1)"
    have step: "lz1_loop b n ip anchor htab op out = lz1_loop b n (ip2 + len + 2) (ip2 + len + 2) ?htab op2 out2"
      using lt find [OF lt(1)] f(5,7) r(1,2) by (subst lz1_loop.simps) (simp add: Let_def f(1))
    have "?htab h < ip2 + len + 2" for h using f(4) [rule_format, of h] by simp
    moreover have "n - (ip2 + len + 2) < n - ip" using f(2) m(4) by linarith
    ultimately show ?thesis
      unfolding step r(3) [symmetric] using less.hyps [of "ip2 + len + 2" out2 ?htab "ip2 + len + 2" op2] less.prems(1,2) r(3,4) m(4) by simp
  qed
qed

text \<open>The last literals, for either level; the stream starts and ends with a run of literals.\<close>

lemma lit_tokens_last: "bs \<noteq> [] \<Longrightarrow> \<exists>us l. lit_tokens bs = us @ [Literals l]"
proof (induction bs rule: lit_tokens.induct)
  case (1 bs)
  show ?case
  proof (cases "32 < length bs")
    case True
    then obtain us l where "lit_tokens (drop 32 bs) = us @ [Literals l]" using 1 by fastforce
    then show ?thesis using True by (subst lit_tokens.simps) (auto intro!: exI [of _ "Literals (take 32 bs) # us"])
  next
    case False
    have "lit_tokens [] = []" by (subst lit_tokens.simps) simp
    with False 1(2) show ?thesis by (subst lit_tokens.simps) auto
  qed
qed

definition lz_stream :: "(token \<Rightarrow> bytes) \<Rightarrow> (nat \<Rightarrow> nat \<Rightarrow> bool) \<Rightarrow> bytes \<Rightarrow> token list \<Rightarrow> bytes \<Rightarrow> bool" where
  "lz_stream enc lim zs toks raw \<longleftrightarrow> zs = concat (map enc toks) \<and> lz_run toks [] = raw \<and> toks_ok lim 0 toks \<and>
     (\<exists>l ts. toks = Literals l # ts) \<and> (\<exists>us l. toks = us @ [Literals l])"

lemma lz_finish:
  assumes inv: "lz_inv enc lim b anchor op out" and a: "anchor = 0 \<or> anchor < n" and "0 < n"
    and b: "n + 1 \<le> blen b" "33 * n + 1100 \<le> 32 * blen out" and lit: "\<And>bs. enc (Literals bs) = enc1 (Literals bs)"
  shows "\<exists>c out' toks. flz_finalize (n - anchor) b anchor out op = Inr (c, out') \<and> blen out' = blen out \<and>
    32 * c \<le> 33 * n + 31 \<and> lz_stream enc lim (slice out' 0 c) toks (slice b 0 n)"
proof -
  define r where "r = n - anchor"
  define k where "k = (r + 31) div 32"
  define E where "E = concat (map enc1 (lit_tokens (slice b anchor r)))"
  have n: "n = anchor + r" and r: "0 < r" using a assms(3) by (auto simp: r_def)
  have szE: "length E = r + k" unfolding E_def k_def by (subst length_enc_lit) simp_all
  have k: "32 * k \<le> r + 31" unfolding k_def by (rule div32_bound)
  have op: "32 * op \<le> 33 * anchor" using inv by (simp add: lz_inv_def)
  have size: "32 * (op + length E) \<le> 33 * n + 31" using k op unfolding szE n by simp
  then have "op + r + (r + 31) div 32 \<le> blen out" using b(2) szE unfolding k_def by simp
  then have "emits (flz_finalize r b anchor out op) out op E"
    unfolding E_def using b(1) n by (intro flz_finalize_emits) simp_all
  then obtain out' where o: "flz_finalize r b anchor out op = Inr (op + length E, out')"
    "blen out' = blen out" "slice out' 0 (op + length E) = slice out 0 op @ E"
    by (auto simp: emits_def)
  obtain toks where t: "slice out 0 op = concat (map enc toks)" "lz_run toks [] = slice b 0 anchor"
    "toks_ok lim 0 toks" "toks \<noteq> [] \<longrightarrow> (\<exists>l ts. toks = Literals l # ts)"
    using inv by (auto simp: lz_inv_def)
  have "slice b anchor r \<noteq> []" using r by (simp add: slice_def)
  then obtain l ts us l' where lt: "lit_tokens (slice b anchor r) = Literals l # ts" "lit_tokens (slice b anchor r) = us @ [Literals l']"
    using lit_tokens_hd lit_tokens_last by metis
  have "lz_stream enc lim (slice out' 0 (op + length E)) (toks @ lit_tokens (slice b anchor r)) (slice b 0 n)"
    unfolding lz_stream_def
  proof (intro conjI)
    show "\<exists>l ts. toks @ lit_tokens (slice b anchor r) = Literals l # ts" using t(4) lt(1) by (cases "toks = []") auto
    show "\<exists>us l. toks @ lit_tokens (slice b anchor r) = us @ [Literals l]" using lt(2) by (metis append.assoc)
  qed (use o(3) t slice_add [of b 0 anchor r] in
      \<open>simp_all add: E_def n lz_run_lit_tokens toks_ok_append lit_tokens_ok enc_lit_tokens [OF lit]\<close>)
  with o(1,2) size show ?thesis unfolding r_def by blast
qed

lemma fastlz1_compress_ok:
  assumes "0 < n" and "n + 1 \<le> blen b" and "33 * n + 1100 \<le> 32 * blen out"
  shows "\<exists>c out' toks. fastlz1_compress b n out = Inr (c, out') \<and> blen out' = blen out \<and>
    32 * c \<le> 33 * n + 31 \<and> lz_stream enc1 lim1 (slice out' 0 c) toks (slice b 0 n)"
proof -
  obtain anchor op out1 where loop: "lz1_loop b n 2 0 (\<lambda>_. 0) 0 out = Inr (anchor, op, out1)"
    "anchor = 0 \<or> anchor < n" "blen out1 = blen out" "lz_inv enc1 lim1 b anchor op out1"
    using lz1_loop_ok [OF assms(2,3), of "\<lambda>_. 0" 2 0 0] lz_inv_start by auto
  then show ?thesis
    using lz_finish [OF loop(4,2) assms(1,2)] assms(3) by (simp add: fastlz1_compress_def)
qed

section \<open>The decompressor runs tokens\<close>

lemma move_bytes_ok:
  assumes "s < d" and "d + n \<le> blen b"
  shows "\<exists>b'. move_bytes n b d s = Inr b' \<and> blen b' = blen b \<and>
    slice b' 0 (d + n) = copy_back (d - s) n (slice b 0 d)"
  using assms
proof (induction n arbitrary: b d s)
  case (Suc n)
  let ?b = "poked b d [bm b s]"
  have "slice ?b 0 (d + 1) = slice b 0 d @ [slice b 0 d ! (d - (d - s))]"
    using slice_poked [of b d "[bm b s]"] Suc.prems(1) by (simp add: nth_slice)
  moreover obtain b' where "move_bytes n ?b (d + 1) (s + 1) = Inr b'" "blen b' = blen b"
    "slice b' 0 (d + 1 + n) = copy_back (d - s) n (slice ?b 0 (d + 1))"
    using Suc.IH [of "s + 1" "d + 1" ?b] Suc.prems by auto
  ultimately show ?case
    using Suc.prems by (simp add: peek1_def poke_def)
qed simp

lemma fastlz_memmove_ok:
  assumes "s < d" and "d + n \<le> blen b"
  shows "\<exists>b'. fastlz_memmove b d s n = Inr b' \<and> blen b' = blen b \<and>
    slice b' 0 (d + n) = copy_back (d - s) n (slice b 0 d)"
proof (cases "4 < n \<and> s + n \<le> d")
  case True
  then have "copy_back (d - s) n (slice b 0 d) = slice b 0 d @ slice b s n"
    using assms(1) copy_back_far [of n "d - s" "slice b 0 d"] by (auto simp: drop_slice take_slice)
  with True assms slice_poked [of b d "slice b s n"] show ?thesis
    by (simp add: fastlz_memmove_def peek_def poke_def)
next
  case False
  then show ?thesis using move_bytes_ok [OF assms] by (auto simp: fastlz_memmove_def)
qed

lemma nat_and_31: "(a :: nat) AND 31 = a mod 32"
  using take_bit_eq_mask [of 5 a] by (simp add: take_bit_eq_mod mask_eq_exp_minus_1)

lemma nat_and_255: "(a :: nat) AND 255 = a mod 256"
  using take_bit_eq_mask [of 8 a] by (simp add: take_bit_eq_mod mask_eq_exp_minus_1)

lemma ctrl_byte:
  assumes "q < 8" and "d < 8192"
  shows "unat (of_nat (push_bit 5 q + drop_bit 8 d) :: u8) = 32 * q + d div 256"
    and "drop_bit 5 (32 * q + d div 256) = q"
    and "push_bit 8 ((32 * q + d div 256) AND 31) = 256 * (d div 256)"
    and "unat (of_nat (d AND 255) :: u8) = d mod 256"
proof -
  have d: "d div 256 < 32" using assms(2) by (simp add: less_mult_imp_div_less)
  then have s: "32 * q + d div 256 < 256" using assms(1) by linarith
  show "unat (of_nat (push_bit 5 q + drop_bit 8 d) :: u8) = 32 * q + d div 256"
    using s by (simp add: push_bit_eq_mult drop_bit_eq_div unsigned_of_nat take_bit_eq_mod mult.commute del: of_nat_add)
  show "drop_bit 5 (32 * q + d div 256) = q"
    using d by (simp add: drop_bit_eq_div)
  have "(32 * q + d div 256) AND 31 = (32 * q + d div 256) mod 32"
    by (rule nat_and_31)
  then show "push_bit 8 ((32 * q + d div 256) AND 31) = 256 * (d div 256)"
    using d by (simp add: push_bit_eq_mult)
  show "unat (of_nat (d AND 255) :: u8) = d mod 256"
    by (simp add: nat_and_255 unsigned_of_nat take_bit_eq_mod)
qed

text \<open>What one round of either decompressor does with a token whose control byte was read.\<close>

definition runs_token :: "(nat \<times> nat \<times> cbuf) option res \<Rightarrow> nat \<Rightarrow> nat \<Rightarrow> cbuf \<Rightarrow> token \<Rightarrow> bool" where
  "runs_token r ip' op out t \<longleftrightarrow> (\<exists>out'. r = Inr (Some (ip', op + tok_len t, out')) \<and>
     blen out' = blen out \<and> slice out' 0 (op + tok_len t) = lz_token t (slice out 0 op))"

lemma slice_ConsD: "slice b i n = x # xs \<Longrightarrow> n = Suc (length xs) \<and> bm b i = x \<and> slice b (Suc i) (length xs) = xs"
  by (cases n) (auto simp: slice_Suc)

lemma literal_round:
  assumes "slice b ip (length bs) = bs" and "bs \<noteq> []" "length bs \<le> 32" and "ip + length bs \<le> n"
    and "n \<le> blen b" and "op + length bs \<le> maxout" and "maxout \<le> blen out"
  shows "runs_token (lz1_step b n maxout (length bs - 1) ip op out) (ip + length bs) op out (Literals bs)"
    and "runs_token (lz2_step b n maxout (length bs - 1) ip op out) (ip + length bs) op out (Literals bs)"
  using assms slice_poked [of out op bs]
  by (auto simp: runs_token_def lz1_step_def lz2_step_def Let_def fastlz_memcpy_def peek_def poke_def)

lemma lz1_step_short:
  assumes "32 \<le> ctrl" "drop_bit 5 ctrl = Suc p" "p \<noteq> 6" "push_bit 8 (ctrl AND 31) = ofs"
    and "peek1 b ip = Inr c" "int op - int ofs - 1 - int (unat c) = int r"
    and "op + (p + 3) \<le> maxout" "fastlz_memmove out op r (p + 3) = Inr out'"
  shows "lz1_step b n maxout ctrl ip op out = Inr (Some (ip + 1, op + (p + 3), out'))"
  unfolding lz1_step_def Let_def assms(2,4) using assms(1,3,5-8) by simp

lemma lz1_step_long:
  assumes "32 \<le> ctrl" "drop_bit 5 ctrl = 7" "push_bit 8 (ctrl AND 31) = ofs" "ip + 2 \<le> n"
    and "peek1 b ip = Inr x" "peek1 b (ip + 1) = Inr c" "int op - int ofs - 1 - int (unat c) = int r"
    and "op + (unat x + 9) \<le> maxout" "fastlz_memmove out op r (unat x + 9) = Inr out'"
  shows "lz1_step b n maxout ctrl ip op out = Inr (Some (ip + 2, op + (unat x + 9), out'))"
  unfolding lz1_step_def Let_def assms(2,3) using assms(1,4-9) by (simp add: add.commute)

lemma match_round:
  assumes "0 < d" "d \<le> op" "3 \<le> l" "lim1 d l"
    and "slice b ip (length cs) = cs" and "enc1 (Match d l) = c # cs"
    and "ip + length cs \<le> n" and "n \<le> blen b" and "op + l \<le> maxout" and "maxout \<le> blen out"
  shows "32 \<le> unat c" and "runs_token (lz1_step b n maxout (unat c) ip op out) (ip + length cs) op out (Match d l)"
proof -
  define q where "q = l - 2"
  have q: "l = q + 2" "0 < q" "q \<le> 262" using assms(3,4) by (auto simp: q_def lim1_def)
  have d: "d - 1 < 8192" "d - 1 < op" "d \<le> 8192" using assms(1,2,4) by (auto simp: lim1_def)
  have split: "256 * ((d - 1) div 256) + (d - 1) mod 256 = d - 1" by simp
  obtain out' where mv: "fastlz_memmove out op (op - d) l = Inr out'" "blen out' = blen out"
    "slice out' 0 (op + l) = copy_back d l (slice out 0 op)"
    using fastlz_memmove_ok [of "op - d" op l out] assms by auto
  have ref: "int op - int (256 * ((d - 1) div 256)) - 1 - int ((d - 1) mod 256) = int (op - d)"
    using split assms(1,2) by linarith
  define q' where "q' = min q 7"
  have q': "q' < 8" "0 < q'" using q(2) by (auto simp: q'_def)
  note cb = ctrl_byte [OF q'(1) d(1)]
  have c: "unat c = 32 * q' + (d - 1) div 256"
    using assms(6) q cb(1) by (auto simp: q'_def min_def split: if_splits)
  then show "32 \<le> unat c" using q'(2) by linarith
  have len: "drop_bit 5 (unat c) = q'" "push_bit 8 (unat c AND 31) = 256 * ((d - 1) div 256)"
    unfolding c by (rule cb)+
  have ref2: "int op - int (256 * ((d - 1) div 256)) - 1 - int (unat (of_nat ((d - 1) AND 255) :: u8)) = int (op - d)"
    unfolding cb(4) by (rule ref)
  show "runs_token (lz1_step b n maxout (unat c) ip op out) (ip + length cs) op out (Match d l)"
  proof (cases "q < 7")
    case True
    then have "q' = q" by (simp add: q'_def)
    have cs: "cs = [of_nat ((d - 1) AND 255)]" using assms(6) True q by simp
    then have c2: "peek1 b ip = Inr (of_nat ((d - 1) AND 255))"
      using assms(5,7,8) by (simp add: slice_def peek1_def)
    have "lz1_step b n maxout (unat c) ip op out = Inr (Some (ip + 1, op + (q - 1 + 3), out'))"
      using True q assms(9) mv(1)
      by (intro lz1_step_short [OF \<open>32 \<le> unat c\<close> _ _ len(2) c2 ref2])
        (auto simp: len(1) \<open>q' = q\<close>)
    then show ?thesis
      using mv(2,3) q by (simp add: cs runs_token_def)
  next
    case False
    then have "q' = 7" by (simp add: q'_def)
    have cs: "cs = [of_nat (q - 7), of_nat ((d - 1) AND 255)]" using assms(6) False q by simp
    then have c2: "peek1 b ip = Inr (of_nat (q - 7))" "peek1 b (ip + 1) = Inr (of_nat ((d - 1) AND 255))"
      and n: "ip + 2 \<le> n"
      using assms(5,7,8) by (simp_all add: slice_Suc numeral_2_eq_2 peek1_def)
    have x: "unat (of_nat (q - 7) :: u8) + 9 = l"
      using q False by (simp add: unsigned_of_nat take_bit_eq_mod del: of_nat_diff)
    have "lz1_step b n maxout (unat c) ip op out =
        Inr (Some (ip + 2, op + (unat (of_nat (q - 7) :: u8) + 9), out'))"
      using assms(9) mv(1) unfolding x
      by (intro lz1_step_long [OF \<open>32 \<le> unat c\<close> _ len(2) n c2 ref2, unfolded x])
        (simp_all add: len(1) \<open>q' = 7\<close>)
    then show ?thesis
      using mv(2,3) x by (simp add: cs runs_token_def)
  qed
qed

text \<open>A stream of tokens, entered after its first control byte.\<close>

lemma enc1_two: "tok_ok lim m t \<Longrightarrow> \<exists>c x xs. enc1 t = c # x # xs"
  by (cases t) (auto simp: neq_Nil_conv)

lemma token_round1:
  assumes "tok_ok lim1 op t" and "enc1 t = c # cs" and "slice b ip (length cs) = cs"
    and "ip + length cs \<le> n" and "n \<le> blen b" and "op + tok_len t \<le> maxout" and "maxout \<le> blen out"
  shows "runs_token (lz1_step b n maxout (unat c) ip op out) (ip + length cs) op out t"
proof (cases t)
  case (Literals bs)
  then have "unat c = length bs - 1" "cs = bs"
    using assms(1,2) by (auto simp: unsigned_of_nat take_bit_eq_mod simp del: of_nat_diff)
  with Literals assms literal_round(1) [of b ip bs n op maxout out] show ?thesis by auto
next
  case (Match d l)
  with assms match_round(2) [of d op l b ip cs c n maxout out] show ?thesis by simp
qed

lemma lz1_rounds_ok:
  assumes "toks_ok lim1 op (t # ts)" and "enc1 t = c # cs"
    and "slice b ip (n - ip) = cs @ concat (map enc1 ts)" and "ip \<le> n" and "n \<le> blen b"
    and "op + sum_list (map tok_len (t # ts)) \<le> maxout" and "maxout \<le> blen out"
  shows "\<exists>out'. lz1_rounds b n maxout (unat c) ip op out =
      Inr (op + sum_list (map tok_len (t # ts)), out') \<and> blen out' = blen out \<and>
    slice out' 0 (op + sum_list (map tok_len (t # ts))) = lz_run (t # ts) (slice out 0 op)"
  using assms
proof (induction ts arbitrary: t c cs ip op out)
  case Nil
  have n: "n = ip + length cs" "slice b ip (length cs) = cs"
    using arg_cong [OF Nil.prems(3), of length] Nil.prems(3,4) by auto
  obtain out' where "lz1_step b n maxout (unat c) ip op out = Inr (Some (n, op + tok_len t, out'))"
    "blen out' = blen out" "slice out' 0 (op + tok_len t) = lz_token t (slice out 0 op)"
    using token_round1 [of op t c cs b ip n maxout out] Nil.prems n by (auto simp: runs_token_def)
  then show ?case by (subst lz1_rounds.simps) simp
next
  case (Cons t' ts)
  obtain c' x xs where enc: "enc1 t' = c' # x # xs" using Cons.prems(1) enc1_two [of lim1 "op + tok_len t" t'] by auto
  let ?ip = "ip + length cs"
  have len: "n - ip = length cs + length (concat (map enc1 (t' # ts)))"
    using arg_cong [OF Cons.prems(3), of length] by simp
  then have len': "n - ?ip = length (concat (map enc1 (t' # ts)))" by simp
  have "slice b ip (n - ip) = slice b ip (length cs) @ slice b ?ip (n - ?ip)"
    using slice_add [of b ip "length cs" "n - ?ip"] len len' by simp
  then have sl: "slice b ip (length cs) = cs" "slice b ?ip (n - ?ip) = concat (map enc1 (t' # ts))"
    using Cons.prems(3) by simp_all
  have n: "?ip + 2 \<le> n" using len Cons.prems(4) enc by simp
  obtain out1 where o1: "lz1_step b n maxout (unat c) ip op out = Inr (Some (?ip, op + tok_len t, out1))"
    "blen out1 = blen out" "slice out1 0 (op + tok_len t) = lz_token t (slice out 0 op)"
    using token_round1 [of op t c cs b ip n maxout out] Cons.prems n sl(1) by (auto simp: runs_token_def)
  have "n - ?ip = Suc (n - (?ip + 1))" using n by simp
  then have hd: "bm b ?ip = c'" "slice b (?ip + 1) (n - (?ip + 1)) = (x # xs) @ concat (map enc1 ts)"
    using sl(2) enc slice_Suc [of b ?ip "n - (?ip + 1)"] by auto
  obtain out' where "lz1_rounds b n maxout (unat c') (?ip + 1) (op + tok_len t) out1 =
      Inr (op + tok_len t + sum_list (map tok_len (t' # ts)), out')" "blen out' = blen out1"
    "slice out' 0 (op + tok_len t + sum_list (map tok_len (t' # ts))) =
       lz_run (t' # ts) (slice out1 0 (op + tok_len t))"
    using Cons.IH [of "op + tok_len t" t' c' "x # xs" "?ip + 1" out1] Cons.prems enc hd(2) n o1(2) by auto
  with o1 n hd(1) Cons.prems(5) show ?case
    by (subst lz1_rounds.simps) (simp add: peek1_def add.assoc)
qed

text \<open>
  Level 1, both ways: any input of \<open>n\<close> bytes with one readable byte behind it is compressed
  without a fault into a buffer with room for the worst expansion, the result is at most
  \<open>33/32\<close> of the input plus one byte, and decompressing it from any buffer gives it back.
\<close>

lemma fastlz1_roundtrip:
  assumes "0 < n" and "n + 1 \<le> blen b" and "33 * n + 1100 \<le> 32 * blen out"
  shows "\<exists>c out'. fastlz1_compress b n out = Inr (c, out') \<and> blen out' = blen out \<and> 0 < c \<and>
    32 * c \<le> 33 * n + 31 \<and> unat (bm out' 0) < 32 \<and>
    (\<forall>src dst maxout. slice src 0 c = slice out' 0 c \<and> c \<le> blen src \<and> n \<le> maxout \<and> maxout \<le> blen dst \<longrightarrow>
       (\<exists>dst'. fastlz1_decompress src c dst maxout = Inr (n, dst') \<and> blen dst' = blen dst \<and>
          slice dst' 0 n = slice b 0 n))"
proof -
  obtain c out' l ts where r: "fastlz1_compress b n out = Inr (c, out')" "blen out' = blen out"
    "32 * c \<le> 33 * n + 31" "slice out' 0 c = concat (map enc1 (Literals l # ts))"
    "lz_run (Literals l # ts) [] = slice b 0 n" "toks_ok lim1 0 (Literals l # ts)"
    using fastlz1_compress_ok [OF assms] unfolding lz_stream_def by blast
  define x :: u8 where "x = of_nat (length l - 1)"
  have l: "0 < length l" "length l \<le> 32" using r(6) by auto
  then have x: "unat x < 32" unfolding x_def by (simp add: unsigned_of_nat take_bit_eq_mod del: of_nat_diff)
  have sl: "slice out' 0 c = x # (l @ concat (map enc1 ts))" using r(4) by (simp add: x_def)
  then have c: "0 < c" "bm out' 0 = x" by (auto dest: slice_ConsD)
  have sum: "sum_list (map tok_len (Literals l # ts)) = n"
    using length_lz_run [of "Literals l # ts" "[]"] r(5) by simp
  have "\<exists>dst'. fastlz1_decompress src c dst maxout = Inr (n, dst') \<and> blen dst' = blen dst \<and>
          slice dst' 0 n = slice b 0 n"
    if s: "slice src 0 c = slice out' 0 c" "c \<le> blen src" "n \<le> maxout" "maxout \<le> blen dst" for src dst maxout
  proof -
    have tl: "bm src 0 = x" "slice src 1 (c - 1) = l @ concat (map enc1 ts)"
      using s(1) sl by (auto dest!: slice_ConsD)
    have "unat x AND 31 = unat x" using x by (simp add: nat_and_31)
    then show ?thesis
      using lz1_rounds_ok [of 0 "Literals l" ts x l src 1 c maxout dst] r(5,6) tl s(2-4) c(1) sum
      by (auto simp: fastlz1_decompress_def peek1_def x_def)
  qed
  with r(1-3) c x show ?thesis by blast
qed

section \<open>Decompression is memory-safe\<close>

lemma lz1_step_safe:
  assumes "n \<le> blen b" "maxout \<le> blen out" "op \<le> maxout" "32 \<le> ctrl \<longrightarrow> ip < n"
  shows "\<exists>r. lz1_step b n maxout ctrl ip op out = Inr r \<and>
    (\<forall>ip' op' out'. r = Some (ip', op', out') \<longrightarrow> op' \<le> maxout \<and> blen out' = blen out)"
proof (cases "32 \<le> ctrl")
  case True
  have mv: "\<exists>out'. fastlz_memmove out op (nat r) l = Inr out' \<and> blen out' = blen out"
    if "\<not> r < 0" "r < int op" "\<not> maxout < op + l" for r l
  proof -
    have "nat r < op" "op + l \<le> blen out" using that assms(2) by linarith+
    from fastlz_memmove_ok [OF this] show ?thesis by blast
  qed
  define ofs where "ofs = int (push_bit 8 (ctrl AND 31))"
  have "0 \<le> ofs" by (simp add: ofs_def)
  have "\<exists>out'. fastlz_memmove out op (nat (int op - ofs - 1 - int (unat c))) l = Inr out' \<and> blen out' = blen out"
    if "\<not> int op - ofs - 1 - int (unat (c :: u8)) < 0" "\<not> maxout < op + l" for c l
    using that \<open>0 \<le> ofs\<close> by (intro mv) linarith+
  note mv' = this
  have in1: "ip < blen b" and in2: "\<not> n < ip + 2 \<Longrightarrow> ip + 1 < blen b"
    using True assms by auto
  have tail: "\<exists>r. (if maxout < op + l then Inr None
        else if int op - ofs - 1 - int (unat (c :: u8)) < 0 then Inr None
        else res_bind (fastlz_memmove out op (nat (int op - ofs - 1 - int (unat c))) l)
               (\<lambda>out'. Inr (Some (ip', op + l, out')))) = Inr r \<and>
      (\<forall>ip' op' out'. r = Some (ip', op', out') \<longrightarrow> op' \<le> maxout \<and> blen out' = blen out)" for c l ip'
    using mv' [of c l] by (cases "maxout < op + l \<or> int op - ofs - 1 - int (unat c) < 0") auto
  show ?thesis
  proof (cases "drop_bit 5 ctrl - 1 = 7 - 1")
    case long: True
    show ?thesis
      unfolding lz1_step_def Let_def ofs_def [symmetric] peek1_def
      using True in1 in2 long
        tail [of "drop_bit 5 ctrl - 1 + unat (bm b ip) + 3" "bm b (ip + 1)" "ip + 1 + 1"]
      by (cases "n < ip + 2") auto
  next
    case False
    show ?thesis
      unfolding lz1_step_def Let_def ofs_def [symmetric] peek1_def
      using True in1 False
        tail [of "drop_bit 5 ctrl - 1 + 3" "bm b ip" "ip + 1"]
      by auto
  qed
next
  case False
  then show ?thesis
    using assms by (auto simp: lz1_step_def Let_def fastlz_memcpy_def peek_def poke_def)
qed

lemma lz1_rounds_safe:
  assumes "n \<le> blen b" "maxout \<le> blen out" "op \<le> maxout" "32 \<le> ctrl \<longrightarrow> ip < n"
  shows "\<exists>k out'. lz1_rounds b n maxout ctrl ip op out = Inr (k, out') \<and> k \<le> maxout \<and> blen out' = blen out"
  using assms
proof (induction "n - ip" arbitrary: ctrl ip op out rule: less_induct)
  case less
  obtain r where r: "lz1_step b n maxout ctrl ip op out = Inr r"
    "\<forall>ip' op' out'. r = Some (ip', op', out') \<longrightarrow> op' \<le> maxout \<and> blen out' = blen out"
    using lz1_step_safe [OF less.prems] by blast
  show ?case
  proof (cases r)
    case None
    with r(1) show ?thesis by (subst lz1_rounds.simps) simp
  next
    case (Some t)
    obtain ip' op' out' where t: "t = (ip', op', out')" by (cases t)
    have ge: "ip \<le> ip'" using r(1) lz1_step_ge unfolding Some t by blast
    show ?thesis
    proof (cases "n < ip' + 2")
      case True
      with r Some t show ?thesis by (subst lz1_rounds.simps) simp
    next
      case False
      then have "n - (ip' + 1) < n - ip" "ip' < blen b" using ge less.prems(1) by linarith+
      with less.hyps [of "ip' + 1" out' op' "unat (bm b ip')"] less.prems False r Some t
      show ?thesis by (subst lz1_rounds.simps) (simp add: peek1_def)
    qed
  qed
qed

lemma fastlz1_decompress_safe:
  assumes "0 < n" "n \<le> blen b" "maxout \<le> blen out"
  shows "\<exists>k out'. fastlz1_decompress b n out maxout = Inr (k, out') \<and> k \<le> maxout \<and> blen out' = blen out"
proof -
  have c: "\<not> 32 \<le> (unat (bm b 0) AND 31)" by (simp add: nat_and_31 not_le)
  show ?thesis
    using assms c lz1_rounds_safe [of n b maxout out 0 "unat (bm b 0) AND 31" 1]
    by (simp add: fastlz1_decompress_def peek1_def)
qed

end
