(* ===== verification/LZLevel2.thy ===== *)
theory LZLevel2
  imports LZRoundTrip
begin

unbundle bit_operations_syntax

text \<open>
  Level 2 of \<open>sim/fastlz.cc\<close>: longer matches, far distances and length bytes that chain. The loop shares
  the search and the literals with level 1; the lemmas here add the encoding of matches, the check for far
  matches, and the decoder.
\<close>

section \<open>Encoding of a match\<close>

definition len2 :: "nat \<Rightarrow> bytes" where
  "len2 k = replicate (k div 255) 255 @ [of_nat (k mod 255)]"

definition hi2 :: "nat \<Rightarrow> nat" where
  "hi2 dist = (if dist < MAX_L2_DISTANCE then drop_bit 8 dist else 31)"

definition dist2 :: "nat \<Rightarrow> bytes" where
  "dist2 dist = (if dist < MAX_L2_DISTANCE then [of_nat (dist AND 255)]
     else [255, of_nat (drop_bit 8 (dist - MAX_L2_DISTANCE)), of_nat ((dist - MAX_L2_DISTANCE) AND 255)])"

fun enc2 :: "token \<Rightarrow> bytes" where
  "enc2 (Literals bs) = of_nat (length bs - 1) # bs"
| "enc2 (Match d l) =
     (if l - 2 < 7 then of_nat (push_bit 5 (l - 2) + hi2 (d - 1)) # dist2 (d - 1)
      else of_nat (push_bit 5 7 + hi2 (d - 1)) # len2 (l - 2 - 7) @ dist2 (d - 1))"

definition lim2 :: "nat \<Rightarrow> nat \<Rightarrow> bool" where
  "lim2 d l \<longleftrightarrow> d < MAX_FARDISTANCE"

lemma poke_more:
  assumes "op + length xs + length ys \<le> blen out"
  shows "poke (poked out op xs) (op + length xs) ys = Inr (poked out op (xs @ ys))"
  using assms by (simp add: poke_def poked_poked)

lemma flz2_match_long_eq:
  assumes "op + length xs + len div 255 \<le> blen out"
  shows "flz2_match_long len (poked out op xs) (op + length xs) =
    Inr (len mod 255, op + length xs + len div 255, poked out op (xs @ replicate (len div 255) 255))"
  using assms
proof (induction len arbitrary: xs rule: less_induct)
  case (less len)
  show ?case
  proof (cases "255 \<le> len")
    case True
    then have d: "len div 255 = Suc ((len - 255) div 255)" "len mod 255 = (len - 255) mod 255"
      by (simp_all add: le_div_geq le_mod_geq)
    have "flz2_match_long (len - 255) (poked out op (xs @ [255])) (op + length (xs @ [255])) =
      Inr ((len - 255) mod 255, op + length (xs @ [255]) + (len - 255) div 255,
           poked out op ((xs @ [255]) @ replicate ((len - 255) div 255) 255))"
      using less.prems d(1) True by (intro less.IH) simp_all
    moreover have "poke (poked out op xs) (op + length xs) [255] = Inr (poked out op (xs @ [255]))"
      using less.prems d(1) by (intro poke_more) simp
    ultimately show ?thesis using True by (subst flz2_match_long.simps) (simp add: d)
  qed (subst flz2_match_long.simps, simp)
qed

lemma length_enc2:
  "length (dist2 dist) = (if dist < MAX_L2_DISTANCE then 1 else 3)" "length (len2 k) = k div 255 + 1"
  by (simp_all add: dist2_def len2_def)

lemma poke_chain:
  assumes "i = op + length xs" and "i + 1 \<le> blen out"
  shows "poke (poked out op xs) i [y] = Inr (poked out op (xs @ [y]))"
  using assms poke_more [of op xs "[y]" out] by simp

lemma flz2_match_emits:
  assumes "0 < d" and "op + length (enc2 (Match d (len + 2))) \<le> blen out"
  shows "emits (flz2_match len d out op) out op (enc2 (Match d (len + 2)))"
proof -
  obtain dist where d: "d = Suc dist" using assms(1) by (cases d) auto
  have "flz2_match len d out op = Inr (op + length (enc2 (Match d (len + 2))), poked out op (enc2 (Match d (len + 2))))"
  proof (cases "len < 7")
    case True
    then show ?thesis
      using assms(2) poke_chain [of op op "[]" out] poke_chain [of "op + 1" op "[x]" out for x]
        poke_chain [of "op + 2" op "[x, y]" out for x y] poke_chain [of "op + 3" op "[x, y, z]" out for x y z]
      by (simp add: flz2_match_def Let_def d hi2_def dist2_def split: if_splits)
  next
    case False
    define k where "k = len - 7"
    define h :: u8 where "h = of_nat (push_bit 5 7 + hi2 dist)"
    let ?xs = "h # replicate (k div 255) 255"
    have enc: "enc2 (Match d (len + 2)) = ?xs @ [of_nat (k mod 255)] @ dist2 dist"
      using False by (simp add: h_def k_def d len2_def)
    have room: "op + 1 + k div 255 + 1 + length (dist2 dist) \<le> blen out" using assms(2) unfolding enc by simp
    have long: "flz2_match_long k (poked out op [h]) (op + 1) = Inr (k mod 255, op + 1 + k div 255, poked out op ?xs)"
      using flz2_match_long_eq [of op "[h]" k out] room by simp
    let ?ys = "?xs @ [of_nat (k mod 255)]"
    have c1: "poke out op [h] = Inr (poked out op [h])" using room by (simp add: poke_def)
    have c2: "poke (poked out op ?xs) (op + 1 + k div 255) [of_nat (k mod 255)] = Inr (poked out op ?ys)"
      using poke_chain [of "op + 1 + k div 255" op ?xs out] room by simp
    have c3: "poke (poked out op ?ys) (op + 1 + k div 255 + 1) [x] = Inr (poked out op (?ys @ [x]))" for x
      using poke_chain [of "op + 1 + k div 255 + 1" op ?ys out x] room by (simp add: length_enc2 split: if_splits)
    have c4: "poke (poked out op (?ys @ [x])) (op + 1 + k div 255 + 2) [y] = Inr (poked out op (?ys @ [x, y]))"
      if "\<not> dist < MAX_L2_DISTANCE" for x y
      using poke_chain [of "op + 1 + k div 255 + 2" op "?ys @ [x]" out y] room that by (simp add: length_enc2 add.assoc)
    have c5: "poke (poked out op (?ys @ [x, y])) (op + 1 + k div 255 + 3) [z] = Inr (poked out op (?ys @ [x, y, z]))"
      if "\<not> dist < MAX_L2_DISTANCE" for x y z
      using poke_chain [of "op + 1 + k div 255 + 3" op "?ys @ [x, y]" out z] room that by (simp add: length_enc2 add.assoc)
    show ?thesis
    proof (cases "dist < MAX_L2_DISTANCE")
      case True
      have "flz2_match len d out op = res_bind (poke out op [h]) (\<lambda>out1. res_bind (flz2_match_long k out1 (op + 1)) (\<lambda>(len', op', out2).
          res_bind (poke out2 op' [of_nat len']) (\<lambda>out3. res_bind (poke out3 (op' + 1) [of_nat (dist AND 255)]) (\<lambda>out4. Inr (op' + 2, out4)))))"
        using False True by (simp add: flz2_match_def Let_def d k_def h_def hi2_def)
      then show ?thesis using True c1 long c2 c3 unfolding enc by (simp add: dist2_def)
    next
      case far: False
      let ?f = "dist - MAX_L2_DISTANCE"
      have "flz2_match len d out op = res_bind (poke out op [h]) (\<lambda>out1. res_bind (flz2_match_long k out1 (op + 1)) (\<lambda>(len', op', out2).
          res_bind (poke out2 op' [of_nat len']) (\<lambda>out3. res_bind (poke out3 (op' + 1) [255]) (\<lambda>out4.
          res_bind (poke out4 (op' + 2) [of_nat (drop_bit 8 ?f)]) (\<lambda>out5.
          res_bind (poke out5 (op' + 3) [of_nat (?f AND 255)]) (\<lambda>out6. Inr (op' + 4, out6)))))))"
        using False far by (simp add: flz2_match_def Let_def d k_def h_def hi2_def)
      then show ?thesis using far c1 long c2 c3 c4 [OF far] c5 [OF far] unfolding enc by (simp add: dist2_def)
    qed
  qed
  then show ?thesis by (simp add: emits_def slice_poked)
qed

section \<open>The compressor writes tokens\<close>

lemma length_enc2_match:
  assumes "0 < len" and "MAX_L2_DISTANCE < d \<longrightarrow> 3 \<le> len"
  shows "length (enc2 (Match d (len + 2))) \<le> len + 1"
proof (cases "len < 7")
  case True
  then show ?thesis using assms by (simp add: length_enc2 MAX_L2_DISTANCE_def)
next
  case False
  have "(len - 7) div 255 \<le> len - 7" by simp
  moreover have "length (dist2 (d - 1)) \<le> 3" by (simp add: length_enc2)
  ultimately show ?thesis using False by (simp add: length_enc2)
qed

lemma far_mismatch_eq:
  assumes "ref + 4 < blen b" and "ip + 4 < blen b"
  shows "far_mismatch b d ref ip = Inr (MAX_L2_DISTANCE \<le> d \<and> \<not> (bm b (ref + 3) = bm b (ip + 3) \<and> bm b (ref + 4) = bm b (ip + 4)))"
  using assms by (simp add: far_mismatch_def peek1_def)

lemma lz2_loop_ok:
  assumes "n + 1 \<le> blen b" and "33 * n + 1100 \<le> 32 * blen out"
    and "\<forall>h. htab h < ip" and "anchor \<le> ip" and "anchor = 0 \<or> anchor < n" and "0 < ip"
    and "lz_inv enc2 lim2 b anchor op out"
  shows "\<exists>anchor' op' out'. lz2_loop b n ip anchor htab op out = Inr (anchor', op', out') \<and>
    (anchor' = 0 \<or> anchor' < n) \<and> blen out' = blen out \<and> lz_inv enc2 lim2 b anchor' op' out'"
  using assms
proof (induction "n - ip" arbitrary: ip anchor htab op out rule: less_induct)
  case less
  obtain ip1 ref d htab1 where find: "ip + 13 < n \<Longrightarrow> lz_find MAX_FARDISTANCE b n ip htab = Inr (ip1, ref, d, htab1)"
    using lz_find_ok [of ip n b htab MAX_FARDISTANCE] less.prems(1,3) by (cases "ip + 13 < n") auto
  show ?case
  proof (cases "ip + 13 < n \<and> \<not> n \<le> ip1 + 13")
    case False
    then show ?thesis using less.prems find by (subst lz2_loop.simps) auto
  next
    case True
    then have lt: "ip + 13 < n" "\<not> n \<le> ip1 + 13" by auto
    from lt(1) less.prems(1,3) find [OF lt(1)] lt(2) obtain ip2 len w where f: "ip1 = Suc ip2" "ip \<le> ip2" "d < MAX_FARDISTANCE"
      "\<forall>h. htab1 h < Suc ip2" "flz_cmp b (ref + 3) (ip2 + 3) (n - 4) = Inr len" "match_at b n ip2 ref d len"
      "bm b (ref + 3) = bm b (ip2 + 3) \<and> bm b (ref + 4) = bm b (ip2 + 4) \<longrightarrow> 3 \<le> len"
      "flz_readu32 b (ip2 + len) = Inr w"
      by (rule lz_found)
    have m: "0 < len" "0 < d" "d \<le> ip2" "ip2 + len + 3 \<le> n" "ref + d = ip2" "ip2 + 15 \<le> n"
      using f(6) by (auto simp: match_at_def)
    define mis where "mis \<longleftrightarrow> MAX_L2_DISTANCE \<le> d \<and> \<not> (bm b (ref + 3) = bm b (ip2 + 3) \<and> bm b (ref + 4) = bm b (ip2 + 4))"
    have far: "far_mismatch b d ref ip2 = Inr mis"
      unfolding mis_def using m less.prems(1) by (intro far_mismatch_eq) linarith+
    show ?thesis
    proof (cases mis)
      case True
      have "lz2_loop b n ip anchor htab op out = lz2_loop b n (Suc ip2) anchor htab1 op out"
        using lt find [OF lt(1)] far True by (subst lz2_loop.simps) (simp add: Let_def f(1))
      moreover have "n - Suc ip2 < n - ip" using f(2) m(6) by linarith
      ultimately show ?thesis
        using less.hyps [of "Suc ip2" out htab1 anchor op] less.prems f(2,4) by simp
    next
      case False
      then have "length (enc2 (Match d (len + 2))) \<le> len + 1"
        using f(7) by (intro length_enc2_match [OF m(1)]) (auto simp: mis_def)
      then obtain op1 out1 op2 out2 where r: "(if anchor < ip2 then flz_literals (ip2 - anchor) b anchor out op else Inr (op, out)) = Inr (op1, out1)"
        "flz2_match len d out1 op1 = Inr (op2, out2)" "blen out2 = blen out" "lz_inv enc2 lim2 b (ip2 + len + 2) op2 out2"
        using lz_round [where mat = "flz2_match len d" and ms = "[Match d (len + 2)]", OF less.prems(1,2) _ _ less.prems(7) f(6)]
          less.prems(4,6) f(2,3) m flz2_match_emits [OF m(2)]
        by (force simp: lim2_def simp del: enc2.simps(2))
      let ?htab = "htab1(unat (flz_hash (w AND 0xffffff)) := ip2 + len, unat (flz_hash (drop_bit 8 w)) := ip2 + len + 1)"
      have step: "lz2_loop b n ip anchor htab op out = lz2_loop b n (ip2 + len + 2) (ip2 + len + 2) ?htab op2 out2"
        using lt find [OF lt(1)] far False f(5,8) r(1,2) by (subst lz2_loop.simps) (simp add: Let_def f(1))
      have "?htab h < ip2 + len + 2" for h using f(4) [rule_format, of h] by simp
      moreover have "n - (ip2 + len + 2) < n - ip" using f(2) m(4) by linarith
      ultimately show ?thesis
        unfolding step r(3) [symmetric] using less.hyps [of "ip2 + len + 2" out2 ?htab "ip2 + len + 2" op2] less.prems(1,2) r(3,4) m(4) by simp
    qed
  qed
qed

text \<open>The compressor of level 2 marks its level in the first control byte, the length of a run of literals.\<close>

lemma fastlz2_compress_ok:
  assumes "0 < n" and "n + 1 \<le> blen b" and "33 * n + 1100 \<le> 32 * blen out"
  shows "\<exists>c out' out1 toks. fastlz2_compress b n out = Inr (c, out') \<and> blen out' = blen out \<and> 0 < c \<and>
    32 * c \<le> 33 * n + 31 \<and> lz_stream enc2 lim2 (slice out1 0 c) toks (slice b 0 n) \<and>
    out' = poked out1 0 [bm out1 0 OR 32]"
proof -
  obtain anchor op out0 where loop: "lz2_loop b n 2 0 (\<lambda>_. 0) 0 out = Inr (anchor, op, out0)"
    "anchor = 0 \<or> anchor < n" "blen out0 = blen out" "lz_inv enc2 lim2 b anchor op out0"
    using lz2_loop_ok [OF assms(2,3), of "\<lambda>_. 0" 2 0 0] lz_inv_start by auto
  obtain c out1 toks where fin: "flz_finalize (n - anchor) b anchor out0 op = Inr (c, out1)" "blen out1 = blen out"
    "32 * c \<le> 33 * n + 31" "lz_stream enc2 lim2 (slice out1 0 c) toks (slice b 0 n)"
    using lz_finish [OF loop(4,2) assms(1,2)] assms(3) loop(3) by fastforce
  have "slice out1 0 c \<noteq> []" using fin(4) by (auto simp: lz_stream_def)
  then have c: "0 < c" by (auto simp: slice_def)
  have "fastlz2_compress b n out = Inr (c, poked out1 0 [bm out1 0 OR 32])"
    using loop(1) fin(1,2) assms(3) by (simp add: fastlz2_compress_def peek1_def poke_def)
  with fin(2-4) c show ?thesis by (intro exI) auto
qed

section \<open>The decompressor runs tokens\<close>

lemma ctrl_byte2:
  assumes "q < 8" and "h < 32"
  shows "unat (of_nat (push_bit 5 q + h) :: u8) = 32 * q + h" and "drop_bit 5 (32 * q + h) = q"
    and "push_bit 8 ((32 * q + h) AND 31) = 256 * h"
  using assms by (simp_all add: push_bit_eq_mult drop_bit_eq_div nat_and_31 unsigned_of_nat take_bit_eq_mod mult.commute del: of_nat_add)

lemma lz2_length_ok:
  assumes "slice b ip (length (len2 k)) = len2 k" and "ip + length (len2 k) + 1 \<le> n" and "n \<le> blen b"
  shows "lz2_length b n len ip = Inr (Some (len + k, ip + length (len2 k)))"
  using assms
proof (induction k arbitrary: ip len rule: less_induct)
  case (less k)
  show ?case
  proof (cases "255 \<le> k")
    case True
    then have l2: "len2 k = 255 # len2 (k - 255)" by (simp add: len2_def le_div_geq le_mod_geq)
    have hd: "bm b ip = 255" "slice b (Suc ip) (length (len2 (k - 255))) = len2 (k - 255)"
      using less.prems(1) by (auto simp: l2 slice_Suc)
    have "lz2_length b n (len + 255) (Suc ip) = Inr (Some (len + 255 + (k - 255), Suc ip + length (len2 (k - 255))))"
      using less.prems(2,3) hd(2) True by (intro less.IH) (simp_all add: l2)
    then show ?thesis
      using less.prems(2,3) hd(1) True by (subst lz2_length.simps) (simp add: l2 peek1_def)
  next
    case False
    then have l2: "len2 k = [of_nat k]" by (simp add: len2_def)
    have u: "unat (of_nat k :: u8) = k" using False by (simp add: unsigned_of_nat take_bit_eq_mod)
    then have "(of_nat k :: u8) \<noteq> 255" using False by (auto dest: arg_cong [of _ _ unat])
    then show ?thesis
      using less.prems u by (subst lz2_length.simps) (simp add: l2 peek1_def slice_def)
  qed
qed

lemma lz2_step_dist:
  assumes ctrl: "32 \<le> ctrl" "drop_bit 5 ctrl = Suc p" "push_bit 8 (ctrl AND 31) = 256 * hi2 dist"
    and len: "(if p = 6 then lz2_length b n p ip else Inr (Some (p, ip))) = Inr (Some (len, ip'))"
    and sl: "slice b ip' (length (dist2 dist)) = dist2 dist" and n: "ip' + length (dist2 dist) < n" "n \<le> blen b"
    and d: "dist < MAX_FARDISTANCE" "dist < op" and out: "op + (len + 3) \<le> maxout"
      "fastlz_memmove out op (op - Suc dist) (len + 3) = Inr out'"
  shows "lz2_step b n maxout ctrl ip op out = Inr (Some (ip' + length (dist2 dist), op + (len + 3), out'))"
proof (cases "dist < MAX_L2_DISTANCE")
  case True
  have hi: "hi2 dist = dist div 256" using True by (simp add: hi2_def drop_bit_eq_div)
  have code: "peek1 b ip' = Inr (of_nat (dist AND 255))" "unat (of_nat (dist AND 255) :: u8) = dist mod 256"
    using sl n True by (simp_all add: dist2_def peek1_def slice_def nat_and_255 unsigned_of_nat take_bit_eq_mod)
  then have uc: "uint (of_nat (dist AND 255) :: u8) = int (dist mod 256)" by (metis uint_nat)
  have ref: "int op - int (256 * (dist div 256)) - 1 - int (dist mod 256) = int (op - Suc dist)"
    using d(2) mult_div_mod_eq [of 256 dist] by linarith
  have near: "\<not> ((of_nat (dist AND 255) :: u8) = 255 \<and> 256 * (dist div 256) = push_bit 8 31)"
  proof
    assume "(of_nat (dist AND 255) :: u8) = 255 \<and> 256 * (dist div 256) = push_bit 8 31"
    then have "dist mod 256 = 255" "256 * (dist div 256) = 7936" using code(2) by (auto simp: push_bit_eq_mult)
    then show False using True mult_div_mod_eq [of 256 dist] by (simp add: MAX_L2_DISTANCE_def)
  qed
  show ?thesis
    unfolding lz2_step_def Let_def ctrl(2,3) hi diff_Suc_1 using ctrl(1) len code uc near out ref True
    by (cases "dist div 256 = 31") (simp_all add: dist2_def)
next
  case False
  define f where "f = dist - MAX_L2_DISTANCE"
  have f: "dist = MAX_L2_DISTANCE + f" "f < 65536" using False d(1) by (simp_all add: f_def MAX_FARDISTANCE_def MAX_L2_DISTANCE_def)
  have d2: "dist2 dist = [255, of_nat (drop_bit 8 f), of_nat (f AND 255)]" "hi2 dist = 31"
    using False by (simp_all add: dist2_def hi2_def f_def)
  have p: "peek1 b ip' = Inr 255" "peek1 b (ip' + 1) = Inr (of_nat (drop_bit 8 f))" "peek1 b (ip' + 1 + 1) = Inr (of_nat (f AND 255))"
    using sl n unfolding d2 by (simp_all add: peek1_def slice_Suc numeral_3_eq_3)
  have u: "unat (of_nat (drop_bit 8 f) :: u8) = f div 256" "unat (of_nat (f AND 255) :: u8) = f mod 256"
    using f(2) by (simp_all add: drop_bit_eq_div nat_and_255 unsigned_of_nat take_bit_eq_mod less_mult_imp_div_less)
  then have uf: "uint (of_nat (f AND 255) :: u8) = int (f mod 256)" by (metis uint_nat)
  have "uint (of_nat (drop_bit 8 f) :: u8) = int (f div 256)" using u(1) by (metis uint_nat)
  then have ref: "int op - (uint (of_nat (drop_bit 8 f) :: u8) * 256 + int (f mod 256)) - int MAX_L2_DISTANCE = int (op - Suc dist) + 1"
    using d(2) f(1) div_mult_mod_eq [of f 256] by linarith
  show ?thesis
    unfolding lz2_step_def Let_def ctrl(2,3) d2(2) diff_Suc_1 using ctrl(1) len p uf out ref n(1)
    by (simp add: d2(1) push_bit_eq_mult)
qed

lemma match_round2:
  assumes d: "0 < d" "d \<le> op" and l: "3 \<le> l" and lim: "lim2 d l"
    and cs: "slice b ip (length cs) = cs" and enc: "enc2 (Match d l) = c # cs"
    and n: "ip + length cs < n" "n \<le> blen b" and out: "op + l \<le> maxout" "maxout \<le> blen out"
  shows "runs_token (lz2_step b n maxout (unat c) ip op out) (ip + length cs) op out (Match d l)"
proof -
  obtain dist where dist: "d = Suc dist" using d(1) by (cases d) auto
  obtain p where p: "l = p + 3" using l by (metis add.commute le_Suc_ex)
  define q where "q = min p 6"
  have q: "Suc q < 8" by (simp add: q_def)
  have far: "dist < MAX_FARDISTANCE" using lim by (simp add: lim2_def dist)
  have h: "hi2 dist < 32" by (simp add: hi2_def drop_bit_eq_div MAX_L2_DISTANCE_def less_mult_imp_div_less)
  have c: "c = of_nat (push_bit 5 (Suc q) + hi2 dist)" "cs = (if p < 6 then [] else len2 (p - 6)) @ dist2 dist"
    using enc by (auto simp: p dist q_def min_def split: if_splits)
  define pre where "pre = (if p < 6 then [] else len2 (p - 6))"
  note cb = ctrl_byte2 [OF q h, folded c(1)]
  have sl: "slice b ip (length pre) = pre" "slice b (ip + length pre) (length (dist2 dist)) = dist2 dist"
    using cs slice_add [of b ip "length pre" "length (dist2 dist)"] by (simp_all add: c(2) pre_def split: if_splits)
  have lc: "length cs = length pre + length (dist2 dist)" "0 < length (dist2 dist)" by (simp_all add: c(2) pre_def length_enc2)
  have len: "(if q = 6 then lz2_length b n q ip else Inr (Some (q, ip))) = Inr (Some (p, ip + length pre))"
    using lz2_length_ok [of b ip "p - 6" n 6] sl(1) n lc by (auto simp: q_def min_def pre_def split: if_splits)
  obtain out' where mv: "fastlz_memmove out op (op - d) l = Inr out'" "blen out' = blen out"
    "slice out' 0 (op + l) = copy_back d l (slice out 0 op)"
    using fastlz_memmove_ok [of "op - d" op l out] d out by auto
  have "lz2_step b n maxout (unat c) ip op out = Inr (Some (ip + length pre + length (dist2 dist), op + (p + 3), out'))"
  proof (rule lz2_step_dist [OF _ _ _ len sl(2) _ n(2) far])
    show "32 \<le> unat c" unfolding cb(1) by simp
    show "drop_bit 5 (unat c) = Suc q" unfolding cb(1) by (rule cb(2))
    show "push_bit 8 (unat c AND 31) = 256 * hi2 dist" unfolding cb(1) by (rule cb(3))
  qed (use n(1) lc d(2) out(1) mv(1) in \<open>simp_all add: dist p\<close>)
  then show ?thesis using mv(2,3) lc(1) by (simp add: runs_token_def p add.assoc)
qed

lemma token_round2:
  assumes "tok_ok lim2 op t" and "enc2 t = c # cs" and "slice b ip (length cs) = cs"
    and "ip + length cs < n \<or> ip + length cs = n \<and> (\<exists>bs. t = Literals bs)" and "n \<le> blen b"
    and "op + tok_len t \<le> maxout" and "maxout \<le> blen out"
  shows "runs_token (lz2_step b n maxout (unat c) ip op out) (ip + length cs) op out t"
proof (cases t)
  case (Literals bs)
  then have "unat c = length bs - 1" "cs = bs"
    using assms(1,2) by (auto simp: unsigned_of_nat take_bit_eq_mod simp del: of_nat_diff)
  with Literals assms literal_round(2) [of b ip bs n op maxout out] show ?thesis by auto
next
  case (Match d l)
  with assms match_round2 [of d op l b ip cs c n maxout out] show ?thesis by simp
qed

lemma enc2_Cons: "\<exists>c cs. enc2 t = c # cs"
  by (cases t) auto

lemma lz2_rounds_ok:
  assumes "toks_ok lim2 op (t # ts)" and "enc2 t = c # cs" and "\<exists>us l. t # ts = us @ [Literals l]"
    and "slice b ip (n - ip) = cs @ concat (map enc2 ts)" and "ip \<le> n" and "n \<le> blen b"
    and "op + sum_list (map tok_len (t # ts)) \<le> maxout" and "maxout \<le> blen out"
  shows "\<exists>out'. lz2_rounds b n maxout (unat c) ip op out =
      Inr (op + sum_list (map tok_len (t # ts)), out') \<and> blen out' = blen out \<and>
    slice out' 0 (op + sum_list (map tok_len (t # ts))) = lz_run (t # ts) (slice out 0 op)"
  using assms
proof (induction ts arbitrary: t c cs ip op out)
  case Nil
  have n: "n = ip + length cs" "slice b ip (length cs) = cs"
    using arg_cong [OF Nil.prems(4), of length] Nil.prems(4,5) by auto
  obtain out' where "lz2_step b n maxout (unat c) ip op out = Inr (Some (n, op + tok_len t, out'))"
    "blen out' = blen out" "slice out' 0 (op + tok_len t) = lz_token t (slice out 0 op)"
    using token_round2 [of op t c cs b ip n maxout out] Nil.prems n by (auto simp: runs_token_def)
  then show ?case by (subst lz2_rounds.simps) simp
next
  case (Cons t' ts)
  obtain c' xs where enc: "enc2 t' = c' # xs" using enc2_Cons by blast
  let ?ip = "ip + length cs"
  have len: "n - ip = length cs + length (concat (map enc2 (t' # ts)))"
    using arg_cong [OF Cons.prems(4), of length] by simp
  then have len': "n - ?ip = length (concat (map enc2 (t' # ts)))" by simp
  have "slice b ip (n - ip) = slice b ip (length cs) @ slice b ?ip (n - ?ip)"
    using slice_add [of b ip "length cs" "n - ?ip"] len len' by simp
  then have sl: "slice b ip (length cs) = cs" "slice b ?ip (n - ?ip) = concat (map enc2 (t' # ts))"
    using Cons.prems(4) by simp_all
  have n: "?ip + 1 \<le> n" using len Cons.prems(5) enc by simp
  obtain out1 where o1: "lz2_step b n maxout (unat c) ip op out = Inr (Some (?ip, op + tok_len t, out1))"
    "blen out1 = blen out" "slice out1 0 (op + tok_len t) = lz_token t (slice out 0 op)"
    using token_round2 [of op t c cs b ip n maxout out] Cons.prems n sl(1) by (auto simp: runs_token_def)
  have "n - ?ip = Suc (n - (?ip + 1))" using n by simp
  then have hd: "bm b ?ip = c'" "slice b (?ip + 1) (n - (?ip + 1)) = xs @ concat (map enc2 ts)"
    using sl(2) enc slice_Suc [of b ?ip "n - (?ip + 1)"] by auto
  have last: "\<exists>us l. t' # ts = us @ [Literals l]" using Cons.prems(3) by (auto simp: Cons_eq_append_conv)
  obtain out' where "lz2_rounds b n maxout (unat c') (?ip + 1) (op + tok_len t) out1 =
      Inr (op + tok_len t + sum_list (map tok_len (t' # ts)), out')" "blen out' = blen out1"
    "slice out' 0 (op + tok_len t + sum_list (map tok_len (t' # ts))) =
       lz_run (t' # ts) (slice out1 0 (op + tok_len t))"
    using Cons.IH [OF _ enc last hd(2), of "op + tok_len t" out1] Cons.prems n o1(2) by auto
  with o1 n hd(1) Cons.prems(6) show ?case
    by (subst lz2_rounds.simps) (simp add: peek1_def add.assoc)
qed

lemma level_bit:
  assumes "unat (x :: u8) < 32"
  shows "unat (x OR 32) = unat x + 32"
proof -
  have "\<forall>n \<in> set [0..<32]. unat ((of_nat n :: u8) OR 32) = n + 32" by code_simp
  then have "unat x \<in> set [0..<32] \<Longrightarrow> unat ((of_nat (unat x) :: u8) OR 32) = unat x + 32" by (rule bspec)
  then show ?thesis using assms by (simp del: upt_rec_numeral)
qed

lemma fastlz2_roundtrip:
  assumes "0 < n" and "n + 1 \<le> blen b" and "33 * n + 1100 \<le> 32 * blen out"
  shows "\<exists>c out'. fastlz2_compress b n out = Inr (c, out') \<and> blen out' = blen out \<and> 0 < c \<and>
    32 * c \<le> 33 * n + 31 \<and> drop_bit 5 (unat (bm out' 0)) = 1 \<and>
    (\<forall>src dst maxout. slice src 0 c = slice out' 0 c \<and> c \<le> blen src \<and> n \<le> maxout \<and> maxout \<le> blen dst \<longrightarrow>
       (\<exists>dst'. fastlz2_decompress src c dst maxout = Inr (n, dst') \<and> blen dst' = blen dst \<and>
          slice dst' 0 n = slice b 0 n))"
proof -
  obtain c out' out1 l ts where r: "fastlz2_compress b n out = Inr (c, out')" "blen out' = blen out" "0 < c"
    "32 * c \<le> 33 * n + 31" "slice out1 0 c = concat (map enc2 (Literals l # ts))" "lz_run (Literals l # ts) [] = slice b 0 n"
    "toks_ok lim2 0 (Literals l # ts)" "\<exists>us k. Literals l # ts = us @ [Literals k]" "out' = poked out1 0 [bm out1 0 OR 32]"
    using fastlz2_compress_ok [OF assms] unfolding lz_stream_def by blast
  define x :: u8 where "x = of_nat (length l - 1)"
  have l: "0 < length l" "length l \<le> 32" using r(7) by auto
  then have x: "unat x < 32" unfolding x_def by (simp add: unsigned_of_nat take_bit_eq_mod del: of_nat_diff)
  have "slice out1 0 c = x # (l @ concat (map enc2 ts))" using r(5) by (simp add: x_def)
  then have o1: "bm out1 0 = x" "slice out1 1 (c - 1) = l @ concat (map enc2 ts)" by (auto dest: slice_ConsD)
  have o2: "bm out' 0 = x OR 32" "slice out' 1 (c - 1) = l @ concat (map enc2 ts)"
    using o1 slice_poked_above [of 0 "[x OR 32]" 1 out1 "c - 1"] by (simp_all add: r(9) bm_poked1)
  have u: "unat (x OR 32) = unat x + 32" "(unat x + 32) AND 31 = unat x" using level_bit [OF x] x by (simp_all add: nat_and_31)
  have sum: "sum_list (map tok_len (Literals l # ts)) = n"
    using length_lz_run [of "Literals l # ts" "[]"] r(6) by simp
  have "\<exists>dst'. fastlz2_decompress src c dst maxout = Inr (n, dst') \<and> blen dst' = blen dst \<and> slice dst' 0 n = slice b 0 n"
    if s: "slice src 0 c = slice out' 0 c" "c \<le> blen src" "n \<le> maxout" "maxout \<le> blen dst" for src dst maxout
  proof -
    have tl: "bm src 0 = x OR 32" "slice src 1 (c - 1) = l @ concat (map enc2 ts)"
      using s(1) r(3) o2 by (cases c; simp add: slice_Suc)+
    show ?thesis
      using lz2_rounds_ok [of 0 "Literals l" ts x l src 1 c maxout dst] r(3,6-8) tl s(2-4) sum u
      by (auto simp: fastlz2_decompress_def peek1_def x_def)
  qed
  moreover have "drop_bit 5 (unat (bm out' 0)) = 1" using x by (simp add: o2(1) u(1) drop_bit_eq_div)
  ultimately show ?thesis using r(1-4) by blast
qed

end
