(* ===== verification/SaveFLoads.thy ===== *)
theory SaveFLoads
  imports FirstLoads LZLevel2
begin

unbundle bit_operations_syntax

text \<open>
  \<open>sim/ckpt_saveFLoads.cc\<close>: first loads are cut into windows of 4096 bytes, each written as
  its address, its size, a bit map of its 512 words and the words that are not zero; windows
  are collected in a buffer and compressed when it is full or at the last window.
\<close>

section \<open>The bit map of a window\<close>

definition MaxCoverSize :: nat where "MaxCoverSize = 4096"

definition zero_buf :: "nat \<Rightarrow> cbuf" where
  "zero_buf n = \<lparr>bm = (\<lambda>_. 0), blen = n\<rparr>"

fun compress_bits :: "nat \<Rightarrow> cbuf \<Rightarrow> nat \<Rightarrow> u32 \<Rightarrow> u32 res" where
  "compress_bits 0 map1 i data = Inr data"
| "compress_bits (Suc j) map1 i data =
     res_bind (peek1 map1 (i * 8 + j)) (\<lambda>x. compress_bits j map1 i (push_bit 1 data + ucast x))"

definition compress_map :: "cbuf \<Rightarrow> cbuf \<Rightarrow> nat \<Rightarrow> cbuf res" where
  "compress_map map1 bitmap sz =
     res_fold (\<lambda>i bitmap. res_bind (compress_bits 8 map1 i 0) (\<lambda>data. poke bitmap i [ucast data]))
       [0..<drop_bit 3 sz] bitmap"

section \<open>One window\<close>

definition flag_word :: "cbuf \<Rightarrow> cbuf \<Rightarrow> nat \<Rightarrow> cbuf res" where
  "flag_word pagedata map1 w =
     res_bind (peek pagedata (w * 8) 8) (\<lambda>bs. poke map1 w [if un64 bs = 0 then 0 else 1])"

definition fill_record :: "u64 \<Rightarrow> FirstLoadInfo \<Rightarrow> cbuf \<times> cbuf \<Rightarrow> (cbuf \<times> cbuf) res" where
  "fill_record base l st =
     (case st of (map1, pagedata) \<Rightarrow>
      let offset = unat (fl_addr l - base);
          a1 = offset mod 8;
          w = drop_bit 3 (offset - a1)
      in res_bind (poke pagedata offset (fl_data l)) (\<lambda>pagedata'.
         res_bind (flag_word pagedata' map1 w) (\<lambda>map1'.
           if a1 \<noteq> 0 then res_bind (flag_word pagedata' map1' (w + 1)) (\<lambda>map1''. Inr (map1'', pagedata'))
           else Inr (map1', pagedata'))))"

definition push_word :: "cbuf \<Rightarrow> nat \<Rightarrow> u64 list \<Rightarrow> u64 list res" where
  "push_word b i sdata = res_bind (peek b i 8) (\<lambda>bs. Inr (sdata @ [un64 bs]))"

text \<open>
  The vector \<open>sdata\<close> of the window of \<open>ls\<close>. The arrays are static and the parts in use are
  cleared by \<open>memset\<close>, the rest is never written, so each window starts from zeros.
\<close>

definition window_data :: "u64 \<Rightarrow> FirstLoadInfo list \<Rightarrow> u64 list res" where
  "window_data base ls =
     res_bind (res_fold (fill_record base) ls (zero_buf MaxCoverSize, zero_buf MaxCoverSize))
       (\<lambda>(map1, pagedata).
     res_bind (compress_map map1 (zero_buf MaxCoverSize) (MaxCoverSize div 8)) (\<lambda>bitmap.
     res_bind (res_fold (\<lambda>c. push_word bitmap (8 * c)) [0..<MaxCoverSize div 64 div 8]
                 [base, of_nat MaxCoverSize]) (\<lambda>sdata.
       res_fold (\<lambda>c sdata. res_bind (peek1 map1 c) (\<lambda>x.
                   if x = 1 then push_word pagedata (c * 8) sdata else Inr sdata))
         [0..<MaxCoverSize div 8] sdata)))"

section \<open>The compressed stream\<close>

definition MaxCompressSize :: nat where "MaxCompressSize = 1024 * 1024 * 30"
definition ExtraDataSize :: nat where "ExtraDataSize = 1024 * 6"

record compstate =
  tempdata :: cbuf
  compdata :: cbuf
  tdsize :: nat
  infonum :: nat

definition compstate_init :: compstate where
  "compstate_init = \<lparr>tempdata = zero_buf (MaxCompressSize + ExtraDataSize),
     compdata = zero_buf (MaxCompressSize * 2), tdsize = 0, infonum = 0\<rparr>"

definition append_word :: "u64 \<Rightarrow> compstate \<Rightarrow> compstate res" where
  "append_word d s = res_bind (poke (tempdata s) (tdsize s) (le64 d)) (\<lambda>t.
     Inr (s\<lparr>tempdata := t, tdsize := tdsize s + 8\<rparr>))"

text \<open>The result is the new state and the bytes written to the file.\<close>

definition compress_write :: "u64 list \<Rightarrow> nat \<Rightarrow> bool \<Rightarrow> compstate \<Rightarrow> (compstate \<times> bytes) res" where
  "compress_write data complevel isend s0 =
     res_bind (res_fold append_word data s0) (\<lambda>s1.
       let s = s1\<lparr>infonum := infonum s1 + 1\<rparr>
       in if tdsize s < MaxCompressSize \<and> \<not> isend then Inr (s, [])
          else res_bind (fastlz_compress_level complevel (tempdata s) (tdsize s) (compdata s)) (\<lambda>(compsize, cd).
               res_bind (peek cd 0 compsize) (\<lambda>out.
                 Inr (s\<lparr>compdata := cd, tdsize := 0, infonum := 0\<rparr>,
                      le64 (of_nat compsize) @ le64 (of_nat (infonum s)) @ out))))"

section \<open>Saving the first loads\<close>

definition in_window :: "u64 \<Rightarrow> FirstLoadInfo \<Rightarrow> bool" where
  "in_window endaddr l \<longleftrightarrow> \<not> fl_addr l + 8 > endaddr"

text \<open>The outer loop: \<open>i\<close> jumps behind the window of \<open>linfos[i]\<close>.\<close>

function save_windows :: "FirstLoadInfo list \<Rightarrow> compstate \<Rightarrow> bytes \<Rightarrow> (compstate \<times> bytes) res" where
  "save_windows [] s out = Inr (s, out)"
| "save_windows (l # ls) s out =
     (let endaddr = fl_addr l + of_nat MaxCoverSize;
          ws = takeWhile (in_window endaddr) ls;
          next = dropWhile (in_window endaddr) ls
      in res_bind (window_data (fl_addr l) (l # ws)) (\<lambda>sdata.
         res_bind (compress_write sdata 1 (next = []) s) (\<lambda>(s', bs). save_windows next s' (out @ bs))))"
  by pat_completeness auto
termination
  by (relation "measure (\<lambda>(ls, _). length ls)") (auto simp: le_imp_less_Suc length_dropWhile_le)

definition compTag :: u64 where "compTag = 0x123456 + 2"

definition saveFLoads_comp :: "FirstLoadInfo list \<Rightarrow> compstate \<Rightarrow> (compstate \<times> bytes) res" where
  "saveFLoads_comp linfos s =
     res_bind (save_windows linfos s (le64 compTag)) (\<lambda>(s', out). Inr (s', out @ le64 0))"

text \<open>The uncompressed form: the number of records, then the array as it is in memory.\<close>

definition fl_bytes :: "FirstLoadInfo \<Rightarrow> bytes" where
  "fl_bytes l = le64 (fl_addr l) @ fl_data l"

definition saveFLoads :: "FirstLoadInfo list \<Rightarrow> bytes" where
  "saveFLoads firstloads = le64 (of_nat (length firstloads)) @ concat (map fl_bytes firstloads)"

end
