(* ===== verification/CkptFile.thy ===== *)
theory CkptFile
  imports FirstLoads Ranges SysInfo SaveFLoads
begin

unbundle bit_operations_syntax

text \<open>
  One pending checkpoint (\<open>class CkptInfo\<close> of \<open>sim/ckptinfo.hh\<close>) and the end of its slice
  (\<open>detectOver\<close>, \<open>saveCkptInfo\<close> of \<open>sim/ckptinfo.cc\<close>): the recorded accesses, pages and calls are
  turned into ranges and first loads and written to the checkpoint file.
\<close>

section \<open>The object\<close>

record CkptInfo =
  ck_filename :: string
  ck_startnum :: u64
  ck_simNums :: u64
  ck_length :: u64
  ck_exit_pc :: u64
  ck_pc :: u64
  ck_npc :: u64
  ck_warmup :: u64
  ck_intregs :: "u64 list"
  ck_fpregs :: "u64 list"
  ck_instinfo :: "u64 list"
  ck_textsize :: u64
  ck_memsize :: u64
  ck_loads :: "LoadInfo list"
  ck_firstloads :: "FirstLoadInfo list"
  ck_memrange :: "CodeRange list"
  ck_textrange :: "CodeRange list"
  ck_sysinfos :: "SyscallInfo list"
  ck_preAccess :: access_map
  ck_textAccess :: "u64 set"

text \<open>
  The constructor; \<open>simNums\<close>, \<open>exit_pc\<close> and the sizes are not initialised by the code and are set
  before they are read, so they are 0 here.
\<close>

definition CkptInfo_new ::
  "u64 \<Rightarrow> u64 \<Rightarrow> u64 \<Rightarrow> u64 list \<Rightarrow> u64 list \<Rightarrow> u64 \<Rightarrow> u64 \<Rightarrow> string \<Rightarrow> u64 list \<Rightarrow> CkptInfo" where
  "CkptInfo_new startnum len warmup intregs fpregs pc npc filename instinfo =
     \<lparr>ck_filename = (if length filename < 1 then ''bench'' else filename), ck_startnum = startnum,
      ck_simNums = 0, ck_length = len, ck_exit_pc = 0, ck_pc = pc, ck_npc = npc, ck_warmup = warmup,
      ck_intregs = take 32 intregs, ck_fpregs = take 32 fpregs, ck_instinfo = take 10 instinfo,
      ck_textsize = 0, ck_memsize = 0, ck_loads = [], ck_firstloads = [], ck_memrange = [],
      ck_textrange = [], ck_sysinfos = [], ck_preAccess = RBT.empty, ck_textAccess = {}\<rparr>"

section \<open>The end of a slice\<close>

text \<open>Every page of a system call's buffer counts as accessed, with 4096 bytes more than the data.
  In the last page of the address space \<open>base\<close> would wrap to 0 and never pass the end.\<close>

function mark_pages :: "u64 \<Rightarrow> u64 \<Rightarrow> access_map \<times> exist \<Rightarrow> (access_map \<times> exist) res" where
  "mark_pages base addr st =
     (if base \<le> addr
      then res_bind (addAddrInfo base 1 st) (\<lambda>st'.
             if unat base + 4096 < 2 ^ 64 then mark_pages (base + 4096) addr st' else Inl Endless)
      else Inr st)"
  by pat_completeness auto
termination
proof (relation "measure (\<lambda>(base, addr, st). 2 ^ 64 - unat base)")
  fix base addr :: u64 and st st' :: "access_map \<times> exist"
  assume "unat base + 4096 < 2 ^ 64"
  then have "unat (base + 4096) = unat base + 4096" using unat_add_less [of base 4096] by simp
  with \<open>unat base + 4096 < 2 ^ 64\<close>
  show "((base + 4096, addr, st'), base, addr, st) \<in> measure (\<lambda>(base, addr, st). 2 ^ 64 - unat base)"
    by simp
qed simp

declare mark_pages.simps [simp del]

definition mark_syscall :: "SyscallInfo \<Rightarrow> access_map \<times> exist \<Rightarrow> (access_map \<times> exist) res" where
  "mark_syscall s st =
     (if length (si_data s) < 1 then Inr st
      else mark_pages (page_of (si_bufaddr s)) (si_bufaddr s + of_nat (length (si_data s)) + 4096) st)"

definition mark_first :: "FirstLoadInfo \<Rightarrow> access_map \<times> exist \<Rightarrow> (access_map \<times> exist) res" where
  "mark_first f st =
     (let t1 = page_of (fl_addr f)
      in res_bind (addAddrInfo t1 1 st) (\<lambda>st'.
           if t1 + 4096 < fl_addr f + 8 then addAddrInfo (t1 + 4096) 1 st' else Inr st'))"

text \<open>\<open>getFistloads\<close> empties the recorded loads; the marks and ranges follow it.\<close>

definition finish_slice :: "CkptInfo \<Rightarrow> CkptInfo res" where
  "finish_slice c =
     res_bind (res_fold mark_syscall (ck_sysinfos c) (ck_preAccess c, exist_uninit)) (\<lambda>(pre1, ex1).
     res_bind (getFistloads (ck_loads c) (ck_firstloads c)) (\<lambda>fls.
     res_bind (res_fold mark_first fls (pre1, ex1)) (\<lambda>(pre2, ex2).
     res_bind (getRange_set (ck_textAccess c) (ck_textrange c)) (\<lambda>(textr, tsz).
     res_bind (getRange_map pre2 (ck_memrange c)) (\<lambda>(memr, msz).
     res_bind (trim_memrange textr memr) (\<lambda>memr'.
       Inr (c\<lparr>ck_loads := [], ck_firstloads := fls, ck_preAccess := pre2, ck_textrange := textr,
              ck_textsize := tsz, ck_memrange := memr', ck_memsize := msz\<rparr>)))))))"

section \<open>The file\<close>

definition range_bytes :: "CodeRange \<Rightarrow> bytes" where
  "range_bytes r = le64 (cr_addr r) @ le64 (cr_size r)"

definition ranges_bytes :: "CodeRange list \<Rightarrow> bytes" where
  "ranges_bytes rs = le64 (of_nat (length rs)) @ concat (map range_bytes rs)"

text \<open>
  \<open>saveCkptInfo\<close>; \<open>readstart\<close> is \<open>Some ckptstartnum\<close> when the run itself restores a checkpoint
  (\<open>readCkptSetting\<close>). The static buffers of the compressor are threaded through.
\<close>

definition slice_words :: "u64 option \<Rightarrow> CkptInfo \<Rightarrow> u64 list" where
  "slice_words readstart c =
     [(case readstart of None \<Rightarrow> ck_startnum c | Some n \<Rightarrow> n + ck_startnum c),
      ck_simNums c + push_bit 32 (ck_warmup c),
      ck_exit_pc c,
      2 + push_bit 2 (ck_length c - ck_warmup c),
      ck_npc c]"

definition saveCkptInfo :: "u64 option \<Rightarrow> CkptInfo \<Rightarrow> compstate \<Rightarrow> (bytes \<times> CkptInfo \<times> compstate) res" where
  "saveCkptInfo readstart c s =
     res_bind (saveFLoads_comp (ck_firstloads c) s) (\<lambda>(s', fl).
     res_bind (saveSysInfo (ck_sysinfos c)) (\<lambda>(sys, infos).
       Inr (ranges_bytes (ck_textrange c) @ concat (map le64 (slice_words readstart c)) @
            concat (map le64 (ck_intregs c)) @ concat (map le64 (ck_fpregs c)) @
            ranges_bytes (ck_memrange c) @ fl @ sys,
            c\<lparr>ck_sysinfos := infos\<rparr>, s')))"

text \<open>
  \<open>detectOver\<close>: before the end of the slice nothing happens; at its end the file is written and
  the containers are emptied. The result is the object, whether the slice is over, and the file.
\<close>

definition clear_ckpt :: "CkptInfo \<Rightarrow> CkptInfo" where
  "clear_ckpt c = c\<lparr>ck_preAccess := RBT.empty, ck_textAccess := {}, ck_firstloads := [], ck_memrange := [],
     ck_textrange := [], ck_sysinfos := []\<rparr>"

definition detectOver ::
  "u64 option \<Rightarrow> u64 \<Rightarrow> u64 \<Rightarrow> u64 list \<Rightarrow> CkptInfo \<times> compstate \<Rightarrow> (bytes option \<times> CkptInfo \<times> compstate) res" where
  "detectOver readstart exit_place exit_pc instinfo st =
     (case st of (c, s) \<Rightarrow>
      if exit_place \<ge> ck_startnum c + ck_length c
      then let c1 = c\<lparr>ck_exit_pc := exit_pc, ck_simNums := exit_place - ck_startnum c,
                      ck_instinfo := map2 (-) instinfo (ck_instinfo c)\<rparr>
           in res_bind (finish_slice c1) (\<lambda>c2.
              res_bind (saveCkptInfo readstart c2 s) (\<lambda>(file, c3, s').
                Inr (Some file, clear_ckpt c3, s')))
      else Inr (None, c, s))"

end
