(* ===== verification/Collect.thy ===== *)
theory Collect
  imports Settings CkptFile
begin

unbundle bit_operations_syntax

text \<open>
  The collector of \<open>sim/ckpt_collect.cc\<close>: the pending checkpoints, the slice that comes next, and
  the calls of the simulator that reach every pending checkpoint. When the simulated program is
  itself a restored checkpoint, its recorded calls are read from the old file and inserted again.
\<close>

section \<open>State\<close>

text \<open>
  \<open>files\<close> are the checkpoint files written so far; \<open>compst\<close> are the static buffers of the
  compressor; \<open>oldstart\<close> is \<open>ckptstartnum\<close> when \<open>readCkptSetting\<close> is set.
\<close>

record collector =
  pendingCkpts :: "CkptInfo list"
  ckptsettings :: CkptSettings
  ckptidx :: nat
  files :: "bytes list"
  compst :: compstate
  oldstart :: "u64 option"

definition collector_init :: "CkptSettings \<Rightarrow> u64 option \<Rightarrow> collector" where
  "collector_init s old = \<lparr>pendingCkpts = [], ckptsettings = s, ckptidx = 0, files = [], compst = compstate_init, oldstart = old\<rparr>"

section \<open>Reaching every pending checkpoint\<close>

text \<open>A loop over the pending checkpoints whose body changes each of them.\<close>

fun res_map :: "('a \<Rightarrow> 'a res) \<Rightarrow> 'a list \<Rightarrow> 'a list res" where
  "res_map f [] = Inr []"
| "res_map f (x # xs) = res_bind (f x) (\<lambda>y. res_bind (res_map f xs) (\<lambda>ys. Inr (y # ys)))"

definition on_pending :: "(CkptInfo \<Rightarrow> CkptInfo res) \<Rightarrow> collector \<Rightarrow> collector res" where
  "on_pending f k = res_bind (res_map f (pendingCkpts k)) (\<lambda>cs. Inr (k\<lparr>pendingCkpts := cs\<rparr>))"

definition ckpt_addload :: "u64 \<Rightarrow> bytes \<Rightarrow> u8 \<Rightarrow> collector \<Rightarrow> collector res" where
  "ckpt_addload addr data sz =
     on_pending (\<lambda>c. res_bind (addload addr data sz (ck_preAccess c, ck_loads c))
       (\<lambda>(pre, loads). Inr (c\<lparr>ck_preAccess := pre, ck_loads := loads\<rparr>)))"

definition ckpt_addstore :: "u64 \<Rightarrow> u8 \<Rightarrow> collector \<Rightarrow> collector res" where
  "ckpt_addstore addr sz =
     on_pending (\<lambda>c. res_bind (addstore addr sz (ck_preAccess c, ck_loads c))
       (\<lambda>(pre, loads). Inr (c\<lparr>ck_preAccess := pre, ck_loads := loads\<rparr>)))"

definition ckpt_addinst :: "u64 \<Rightarrow> collector \<Rightarrow> collector res" where
  "ckpt_addinst addr = on_pending (\<lambda>c. Inr (c\<lparr>ck_textAccess := addinst addr (ck_textAccess c)\<rparr>))"

definition ckpt_add_sysenter :: "u64 \<Rightarrow> u32 \<Rightarrow> u64 list \<Rightarrow> collector \<Rightarrow> collector res" where
  "ckpt_add_sysenter pc sysnum params =
     on_pending (\<lambda>c. Inr (c\<lparr>ck_sysinfos := add_sysenter pc sysnum params (ck_sysinfos c)\<rparr>))"

definition ckpt_add_sysexe :: "u64 \<Rightarrow> u64 \<Rightarrow> u64 \<Rightarrow> u32 \<Rightarrow> bytes \<Rightarrow> collector \<Rightarrow> collector res" where
  "ckpt_add_sysexe pc ret bufaddr bufsize data =
     on_pending (\<lambda>c. res_bind (add_sysexe pc ret bufaddr bufsize data (ck_sysinfos c))
       (\<lambda>infos. Inr (c\<lparr>ck_sysinfos := infos\<rparr>)))"

definition ckpt_add_sysret :: "u64 \<Rightarrow> string \<Rightarrow> bool \<Rightarrow> u64 \<Rightarrow> collector \<Rightarrow> collector res" where
  "ckpt_add_sysret pc name hasret ret =
     on_pending (\<lambda>c. Inr (c\<lparr>ck_sysinfos := add_sysret pc name hasret ret (ck_sysinfos c)\<rparr>))"

section \<open>Starting and ending slices\<close>

definition addCkpt :: "u64 \<Rightarrow> u64 \<Rightarrow> u64 list \<Rightarrow> u64 list \<Rightarrow> u64 \<Rightarrow> u64 \<Rightarrow> u64 list \<Rightarrow> collector \<Rightarrow> collector res" where
  "addCkpt startnum len intregs fpregs pc npc instinfo k =
     (let cs = ctrls (ckptsettings k) in
      if ckptidx k = 0 \<or> length cs < ckptidx k then Inl OutOfBounds
      else let warmup = ctrl_warmup (cs ! (ckptidx k - 1));
               c = CkptInfo_new startnum len warmup intregs fpregs pc npc (benchname (ckptsettings k)) instinfo
           in Inr (k\<lparr>pendingCkpts := pendingCkpts k @ [c]\<rparr>))"

fun over_loop :: "u64 option \<Rightarrow> u64 \<Rightarrow> u64 \<Rightarrow> u64 list \<Rightarrow> CkptInfo list \<Rightarrow> compstate \<Rightarrow>
    (CkptInfo list \<times> bytes list \<times> compstate) res" where
  "over_loop old place pc instinfo [] s = Inr ([], [], s)"
| "over_loop old place pc instinfo (c # cs) s =
     res_bind (detectOver old place pc instinfo (c, s)) (\<lambda>(out, c', s').
     res_bind (over_loop old place pc instinfo cs s') (\<lambda>(cs', fs, s'').
       case out of
         Some f \<Rightarrow> Inr (cs', f # fs, s'')
       | None \<Rightarrow> Inr (c' # cs', fs, s'')))"

text \<open>After the last slice of the settings the simulator exits; the files stay.\<close>

definition ckpt_detectOver :: "u64 \<Rightarrow> u64 \<Rightarrow> u64 list \<Rightarrow> collector \<Rightarrow> (bool \<times> collector) res" where
  "ckpt_detectOver exit_place exit_pc instinfo k =
     res_bind (over_loop (oldstart k) exit_place exit_pc instinfo (pendingCkpts k) (compst k)) (\<lambda>(cs, fs, s).
       let k' = k\<lparr>pendingCkpts := cs, files := files k @ fs, compst := s\<rparr>
       in Inr (cs = [] \<and> ckptidx k' = length (ctrls (ckptsettings k')), k'))"

definition hasValidCkpt :: "collector \<Rightarrow> bool" where
  "hasValidCkpt k \<longleftrightarrow> pendingCkpts k \<noteq> []"

definition isCkptStart :: "u64 \<Rightarrow> collector \<Rightarrow> u64 option \<times> collector" where
  "isCkptStart simNum k =
     (let cs = ctrls (ckptsettings k); i = ckptidx k in
      if length cs \<le> i then (None, k)
      else if simNum = ctrl_start (cs ! i)
           then (Some (ctrl_end (cs ! i) - ctrl_start (cs ! i)), k\<lparr>ckptidx := i + 1\<rparr>)
           else (None, k))"

section \<open>The old checkpoint\<close>

record oldckpt =
  syssec :: cbuf
  ckptstartnum :: u64
  ckpt_textstart :: u64
  ckpt_textend :: u64
  ckptinst_map :: "nat \<Rightarrow> bool"

definition ct_mapsize :: nat where "ct_mapsize = 1024 * 64"

definition isCkptInst :: "u64 \<Rightarrow> oldckpt \<Rightarrow> bool res" where
  "isCkptInst addr o' =
     (if addr \<ge> ckpt_textend o' \<or> addr < ckpt_textstart o' then Inr False
      else let mapidx = unat (ucast (drop_bit 12 addr - drop_bit 12 (ckpt_textstart o')) :: u32)
           in if ct_mapsize \<le> mapidx then Inl OutOfBounds else Inr (ckptinst_map o' mapidx))"

text \<open>\<open>fseek\<close> to an offset that is negative as a \<open>long\<close> fails and leaves the position.\<close>

definition seek_u64 :: "u64 \<Rightarrow> rfile \<Rightarrow> rfile" where
  "seek_u64 off f = (if unat off < 2 ^ 63 then fseek_set (unat off) f else f)"

definition count_bits :: "bytes \<Rightarrow> nat" where
  "count_bits bs = sum_list (map (\<lambda>b. length (filter (\<lambda>m. drop_bit m b mod 2 = 1) [0..<8])) bs)"

text \<open>The two loops of \<open>read_floads\<close>; a corrupt file can send them back and forth for ever.\<close>

partial_function (option) skip_datamap :: "u64 \<Rightarrow> rfile \<Rightarrow> (rfile res) option" where
  "skip_datamap mapsize p =
     (case fread64 0 p of (addr, p1) \<Rightarrow>
      if addr = 0 then Some (Inr p1)
      else case fread64 mapsize p1 of (sz, p2) \<Rightarrow>
           let n = sz div 64 in
           if 1024 < unat n then Some (Inl OutOfBounds)
           else case fread (unat n) p2 of (cmap, p3) \<Rightarrow>
                if length cmap < unat n then Some (Inl UninitRead)
                else skip_datamap n (seek_u64 (of_nat (pos p3) + of_nat (count_bits cmap) * 8) p3))"

partial_function (option) skip_blocks :: "rfile \<Rightarrow> rfile option" where
  "skip_blocks p =
     (case fread64 0 p of (compsize, p1) \<Rightarrow>
      if compsize = 0 then Some p1
      else skip_blocks (seek_u64 (of_nat (pos p1) + 8 + compsize) p1))"

definition read_floads :: "rfile \<Rightarrow> (u64 res) option" where
  "read_floads p =
     (case fread64 0 p of (compressTag, p1) \<Rightarrow>
      if compressTag - 0x123456 = 1
      then map_option (map_sum id (\<lambda>p'. of_nat (pos p'))) (skip_datamap 0 p1)
      else if compressTag - 0x123456 = 2 \<or> compressTag - 0x123456 = 3
      then map_option (\<lambda>p'. Inr (of_nat (pos p'))) (skip_blocks p1)
      else let off = of_nat (pos p1) - 8 in
           case fread64 0 (seek_u64 off p1) of (loadnum, _) \<Rightarrow> Some (Inr (off + 8 + loadnum * 16)))"

text \<open>
  The loop over the text ranges: the first one gives the start, the last one the end, and every page
  of a range is flagged.
\<close>

fun flag_pages :: "nat \<Rightarrow> u32 \<Rightarrow> (nat \<Rightarrow> bool) \<Rightarrow> (nat \<Rightarrow> bool) res" where
  "flag_pages 0 start mp = Inr mp"
| "flag_pages (Suc n) start mp =
     (if ct_mapsize \<le> unat start then Inl OutOfBounds else flag_pages n (start + 1) (mp(unat start := True)))"

fun text_loop :: "nat \<Rightarrow> nat \<Rightarrow> CodeRange \<Rightarrow> rfile \<Rightarrow> u64 \<times> u64 \<times> (nat \<Rightarrow> bool) \<Rightarrow>
    (rfile \<times> u64 \<times> u64 \<times> (nat \<Rightarrow> bool)) res" where
  "text_loop 0 i r p (ts, te, mp) = Inr (p, ts, te, mp)"
| "text_loop (Suc n) i r p (ts, te, mp) =
     (case fread 16 p of (bs, p') \<Rightarrow>
      let all = overlay bs (le64 (cr_addr r) @ le64 (cr_size r));
          r' = \<lparr>cr_addr = un64 (take 8 all), cr_size = un64 (drop 8 all)\<rparr>;
          ts' = (if i = 0 then cr_addr r' else ts);
          te' = (if n = 0 then cr_addr r' + cr_size r' else te);
          start = ucast (drop_bit 12 (cr_addr r' - ts')) :: u32;
          fin = start + ucast (drop_bit 12 (cr_size r'))
      in res_bind (flag_pages (unat fin - unat start) start mp) (\<lambda>mp'.
           text_loop n (i + 1) r' p' (ts', te', mp')))"

definition initCkptSysInfo :: "bytes option \<Rightarrow> (oldckpt res) option" where
  "initCkptSysInfo contents =
     (case contents of
        None \<Rightarrow> Some (Inl (ExitProg 1))
      | Some bs \<Rightarrow>
          (case fread64 0 (fopen_rb bs) of (numtext, p1) \<Rightarrow>
           case text_loop (unat numtext) 0 \<lparr>cr_addr = 0, cr_size = 0\<rparr> p1 (0x1000000000, 0, \<lambda>_. False) of
             Inl e \<Rightarrow> Some (Inl e)
           | Inr (p2, ts, te, mp) \<Rightarrow>
              (case fread64 0 (seek_u64 (8 + numtext * 16) p2) of (startnum, p3) \<Rightarrow>
               case fread64 0 (seek_u64 (8 + numtext * 16 + 5 * 8 + 64 * 8) p3) of (nummem, p4) \<Rightarrow>
               (case read_floads (seek_u64 (of_nat (pos p4) + nummem * 16) p4) of
                  None \<Rightarrow> None
                | Some (Inl e) \<Rightarrow> Some (Inl e)
                | Some (Inr off) \<Rightarrow>
                    Some (Inr \<lparr>syssec = buf_of (drop (unat off) bs), ckptstartnum = startnum,
                               ckpt_textstart = ts, ckpt_textend = te, ckptinst_map = mp\<rparr>)))))"

section \<open>Inserting an old call\<close>

definition sec_u64 :: "cbuf \<Rightarrow> nat \<Rightarrow> u64 res" where
  "sec_u64 b i = res_bind (peek b i 8) (\<lambda>w. Inr (un64 w))"

definition old_total :: "oldckpt \<Rightarrow> u64 res" where
  "old_total od = sec_u64 (syssec od) 0"

text \<open>
  The call as it is found: pc, number, first argument, result, whether it has a result, and the
  address, size and place of its data.
\<close>

record oldcall =
  oc_pc :: u64
  oc_num :: u32
  oc_p0 :: u64
  oc_ret :: u64
  oc_hasret :: bool
  oc_bufaddr :: u64
  oc_bufsize :: u32
  oc_data :: bytes

definition old_call :: "oldckpt \<Rightarrow> nat \<Rightarrow> nat \<Rightarrow> oldcall res" where
  "old_call od tot sysidx =
     (let b = syssec od; infoaddr = 8 + tot * 4 in
      res_bind (peek b (8 + 4 * sysidx) 4) (\<lambda>ix.
      let a = infoaddr + unat (un32 ix) * 40 in
      res_bind (sec_u64 b a) (\<lambda>pc. res_bind (sec_u64 b (a + 8)) (\<lambda>num. res_bind (sec_u64 b (a + 16)) (\<lambda>p0.
      res_bind (sec_u64 b (a + 24)) (\<lambda>ret. res_bind (sec_u64 b (a + 32)) (\<lambda>dofs.
      let data_offset = drop_bit 8 dofs in
      if data_offset \<noteq> 0xffffffff
      then res_bind (sec_u64 b (unat data_offset)) (\<lambda>bufaddr.
             let bufsize = drop_bit 32 (push_bit 32 num) in
             res_bind (peek b (unat data_offset + 8) (unat (ucast bufsize :: u32))) (\<lambda>data.
               Inr \<lparr>oc_pc = pc, oc_num = ucast (drop_bit 32 num), oc_p0 = p0, oc_ret = ret, oc_hasret = (dofs mod 256 = 1),
                    oc_bufaddr = bufaddr, oc_bufsize = ucast bufsize, oc_data = data\<rparr>))
      else Inr \<lparr>oc_pc = pc, oc_num = ucast (drop_bit 32 num), oc_p0 = p0, oc_ret = ret, oc_hasret = (dofs mod 256 = 1),
                oc_bufaddr = 0, oc_bufsize = 0, oc_data = []\<rparr>)))))))"

definition insert_call :: "oldcall \<Rightarrow> SyscallInfo list \<Rightarrow> SyscallInfo list res" where
  "insert_call oc infos =
     res_bind (add_sysexe (oc_pc oc) (oc_ret oc) (oc_bufaddr oc) (oc_bufsize oc) (oc_data oc)
                 (add_sysenter (oc_pc oc) (oc_num oc) (replicate 3 (oc_p0 oc)) infos)) (\<lambda>infos'.
       Inr (add_sysret (oc_pc oc) ''readckpt_syscall'' (oc_hasret oc) (oc_ret oc) infos'))"

definition ckpt_insert_syscall :: "oldckpt \<Rightarrow> u32 \<Rightarrow> collector \<Rightarrow> collector res" where
  "ckpt_insert_syscall od sysidx k =
     res_bind (old_total od) (\<lambda>tot.
       if ucast sysidx > tot then Inl (ExitProg 1)
       else if ucast sysidx = tot then Inr k
       else res_bind (old_call od (unat tot) (unat sysidx)) (\<lambda>oc.
              on_pending (\<lambda>c. res_bind (insert_call oc (ck_sysinfos c)) (\<lambda>infos. Inr (c\<lparr>ck_sysinfos := infos\<rparr>))) k))"

end
