(* ===== verification/JumpPatch.thy ===== *)
theory JumpPatch
  imports CkptPrelude
begin

unbundle bit_operations_syntax

text \<open>
  \<open>user_jmp.cpp\<close> of the loader (\<open>restoreCkpt/ckptinfo/newreadckpt\<close>): system calls and the
  exit of the replayed program are replaced by jumps. A \<open>jal\<close> reaches a free place near the
  call (a midpoint), where four instructions load an address from a fixed place and jump to
  it. The theory has the instruction builders, the search for midpoints and the patching.
\<close>

section \<open>Building instructions\<close>

definition createJAL :: "u64 \<Rightarrow> u64 \<Rightarrow> u32" where
  "createJAL base target =
     (let offset = ucast (target - base) :: u32;
          op_jal = 0x6f; rd = 0;
          v1 = drop_bit 1 offset mod 1024;
          v11 = drop_bit 11 offset mod 2;
          v12 = drop_bit 12 offset mod 256;
          v20 = drop_bit 20 offset mod 2;
          imm20 = v12 + push_bit 8 v11 + push_bit 9 v1 + push_bit 19 v20
      in op_jal + push_bit 7 rd + push_bit 12 imm20)"

definition createJALR :: "u32 \<Rightarrow> u32" where
  "createJALR srcreg =
     (let op_jalr = 0x67; fun3 = 0; imm11 = 0; dstreg = 0
      in push_bit 20 imm11 + push_bit 15 (srcreg mod 32) + push_bit 12 fun3 + push_bit 7 dstreg + op_jalr)"

definition createLD :: "u32 \<Rightarrow> u32 \<Rightarrow> u32 \<Rightarrow> u32" where
  "createLD dstreg basereg offset =
     push_bit 20 (offset mod 4096) + push_bit 15 (basereg mod 32) + push_bit 12 3 +
     push_bit 7 (dstreg mod 32) + 3"

definition createImm32 :: "u32 \<Rightarrow> u32 \<Rightarrow> u32 \<times> u32" where
  "createImm32 dstreg imm32 =
     (let imm20 = drop_bit 12 imm32; imm12 = drop_bit 20 (push_bit 20 imm32);
          imm20' = (if drop_bit 11 imm12 = 1 then imm20 + 1 else imm20)
      in (push_bit 12 imm20' + push_bit 7 (dstreg mod 32) + 0x37,
          push_bit 20 imm12 + push_bit 15 (dstreg mod 32) + push_bit 12 0 + push_bit 7 (dstreg mod 32) + 0x1b))"

definition put32 :: "u64 \<Rightarrow> u32 \<Rightarrow> memory \<Rightarrow> memory" where
  "put32 a w m = mem_write m a (le32 w)"

definition setJmp :: "u64 \<Rightarrow> u64 \<Rightarrow> memory \<Rightarrow> bool \<times> memory" where
  "setJmp instaddr target m = (True, put32 instaddr (createJAL instaddr target) m)"

section \<open>Free places\<close>

record MemRangeInfo =
  mr_addr :: u64
  mr_size :: u64

fun read_ranges :: "nat \<Rightarrow> MemRangeInfo \<Rightarrow> rfile \<Rightarrow> MemRangeInfo list \<times> rfile" where
  "read_ranges 0 r p = ([], p)"
| "read_ranges (Suc n) r p =
     (case fread 16 p of (bs, p') \<Rightarrow>
      let all = overlay bs (le64 (mr_addr r) @ le64 (mr_size r));
          r' = \<lparr>mr_addr = un64 (take 8 all), mr_size = un64 (drop 8 all)\<rparr>
      in case read_ranges n r' p' of (rs, p'') \<Rightarrow> (r' # rs, p''))"

text \<open>The gaps between text ranges, up to the end of the text segment.\<close>

fun free_gaps :: "u64 \<Rightarrow> MemRangeInfo list \<Rightarrow> MemRangeInfo list" where
  "free_gaps text_end (a # b # rs) =
     (let addr = mr_addr a + mr_size a; sz = mr_addr b - addr
      in if mr_addr b > text_end then []
         else if sz > 0 then \<lparr>mr_addr = addr, mr_size = sz\<rparr> # free_gaps text_end (b # rs)
         else free_gaps text_end (b # rs))"
| "free_gaps text_end rs = []"

definition getRangeInfo :: "bytes \<Rightarrow> MemRangeInfo \<Rightarrow> MemRangeInfo list \<Rightarrow> MemRangeInfo list" where
  "getRangeInfo file text_seg freeRanges =
     (case fread64 0 (fopen_rb file) of (num, p) \<Rightarrow>
      case read_ranges (unat num) \<lparr>mr_addr = 0, mr_size = 0\<rparr> p of (ranges, _) \<Rightarrow>
        freeRanges @ free_gaps (mr_addr text_seg + mr_size text_seg) ranges)"

section \<open>Midpoints\<close>

record PCs =
  pc_label :: u64
  pc_pc :: u64
  pc_midpoint :: u64

definition MaxJALOffset :: int where "MaxJALOffset = 0xFFFF0"

definition freemem :: u64 where "freemem = 0x40"

text \<open>An \<open>int\<close> distance keeps the low 32 bits of the 64-bit difference.\<close>

definition int_dist :: "u64 \<Rightarrow> int" where
  "int_dist d = sint (ucast d :: u32)"

text \<open>
  The inner loop over the free ranges from \<open>r\<close> on; the ranges passed over stay passed over for
  the next pc. No midpoint is \<open>exit(0)\<close>.
\<close>

fun find_mid :: "u64 \<Rightarrow> MemRangeInfo list \<Rightarrow> (u64 \<times> MemRangeInfo list) res" where
  "find_mid pc [] = Inl (ExitProg 0)"
| "find_mid pc (fr # frs) =
     (if pc < mr_addr fr
      then (if int_dist (mr_addr fr + freemem - pc) \<le> MaxJALOffset
            then Inr (mr_addr fr, fr # frs) else Inl (ExitProg 0))
      else let midpoint = mr_addr fr + mr_size fr - freemem
           in if int_dist (pc - midpoint) \<le> MaxJALOffset then Inr (midpoint, fr # frs)
              else find_mid pc frs)"

fun find_mids :: "PCs list \<Rightarrow> MemRangeInfo list \<Rightarrow> PCs list res" where
  "find_mids [] frs = Inr []"
| "find_mids (p # ps) frs =
     res_bind (find_mid (pc_pc p) frs) (\<lambda>(m, frs').
     res_bind (find_mids ps frs') (\<lambda>ps'. Inr (p\<lparr>pc_midpoint := m\<rparr> # ps')))"

definition findMidPoints :: "MemRangeInfo list \<Rightarrow> PCs list \<Rightarrow> PCs list res" where
  "findMidPoints freeRanges pcs =
     res_bind (find_mids (sort_key pc_pc pcs) freeRanges) (\<lambda>ps. Inr (sort_key pc_label ps))"

section \<open>Patching\<close>

record JmpRepInfo =
  jalr_target :: u64
  jal_addr :: u64
  jal_inst :: u32

text \<open>The way back into the program: all entries but the last, the first one without the \<open>+ 4\<close>.\<close>

definition jmp2prog :: "u32 \<Rightarrow> bool \<Rightarrow> PCs \<Rightarrow> memory \<Rightarrow> JmpRepInfo \<times> memory" where
  "jmp2prog memaddr isfirst p m =
     (let ret_addr = (if isfirst then pc_pc p else pc_pc p + 4);
          free_addr = pc_midpoint p + 32;
          imms = createImm32 10 memaddr;
          m' = put32 (free_addr + 8) (createLD 10 10 0)
                 (put32 (free_addr + 4) (snd imms) (put32 free_addr (fst imms) m))
      in (\<lparr>jalr_target = free_addr, jal_addr = free_addr + 12,
           jal_inst = createJAL (free_addr + 12) ret_addr\<rparr>, m'))"

fun jmp2prog_loop :: "u32 \<Rightarrow> bool \<Rightarrow> PCs list \<Rightarrow> memory \<Rightarrow> JmpRepInfo list \<times> memory" where
  "jmp2prog_loop memaddr isfirst (p # q # ps) m =
     (case jmp2prog memaddr isfirst p m of (j, m1) \<Rightarrow>
      case jmp2prog_loop memaddr False (q # ps) m1 of (js, m2) \<Rightarrow> (j # js, m2))"
| "jmp2prog_loop memaddr isfirst ps m = ([], m)"

definition createInsts_jmp2prog :: "PCs list \<Rightarrow> u32 \<Rightarrow> memory \<Rightarrow> JmpRepInfo list \<times> memory" where
  "createInsts_jmp2prog pcs memaddr m = jmp2prog_loop memaddr True pcs m"

text \<open>
  The way into the loader: every entry but the first gets the four instructions at its
  midpoint; the call itself is overwritten, except for the exit, whose jump is kept for later.
\<close>

definition put_trampoline :: "u32 \<Rightarrow> u64 \<Rightarrow> memory \<Rightarrow> memory" where
  "put_trampoline memaddr free_addr m =
     (let imms = createImm32 10 memaddr
      in put32 (free_addr + 12) (createJALR 10) (put32 (free_addr + 8) (createLD 10 10 0)
           (put32 (free_addr + 4) (snd imms) (put32 free_addr (fst imms) m))))"

fun jmp2loader_loop :: "u32 \<Rightarrow> PCs list \<Rightarrow> u32 \<times> memory \<Rightarrow> u32 \<times> memory" where
  "jmp2loader_loop memaddr [] st = st"
| "jmp2loader_loop memaddr (p # ps) (exitJmpInst, m) =
     (let jal = createJAL (pc_pc p) (pc_midpoint p);
          m' = put_trampoline memaddr (pc_midpoint p) m
      in if ps \<noteq> [] then jmp2loader_loop memaddr ps (exitJmpInst, put32 (pc_pc p) jal m')
         else (jal, m'))"

definition createInsts_jmp2loader :: "PCs list \<Rightarrow> u32 \<Rightarrow> u32 \<times> memory \<Rightarrow> u32 \<times> memory" where
  "createInsts_jmp2loader pcs memaddr st = jmp2loader_loop memaddr (tl pcs) st"

definition updateJmpInst :: "JmpRepInfo \<Rightarrow> u64 \<times> memory \<Rightarrow> u64 \<times> memory" where
  "updateJmpInst info st = (jalr_target info, put32 (jal_addr info) (jal_inst info) (snd st))"

end
