(* ===== verification/RVInst.thy ===== *)
theory RVInst
  imports JumpPatch
begin

unbundle bit_operations_syntax

text \<open>
  The instructions that \<open>user_jmp.cpp\<close> builds, against the RISC-V instruction formats: a
  decoder and a step function for the five instructions in question, as the unprivileged ISA
  defines them, and proofs that the built words decode to what was meant and that the patched
  code transfers control to the intended place.
\<close>

section \<open>Formats\<close>

datatype rvinst =
    JAL u32 u64
  | JALR u32 u32 u64
  | LD u32 u32 u64
  | LUI u32 u64
  | ADDIW u32 u32 u64
  | OtherInst

definition immI :: "u32 \<Rightarrow> u64" where
  "immI w = scast (ucast (drop_bit 20 w) :: 12 word)"

definition immU :: "u32 \<Rightarrow> u64" where
  "immU w = scast (push_bit 12 (drop_bit 12 w))"

definition immJ :: "u32 \<Rightarrow> u64" where
  "immJ w = scast (ucast (push_bit 20 (take_bit 1 (drop_bit 31 w)) + push_bit 12 (take_bit 8 (drop_bit 12 w)) +
     push_bit 11 (take_bit 1 (drop_bit 20 w)) + push_bit 1 (take_bit 10 (drop_bit 21 w))) :: 21 word)"

definition rv_decode :: "u32 \<Rightarrow> rvinst" where
  "rv_decode w =
     (let opc = take_bit 7 w; rd = take_bit 5 (drop_bit 7 w); f3 = take_bit 3 (drop_bit 12 w);
          rs1 = take_bit 5 (drop_bit 15 w)
      in if opc = 0x6f then JAL rd (immJ w)
         else if opc = 0x67 \<and> f3 = 0 then JALR rd rs1 (immI w)
         else if opc = 0x03 \<and> f3 = 3 then LD rd rs1 (immI w)
         else if opc = 0x37 then LUI rd (immU w)
         else if opc = 0x1b \<and> f3 = 0 then ADDIW rd rs1 (immI w)
         else OtherInst)"

record rvstate =
  rv_pc :: u64
  rv_regs :: "u32 \<Rightarrow> u64"
  rv_mem :: memory

definition set_reg :: "u32 \<Rightarrow> u64 \<Rightarrow> (u32 \<Rightarrow> u64) \<Rightarrow> u32 \<Rightarrow> u64" where
  "set_reg rd v regs = (if rd = 0 then regs else regs(rd := v))"

definition rv_exec :: "rvinst \<Rightarrow> rvstate \<Rightarrow> rvstate option" where
  "rv_exec i s =
     (let pc = rv_pc s; regs = rv_regs s in
      case i of
        JAL rd off \<Rightarrow> Some (s\<lparr>rv_pc := pc + off, rv_regs := set_reg rd (pc + 4) regs\<rparr>)
      | JALR rd rs off \<Rightarrow> Some (s\<lparr>rv_pc := (regs rs + off) AND NOT 1, rv_regs := set_reg rd (pc + 4) regs\<rparr>)
      | LD rd rs off \<Rightarrow> Some (s\<lparr>rv_pc := pc + 4,
            rv_regs := set_reg rd (un64 (mem_read (rv_mem s) (regs rs + off) 8)) regs\<rparr>)
      | LUI rd v \<Rightarrow> Some (s\<lparr>rv_pc := pc + 4, rv_regs := set_reg rd v regs\<rparr>)
      | ADDIW rd rs v \<Rightarrow> Some (s\<lparr>rv_pc := pc + 4,
            rv_regs := set_reg rd (scast (ucast (regs rs + v) :: u32)) regs\<rparr>)
      | OtherInst \<Rightarrow> None)"

definition get32 :: "memory \<Rightarrow> u64 \<Rightarrow> u32" where
  "get32 m a = un32 (mem_read m a 4)"

definition rv_step :: "rvstate \<Rightarrow> rvstate option" where
  "rv_step s = rv_exec (rv_decode (get32 (rv_mem s) (rv_pc s))) s"

fun rv_steps :: "nat \<Rightarrow> rvstate \<Rightarrow> rvstate option" where
  "rv_steps 0 s = Some s"
| "rv_steps (Suc n) s = (case rv_step s of None \<Rightarrow> None | Some s' \<Rightarrow> rv_steps n s')"

section \<open>Fields of a built word\<close>

lemma u32_small: "n < 2 ^ 32 \<Longrightarrow> unat (of_nat n :: u32) = n"
  by (simp add: unsigned_of_nat take_bit_eq_mod)

lemma drop_bit_u32:
  assumes n: "n < 2 ^ 32"
  shows "drop_bit k (of_nat n :: u32) = of_nat (n div 2 ^ k)"
proof -
  have "n div 2 ^ k < 2 ^ 32" using n div_le_dividend [of n "2 ^ k"] by linarith
  then have "unat (of_nat (n div 2 ^ k) :: u32) = n div 2 ^ k" by (rule u32_small)
  then have "drop_bit k (of_nat (unat (of_nat n :: u32))) = (of_nat (n div 2 ^ k) :: u32)"
    unfolding word_unat_eq_iff unat_drop_bit_eq by (simp only: of_nat_unat ucast_id u32_small [OF n] drop_bit_eq_div)
  then show ?thesis by simp
qed

lemma take_bit_u32: "take_bit k (of_nat n :: u32) = of_nat (n mod 2 ^ k)"
  by (simp only: take_bit_of_nat take_bit_eq_mod [of k n])

text \<open>The fields of a word from the low end: opcode, rd, funct3, rs1, immediate.\<close>

definition itype :: "nat \<Rightarrow> nat \<Rightarrow> nat \<Rightarrow> nat \<Rightarrow> nat \<Rightarrow> nat" where
  "itype opc rd f3 rs1 imm = opc + 128 * (rd + 32 * (f3 + 8 * (rs1 + 32 * imm)))"

lemma itype_fields:
  assumes "opc < 128" "rd < 32" "f3 < 8" "rs1 < 32" "imm < 4096"
  defines "w \<equiv> of_nat (itype opc rd f3 rs1 imm) :: u32"
  shows "take_bit 7 w = of_nat opc" "take_bit 5 (drop_bit 7 w) = of_nat rd"
    "take_bit 3 (drop_bit 12 w) = of_nat f3" "take_bit 5 (drop_bit 15 w) = of_nat rs1"
    "drop_bit 20 w = of_nat imm"
proof -
  have lt: "itype opc rd f3 rs1 imm < 2 ^ 32" using assms(1-5) by (simp add: itype_def)
  have m7: "itype opc rd f3 rs1 imm mod 128 = opc"
    by (simp only: itype_def mod_mult_self2 mod_less [OF assms(1)])
  have d7: "itype opc rd f3 rs1 imm div 128 = rd + 32 * (f3 + 8 * (rs1 + 32 * imm))"
    using assms(1) by (simp add: itype_def)
  have d12: "itype opc rd f3 rs1 imm div 4096 = f3 + 8 * (rs1 + 32 * imm)"
    using assms(2) d7 div_mult2_eq [of "itype opc rd f3 rs1 imm" 128 32] by simp
  have d15: "itype opc rd f3 rs1 imm div 32768 = rs1 + 32 * imm"
    using assms(3) d12 div_mult2_eq [of "itype opc rd f3 rs1 imm" 4096 8] by simp
  have d20: "itype opc rd f3 rs1 imm div 1048576 = imm"
    using assms(4) d15 div_mult2_eq [of "itype opc rd f3 rs1 imm" 32768 32] by simp
  have p: "(2::nat) ^ 7 = 128" "(2::nat) ^ 5 = 32" "(2::nat) ^ 3 = 8" "(2::nat) ^ 12 = 4096"
    "(2::nat) ^ 15 = 32768" "(2::nat) ^ 20 = 1048576" by simp_all
  have m: "(rd + 32 * x) mod 32 = rd" "(f3 + 8 * x) mod 8 = f3" "(rs1 + 32 * x) mod 32 = rs1" for x
    using assms(2-4) by simp_all
  show "take_bit 7 w = of_nat opc" by (simp only: w_def take_bit_u32 p m7)
  show "take_bit 5 (drop_bit 7 w) = of_nat rd"
    by (simp only: w_def drop_bit_u32 [OF lt] take_bit_u32 d7 p m)
  show "take_bit 3 (drop_bit 12 w) = of_nat f3"
    by (simp only: w_def drop_bit_u32 [OF lt] take_bit_u32 d12 p m)
  show "take_bit 5 (drop_bit 15 w) = of_nat rs1"
    by (simp only: w_def drop_bit_u32 [OF lt] take_bit_u32 d15 p m)
  show "drop_bit 20 w = of_nat imm" by (simp only: w_def drop_bit_u32 [OF lt] d20 p)
qed

lemma mod_u32: "n < 2 ^ 32 \<Longrightarrow> (x :: u32) mod of_nat n = of_nat (unat x mod n)"
  by (rule eq_of_nat_unatI) (simp add: unat_mod u32_small)

lemmas mod_u32_regs = mod_u32 [of 32, simplified] mod_u32 [of 4096, simplified]

lemma createLD_itype:
  "createLD d b off = of_nat (itype 3 (unat d mod 32) 3 (unat b mod 32) (unat off mod 4096))"
  by (simp add: createLD_def itype_def mod_u32_regs push_bit_eq_mult algebra_simps)

lemma createJALR_itype: "createJALR b = of_nat (itype 0x67 0 0 (unat b mod 32) 0)"
  by (simp add: createJALR_def itype_def mod_u32_regs push_bit_eq_mult algebra_simps)

section \<open>What the built words mean\<close>

lemma u32_12_bits: "(ucast (of_nat n :: u32) :: 12 word) = of_nat n"
  by (simp add: word_unat_eq_iff unsigned_of_nat unsigned_ucast_eq)

lemma decode_createLD:
  assumes "unat d < 32" and "unat b < 32"
  shows "rv_decode (createLD d b off) = LD d b (scast (ucast off :: 12 word))"
proof -
  have imm: "immI (createLD d b off) = scast (ucast off :: 12 word)"
  proof -
    have "unat off mod 4096 < 4096" by simp
    then have "drop_bit 20 (createLD d b off) = of_nat (unat off mod 4096)"
      unfolding createLD_itype by (intro itype_fields) simp_all
    moreover have "(of_nat (unat off mod 4096) :: 12 word) = ucast off"
      by (simp add: word_unat_eq_iff unsigned_of_nat unsigned_ucast_eq take_bit_eq_mod)
    ultimately show ?thesis by (simp add: immI_def u32_12_bits)
  qed
  have "unat off mod 4096 < 4096" by simp
  from itype_fields [of 3 "unat d" 3 "unat b", OF _ assms(1) _ assms(2) this] imm
  show ?thesis using assms by (simp add: rv_decode_def createLD_itype Let_def)
qed

lemma decode_createJALR:
  assumes "unat b < 32"
  shows "rv_decode (createJALR b) = JALR 0 b 0"
  using itype_fields [of "0x67" 0 0 "unat b" 0, OF _ _ _ assms] assms
  by (simp add: rv_decode_def createJALR_itype Let_def immI_def)

text \<open>The immediate of \<open>createImm32\<close>: the low twelve bits are sign extended by \<open>addiw\<close>, so the high part is rounded up.\<close>

definition imm_hi :: "u32 \<Rightarrow> u32" where
  "imm_hi v = drop_bit 12 v + of_bool (bit v 11)"

lemma low12: "drop_bit 20 (push_bit 20 (v :: u32)) = take_bit 12 v"
  by (rule bit_word_eqI) (auto simp: bit_simps)

lemma bit11: "drop_bit 11 (take_bit 12 (v :: u32)) = of_bool (bit v 11)"
  by (rule bit_word_eqI) (auto simp: bit_simps)

lemma take_bit_12_u32: "take_bit 12 (v :: u32) = of_nat (unat v mod 4096)"
  using take_bit_u32 [of 12 "unat v"] by (simp del: of_nat_mod)

lemma scast_12_u32: "(scast (ucast (v :: u32) :: 12 word) :: u32) = take_bit 12 v - 4096 * of_bool (bit v 11)"
proof -
  have t: "uint (take_bit 12 v) = take_bit 12 (uint v)" by (rule unsigned_take_bit_eq)
  have "sint (ucast v :: 12 word) = uint (take_bit 12 v) - 4096 * of_bool (bit v 11)"
    by (simp add: sint_uint unsigned_ucast_eq signed_take_bit_eq_take_bit_minus bit_take_bit_iff t
        bit_uint_iff)
  then have "(word_of_int (sint (ucast v :: 12 word)) :: u32) =
      word_of_int (uint (take_bit 12 v)) - 4096 * of_bool (bit v 11)"
    by (simp only: wi_hom_syms word_of_int_uint) (simp only: of_int_diff of_int_mult of_int_of_bool of_int_numeral)
  then show ?thesis by (simp only: scast_eq word_of_int_uint)
qed

lemma imm_parts: "push_bit 12 (imm_hi v) + scast (ucast v :: 12 word) = (v :: u32)"
proof -
  have "push_bit 12 (imm_hi v) = push_bit 12 (drop_bit 12 v) + 4096 * of_bool (bit v 11)"
    by (simp add: imm_hi_def push_bit_add push_bit_eq_mult)
  then show ?thesis by (simp add: scast_12_u32 bits_ident)
qed

lemma createImm32_parts:
  "createImm32 d v =
     (push_bit 12 (imm_hi v) + of_nat (128 * (unat d mod 32) + 0x37),
      of_nat (itype 0x1b (unat d mod 32) 0 (unat d mod 32) (unat v mod 4096)))"
proof -
  have hi: "(if (of_bool (bit v 11) :: u32) = 1 then drop_bit 12 v + 1 else drop_bit 12 v) = imm_hi v"
    by (simp add: imm_hi_def)
  have "createImm32 d v =
     (push_bit 12 (imm_hi v) + push_bit 7 (d mod 32) + 0x37,
      push_bit 20 (take_bit 12 v) + push_bit 15 (d mod 32) + push_bit 12 0 + push_bit 7 (d mod 32) + 0x1b)"
    unfolding createImm32_def Let_def low12 bit11 hi ..
  also have "\<dots> = (push_bit 12 (imm_hi v) + of_nat (128 * (unat d mod 32) + 0x37),
      of_nat (itype 0x1b (unat d mod 32) 0 (unat d mod 32) (unat v mod 4096)))"
    by (simp add: itype_def mod_u32_regs push_bit_eq_mult take_bit_12_u32 algebra_simps del: of_nat_mod)
  finally show ?thesis .
qed

lemma decode_lui:
  assumes "k < 32"
  shows "rv_decode (push_bit 12 h + of_nat (128 * k + 0x37)) = LUI (of_nat k) (scast (push_bit 12 h))"
proof -
  define n where "n = 4096 * (unat h mod 2 ^ 20) + (128 * k + 0x37)"
  have lt: "n < 2 ^ 32"
  proof -
    have "unat h mod 2 ^ 20 < 2 ^ 20" by simp
    then show ?thesis using assms by (simp add: n_def)
  qed
  have hh: "push_bit 12 (of_nat (unat h mod 2 ^ 20)) = push_bit 12 h"
    unfolding take_bit_u32 [symmetric] by (rule bit_word_eqI) (auto simp: bit_simps)
  have w: "push_bit 12 h + of_nat (128 * k + 0x37) = (of_nat n :: u32)"
    unfolding n_def of_nat_add [of "4096 * _"] hh [symmetric] by (simp add: push_bit_eq_mult)
  have o: "n mod 2 ^ 7 = 0x37"
  proof -
    have "n = 0x37 + 128 * (32 * (unat h mod 2 ^ 20) + k)" by (simp add: n_def)
    then have "n mod 128 = 0x37 mod 128" by (simp only: mod_mult_self2)
    then show ?thesis by simp
  qed
  have r: "n div 2 ^ 7 mod 2 ^ 5 = k"
  proof -
    have "n = 0x37 + 128 * (32 * (unat h mod 2 ^ 20) + k)" by (simp add: n_def)
    then have "n div 128 = 32 * (unat h mod 2 ^ 20) + k" by simp
    then show ?thesis using assms by simp
  qed
  have d: "n div 2 ^ 12 = unat h mod 2 ^ 20" using assms by (simp add: n_def)
  show ?thesis
    unfolding w rv_decode_def Let_def immU_def drop_bit_u32 [OF lt] take_bit_u32 o r d hh by simp
qed

lemma decode_addiw:
  assumes "k < 32"
  shows "rv_decode (of_nat (itype 0x1b k 0 k (unat v mod 4096))) = ADDIW (of_nat k) (of_nat k) (scast (ucast (v :: u32) :: 12 word))"
proof -
  have lt: "unat v mod 4096 < 4096" by simp
  note f = itype_fields [of "0x1b" k 0 k, OF _ assms _ assms lt]
  have "(of_nat (unat v mod 4096) :: 12 word) = ucast v"
    by (simp add: word_unat_eq_iff unsigned_of_nat unsigned_ucast_eq take_bit_eq_mod)
  then have "immI (of_nat (itype 0x1b k 0 k (unat v mod 4096))) = scast (ucast v :: 12 word)"
    by (simp add: immI_def f u32_12_bits del: of_nat_mod)
  then show ?thesis by (simp add: rv_decode_def Let_def f del: of_nat_mod)
qed

section \<open>The range of a jump\<close>

definition jal_reach :: "u64 \<Rightarrow> u64 \<Rightarrow> bool" where
  "jal_reach base target \<longleftrightarrow>
     - (2 ^ 20) \<le> sint (target - base) \<and> sint (target - base) < 2 ^ 20 \<and> even (unat (target - base))"

lemma scast_ucast_21:
  assumes "- (2 ^ 20) \<le> sint (x :: u64)" and "sint x < 2 ^ 20"
  shows "scast (ucast x :: 21 word) = x"
proof -
  have "sint (ucast x :: 21 word) = signed_take_bit 20 (uint x)"
    by (simp add: sint_uint unsigned_ucast_eq signed_take_bit_take_bit)
  also have "\<dots> = signed_take_bit 20 (sint x)"
    by (simp add: sint_uint signed_take_bit_signed_take_bit)
  also have "\<dots> = sint x" using assms by (intro signed_take_bit_int_eq_self) simp_all
  finally show ?thesis by (simp add: scast_eq)
qed

lemma mod_u32_fields:
  "(x :: u32) mod 1024 = of_nat (unat x mod 1024)" "x mod 2 = of_nat (unat x mod 2)"
  "x mod 256 = of_nat (unat x mod 256)"
  using mod_u32 [of 1024 x] mod_u32 [of 2 x] mod_u32 [of 256 x] by simp_all

lemma unat_drop_u32: "unat (drop_bit k (x :: u32)) = unat x div 2 ^ k"
  unfolding unat_drop_bit_eq by (rule drop_bit_eq_div)

definition jtype :: "nat \<Rightarrow> nat" where
  "jtype n = 0x6f + 4096 * (n div 4096 mod 256 + 256 * (n div 2048 mod 2 + 2 * (n div 2 mod 1024 + 1024 * (n div 1048576 mod 2))))"

lemma createJAL_jtype: "createJAL b t = of_nat (jtype (unat (ucast (t - b) :: u32)))"
  unfolding createJAL_def Let_def mod_u32_fields unat_drop_u32 jtype_def power_one_right
  by (simp add: push_bit_eq_mult algebra_simps del: of_nat_mod of_nat_div)

lemma jtype_fields:
  fixes n :: nat
  defines "w \<equiv> of_nat (jtype n) :: u32"
  shows "take_bit 7 w = 0x6f" "take_bit 5 (drop_bit 7 w) = 0" "take_bit 8 (drop_bit 12 w) = of_nat (n div 4096 mod 256)"
    "take_bit 1 (drop_bit 20 w) = of_nat (n div 2048 mod 2)" "take_bit 10 (drop_bit 21 w) = of_nat (n div 2 mod 1024)"
    "take_bit 1 (drop_bit 31 w) = of_nat (n div 1048576 mod 2)"
proof -
  define a b c d where "a = n div 4096 mod 256" and "b = n div 2048 mod 2" and "c = n div 2 mod 1024"
    and "d = n div 1048576 mod 2"
  have bounds: "a < 256" "b < 2" "c < 1024" "d < 2" by (simp_all add: a_def b_def c_def d_def)
  have j: "jtype n = 0x6f + 4096 * (a + 256 * (b + 2 * (c + 1024 * d)))"
    by (simp add: jtype_def a_def b_def c_def d_def)
  have lt: "jtype n < 2 ^ 32" using bounds by (simp add: j)
  have m7: "jtype n mod 2 ^ 7 = 0x6f"
  proof -
    have "jtype n = 0x6f + 128 * (32 * (a + 256 * (b + 2 * (c + 1024 * d))))" by (simp add: j)
    then have "jtype n mod 128 = 0x6f mod 128" by (simp only: mod_mult_self2)
    then show ?thesis by simp
  qed
  have d7: "jtype n div 2 ^ 7 mod 2 ^ 5 = 0"
  proof -
    have "jtype n = 0x6f + 128 * (32 * (a + 256 * (b + 2 * (c + 1024 * d))))" by (simp add: j)
    then have "jtype n div 128 = 32 * (a + 256 * (b + 2 * (c + 1024 * d)))" by simp
    then show ?thesis by simp
  qed
  have d12: "jtype n div 2 ^ 12 = a + 256 * (b + 2 * (c + 1024 * d))" by (simp add: j)
  have d20: "jtype n div 2 ^ 20 = b + 2 * (c + 1024 * d)"
    using d12 bounds div_mult2_eq [of "jtype n" 4096 256] by simp
  have d21: "jtype n div 2 ^ 21 = c + 1024 * d"
    using d20 bounds div_mult2_eq [of "jtype n" 1048576 2] by simp
  have d31: "jtype n div 2 ^ 31 = d"
    using d21 bounds div_mult2_eq [of "jtype n" 2097152 1024] by simp
  have m: "(a + 256 * x) mod 2 ^ 8 = a" "(b + 2 * x) mod 2 ^ 1 = b" "(c + 1024 * x) mod 2 ^ 10 = c" "d mod 2 ^ 1 = d" for x
    using bounds by simp_all
  note f = w_def drop_bit_u32 [OF lt] take_bit_u32
  show "take_bit 7 w = 0x6f" "take_bit 5 (drop_bit 7 w) = 0" unfolding f m7 d7 by simp_all
  show "take_bit 8 (drop_bit 12 w) = of_nat (n div 4096 mod 256)" unfolding f d12 m unfolding a_def ..
  show "take_bit 1 (drop_bit 20 w) = of_nat (n div 2048 mod 2)" unfolding f d20 m unfolding b_def ..
  show "take_bit 10 (drop_bit 21 w) = of_nat (n div 2 mod 1024)" unfolding f d21 m unfolding c_def ..
  show "take_bit 1 (drop_bit 31 w) = of_nat (n div 1048576 mod 2)" unfolding f d31 m unfolding d_def ..
qed

lemma jal_offset_bits:
  assumes "even (n :: nat)"
  shows "n div 1048576 mod 2 * 1048576 + n div 4096 mod 256 * 4096 + n div 2048 mod 2 * 2048 + n div 2 mod 1024 * 2 = n mod 2 ^ 21"
proof -
  have d: "n div 2048 = n div 2 div 1024" "n div 4096 = n div 2048 div 2" "n div 1048576 = n div 4096 div 256"
    "n div 2097152 = n div 1048576 div 2"
    by (simp_all flip: div_mult2_eq)
  have lin: "x5 * 1048576 + x3 * 4096 + x2 * 2048 + x1 * 2 = y"
    if "n = 2 * q1" "q1 = 1024 * q2 + x1" "q2 = 2 * q3 + x2" "q3 = 256 * q4 + x3" "q4 = 2 * q5 + x5"
      "n = 2097152 * q5 + y" for q1 q2 q3 q4 q5 x1 x2 x3 x5 y :: nat
    using that by linarith
  have "n = 2 * (n div 2)" using assms by simp
  moreover have "n div 2 = 1024 * (n div 2048) + n div 2 mod 1024" by (simp add: d(1))
  moreover have "n div 2048 = 2 * (n div 4096) + n div 2048 mod 2" by (simp add: d(2))
  moreover have "n div 4096 = 256 * (n div 1048576) + n div 4096 mod 256" by (simp add: d(3))
  moreover have "n div 1048576 = 2 * (n div 2097152) + n div 1048576 mod 2" by (simp add: d(4))
  moreover have "n = 2097152 * (n div 2097152) + n mod 2 ^ 21" by simp
  ultimately show ?thesis by (rule lin)
qed

lemma decode_createJAL:
  assumes "jal_reach b t"
  shows "rv_decode (createJAL b t) = JAL 0 (t - b)"
proof -
  define n where "n = unat (ucast (t - b) :: u32)"
  have n: "n = unat (t - b) mod 2 ^ 32" by (simp add: n_def unsigned_ucast_eq take_bit_eq_mod)
  have ev: "even n" using assms by (simp add: n jal_reach_def even_iff_mod_2_eq_zero mod_mod_cancel)
  have "push_bit 20 (of_nat (n div 1048576 mod 2)) + push_bit 12 (of_nat (n div 4096 mod 256)) +
      push_bit 11 (of_nat (n div 2048 mod 2)) + push_bit 1 (of_nat (n div 2 mod 1024)) =
      (of_nat (n mod 2 ^ 21) :: u32)"
    unfolding jal_offset_bits [OF ev, symmetric] by (simp add: push_bit_eq_mult del: of_nat_mod of_nat_div)
  moreover have "(ucast (of_nat (n mod 2 ^ 21) :: u32) :: 21 word) = ucast (t - b)"
    by (simp add: word_unat_eq_iff unsigned_of_nat unsigned_ucast_eq n take_bit_eq_mod mod_mod_cancel)
  ultimately have "immJ (of_nat (jtype n)) = scast (ucast (t - b) :: 21 word)"
    unfolding immJ_def jtype_fields by simp
  then show ?thesis
    using assms scast_ucast_21 [of "t - b"] jtype_fields [of n]
    by (simp add: createJAL_jtype flip: n_def) (simp add: rv_decode_def Let_def jal_reach_def)
qed

section \<open>Executing the patched code\<close>

lemma get32_block:
  assumes "i + 4 \<le> length bs" and "length bs \<le> 2 ^ 64" and "take 4 (drop i bs) = le32 w"
  shows "get32 (mem_write m a bs) (a + of_nat i) = w"
  using assms by (simp add: get32_def mem_read_write_sub)

lemma get32_put32 [simp]: "get32 (put32 a w m) a = w"
  using get32_block [of 0 "le32 w" w m a] by (simp add: put32_def)

lemma put32_next:
  assumes "length bs + 4 \<le> 2 ^ 64" and "b = a + of_nat (length bs)"
  shows "put32 b w (mem_write m a bs) = mem_write m a (bs @ le32 w)"
  using assms by (simp add: put32_def mem_write_append)

text \<open>The three instructions that load the doubleword at \<open>memaddr\<close> into \<open>a0\<close>.\<close>

definition load_a0 :: "u32 \<Rightarrow> bytes" where
  "load_a0 memaddr = le32 (fst (createImm32 10 memaddr)) @ le32 (snd (createImm32 10 memaddr)) @ le32 (createLD 10 10 0)"

lemma put_load_a0:
  "put32 (a + 8) (createLD 10 10 0) (put32 (a + 4) (snd (createImm32 10 p)) (put32 a (fst (createImm32 10 p)) m)) =
   mem_write m a (load_a0 p)"
proof -
  have "put32 a (fst (createImm32 10 p)) m = mem_write m a (le32 (fst (createImm32 10 p)))" by (simp add: put32_def)
  then show ?thesis by (simp add: put32_next load_a0_def)
qed

lemma put_trampoline_block:
  "put_trampoline p a m = mem_write m a (load_a0 p @ le32 (createJALR 10))"
  unfolding put_trampoline_def Let_def put_load_a0 by (simp add: put32_next load_a0_def)

definition at_load_a0 :: "u32 \<Rightarrow> u64 \<Rightarrow> memory \<Rightarrow> bool" where
  "at_load_a0 p a m \<longleftrightarrow> mem_read m a 12 = load_a0 p"

lemma mem_read_prefix: "mem_read m a n = xs \<Longrightarrow> i + k \<le> n \<Longrightarrow> mem_read m (a + of_nat i) k = take k (drop i xs)"
  by (rule nth_equalityI) (auto simp: nth_mem_read algebra_simps)

lemma at_load_a0_words:
  assumes "at_load_a0 p a m"
  shows "get32 m a = fst (createImm32 10 p)" "get32 m (a + 4) = snd (createImm32 10 p)"
    "get32 m (a + 8) = createLD 10 10 0"
  using mem_read_prefix [of m a 12 "load_a0 p" 0 4] mem_read_prefix [of m a 12 "load_a0 p" 4 4]
    mem_read_prefix [of m a 12 "load_a0 p" 8 4] assms
  by (simp_all add: get32_def at_load_a0_def load_a0_def)

lemma ucast_add_u32: "(ucast (a + b :: u64) :: u32) = ucast a + ucast b"
  by (simp add: word_unat_eq_iff unsigned_ucast_eq unat_word_ariths take_bit_eq_mod mod_mod_cancel mod_add_eq)

lemma ucast_scast_low:
  "(ucast (scast (x :: u32) :: u64) :: u32) = x" "(ucast (scast (y :: 12 word) :: u64) :: u32) = scast y"
proof -
  show "(ucast (scast x :: u64) :: u32) = x"
  proof (rule bit_word_eqI)
    fix n assume "n < LENGTH(32)"
    then have "n \<le> 31" by simp
    then show "bit (ucast (scast x :: u64) :: u32) n = bit x n"
      by (cases "n = 31") (auto simp: bit_simps)
  qed
  show "(ucast (scast y :: u64) :: u32) = scast y"
    by (rule bit_word_eqI) (auto simp: bit_simps)
qed

lemma scast_u32_sum: "(ucast ((scast (x :: u32) :: u64) + scast (y :: 12 word)) :: u32) = x + scast y"
  by (simp add: ucast_add_u32 ucast_scast_low)

lemma rv_load_a0:
  assumes "at_load_a0 p (rv_pc s) (rv_mem s)"
  shows "rv_steps 3 s = Some (s\<lparr>rv_pc := rv_pc s + 12,
     rv_regs := (rv_regs s)(10 := un64 (mem_read (rv_mem s) (scast p) 8))\<rparr>)"
proof -
  note w = at_load_a0_words [OF assms]
  have i1: "rv_decode (get32 (rv_mem s) (rv_pc s)) = LUI 10 (scast (push_bit 12 (imm_hi p)))"
    using decode_lui [of 10 "imm_hi p"] by (simp add: w createImm32_parts)
  have i2: "rv_decode (get32 (rv_mem s) (rv_pc s + 4)) = ADDIW 10 10 (scast (ucast p :: 12 word))"
    using decode_addiw [of 10 p] by (simp add: w createImm32_parts)
  have i3: "rv_decode (get32 (rv_mem s) (rv_pc s + 8)) = LD 10 10 0"
    using decode_createLD [of 10 10 0] by (simp add: w)
  have v: "scast (ucast ((scast (push_bit 12 (imm_hi p)) :: u64) + scast (ucast p :: 12 word)) :: u32) = (scast p :: u64)"
    by (simp add: scast_u32_sum imm_parts)
  show ?thesis
    by (simp add: numeral_3_eq_3 rv_step_def i1 i2 i3 rv_exec_def set_reg_def v Let_def
        add.commute [of 8 "rv_pc s"])
qed

lemma rv_steps_add: "rv_steps (m + n) s = (case rv_steps m s of None \<Rightarrow> None | Some s' \<Rightarrow> rv_steps n s')"
  by (induction m arbitrary: s) (simp_all split: option.splits)

lemma rv_jal:
  assumes "get32 (rv_mem s) (rv_pc s) = createJAL (rv_pc s) t" and "jal_reach (rv_pc s) t"
  shows "rv_steps 1 s = Some (s\<lparr>rv_pc := t\<rparr>)"
  using assms by (simp add: rv_step_def decode_createJAL rv_exec_def set_reg_def Let_def)

lemma rv_jalr_a0:
  assumes "get32 (rv_mem s) (rv_pc s) = createJALR 10"
  shows "rv_steps 1 s = Some (s\<lparr>rv_pc := rv_regs s 10 AND NOT 1\<rparr>)"
  using assms decode_createJALR [of 10] by (simp add: rv_step_def rv_exec_def set_reg_def Let_def)

text \<open>From the patched call to the loader: five instructions, only \<open>a0\<close> is lost.\<close>

theorem rv_to_loader:
  assumes call: "get32 (rv_mem s) (rv_pc s) = createJAL (rv_pc s) mid" and reach: "jal_reach (rv_pc s) mid"
    and tramp: "mem_read (rv_mem s) mid 16 = load_a0 p @ le32 (createJALR 10)"
    and entry: "mem_read (rv_mem s) (scast p) 8 = le64 target"
  shows "rv_steps 5 s = Some (s\<lparr>rv_pc := target AND NOT 1, rv_regs := (rv_regs s)(10 := target)\<rparr>)"
proof -
  have ld: "at_load_a0 p mid (rv_mem s)" and jr: "get32 (rv_mem s) (mid + 12) = createJALR 10"
    using mem_read_prefix [OF tramp, of 0 12] mem_read_prefix [OF tramp, of 12 4]
    by (simp_all add: at_load_a0_def load_a0_def get32_def)
  let ?s1 = "s\<lparr>rv_pc := mid\<rparr>"
  let ?s2 = "s\<lparr>rv_pc := mid + 12, rv_regs := (rv_regs s)(10 := target)\<rparr>"
  have 1: "rv_steps 1 s = Some ?s1" using rv_jal [OF call reach] .
  have 2: "rv_steps 3 ?s1 = Some ?s2" using rv_load_a0 [of p ?s1] ld entry by simp
  have 3: "rv_steps 1 ?s2 = Some (s\<lparr>rv_pc := target AND NOT 1, rv_regs := (rv_regs s)(10 := target)\<rparr>)"
    using rv_jalr_a0 [of ?s2] jr by simp
  have "rv_steps 5 s = rv_steps (1 + (3 + 1)) s" by (simp add: numeral_eq_Suc)
  then show ?thesis unfolding rv_steps_add 1 by (simp only: option.case rv_steps_add 2 3)
qed

text \<open>From the loader back into the program: \<open>a0\<close> gets the saved value.\<close>

theorem rv_to_program:
  assumes ld: "at_load_a0 p (rv_pc s) (rv_mem s)"
    and jal: "get32 (rv_mem s) (rv_pc s + 12) = createJAL (rv_pc s + 12) ret" and reach: "jal_reach (rv_pc s + 12) ret"
    and a0: "mem_read (rv_mem s) (scast p) 8 = le64 v"
  shows "rv_steps 4 s = Some (s\<lparr>rv_pc := ret, rv_regs := (rv_regs s)(10 := v)\<rparr>)"
proof -
  let ?s1 = "s\<lparr>rv_pc := rv_pc s + 12, rv_regs := (rv_regs s)(10 := v)\<rparr>"
  have 1: "rv_steps 3 s = Some ?s1" using rv_load_a0 [OF ld] a0 by simp
  have 2: "rv_steps 1 ?s1 = Some (s\<lparr>rv_pc := ret, rv_regs := (rv_regs s)(10 := v)\<rparr>)"
    using rv_jal [of ?s1 ret] jal reach by simp
  have "rv_steps 4 s = rv_steps (3 + 1) s" by (simp add: numeral_eq_Suc)
  then show ?thesis unfolding rv_steps_add 1 by (simp only: option.case 2)
qed

end
