(* ===== verification/RecoverFLoads.thy ===== *)
theory RecoverFLoads
  imports SaveFLoads
begin

unbundle bit_operations_syntax

text \<open>
  \<open>recovery_fload.cpp\<close> of the loader (\<open>restoreCkpt/ckptinfo/newreadckpt\<close>): the section of
  first loads in a checkpoint file is read back and stored into memory, in one of three forms
  chosen by a tag. Counters that only feed \<open>printf\<close> are left out.
\<close>

section \<open>No compression\<close>

fun store_infos :: "nat \<Rightarrow> bytes \<Rightarrow> memory \<Rightarrow> memory" where
  "store_infos 0 bs mem = mem"
| "store_infos (Suc n) bs mem =
     store_infos n (drop 16 bs) (mem_write mem (un64 (take 8 bs)) (take 8 (drop 8 bs)))"

text \<open>The array comes from \<open>malloc\<close>: after a short read its tail was never written.\<close>

definition recovery_nocomp :: "rfile \<Rightarrow> memory \<Rightarrow> (rfile \<times> memory) res" where
  "recovery_nocomp p mem =
     (case fread64 0 p of (loadnum, p1) \<Rightarrow>
      case fread (16 * unat loadnum) p1 of (bs, p2) \<Rightarrow>
        if length bs < 16 * unat loadnum then Inl UninitRead
        else Inr (p2, store_infos (unat loadnum) bs mem))"

section \<open>Data map without compression\<close>

text \<open>Eight words of a window, one bit of \<open>c\<close> each; a word is read straight into memory.\<close>

fun datamap_bits :: "nat \<Rightarrow> nat \<Rightarrow> u64 \<Rightarrow> u8 \<Rightarrow> rfile \<times> memory \<Rightarrow> rfile \<times> memory" where
  "datamap_bits 0 m taddr c st = st"
| "datamap_bits (Suc n) m taddr c (p, mem) =
     datamap_bits n (Suc m) taddr (drop_bit 1 c)
       (if c mod 2 = 1
        then (case fread 8 p of (bs, p') \<Rightarrow> (p', mem_write mem (taddr + of_nat (m * 8)) bs))
        else (p, mem))"

fun datamap_bytes :: "nat \<Rightarrow> u64 \<Rightarrow> bytes \<Rightarrow> rfile \<times> memory \<Rightarrow> rfile \<times> memory" where
  "datamap_bytes i addr [] st = st"
| "datamap_bytes i addr (c # cs) st =
     datamap_bytes (Suc i) addr cs (datamap_bits 8 0 (addr + of_nat (i * 8 * 8)) c st)"

definition advances :: "rfile \<Rightarrow> rfile \<Rightarrow> bool" where
  "advances p p' \<longleftrightarrow> content p' = content p \<and> pos p \<le> pos p'"

lemma advances_refl [simp]: "advances p p"
  by (simp add: advances_def)

lemma advances_trans [trans]: "advances p q \<Longrightarrow> advances q r \<Longrightarrow> advances p r"
  by (simp add: advances_def)

lemma advances_fread: "fread n p = (bs, p') \<Longrightarrow> advances p p'"
  by (auto simp: fread_def Let_def advances_def)

lemma advances_fread64: "fread64 v p = (w, p') \<Longrightarrow> advances p p'"
  by (auto simp: fread64_def split: prod.splits dest: advances_fread)

lemma datamap_bits_advances: "advances (fst st) (fst (datamap_bits n m taddr c st))"
proof (induction n m taddr c st rule: datamap_bits.induct)
  case (2 n m taddr c p mem)
  obtain bs p' where f: "fread 8 p = (bs, p')" by (cases "fread 8 p")
  with 2 advances_fread [OF f] show ?case
    by (auto intro: advances_trans split: if_splits)
qed simp

lemma datamap_bytes_advances: "advances (fst st) (fst (datamap_bytes i addr cs st))"
proof (induction i addr cs st rule: datamap_bytes.induct)
  case (2 i addr c cs st)
  show ?case
    using advances_trans [OF datamap_bits_advances 2] by simp
qed simp

text \<open>
  The loop of \<open>recovery_datamap\<close>: \<open>cmap\<close> has 1024 bytes; the map bytes that were not read are
  zero. It ends at a zero address, which the end of the file also gives.
\<close>

function recovery_datamap :: "u64 \<Rightarrow> rfile \<Rightarrow> memory \<Rightarrow> (rfile \<times> memory) res" where
  "recovery_datamap sz0 p mem =
     (case fread64 0 p of (addr, p1) \<Rightarrow>
      if addr = 0 then Inr (p1, mem)
      else case fread64 sz0 p1 of (sz, p2) \<Rightarrow>
           let mapsize = unat (sz div 64)
           in case fread mapsize p2 of (cs, p3) \<Rightarrow>
              if 1024 < mapsize then Inl OutOfBounds
              else case datamap_bytes 0 addr (cs @ replicate (mapsize - length cs) 0) (p3, mem) of
                     (p4, mem') \<Rightarrow> recovery_datamap sz p4 mem')"
  by pat_completeness auto

lemma fread64_nonzero:
  assumes "fread64 0 p = (v, p')" and "v \<noteq> 0" and "advances p' q"
  shows "length (content q) - pos q < length (content p) - pos p"
proof -
  have "rest p \<noteq> []"
  proof
    assume "rest p = []"
    then have "v = 0" using assms(1) by (simp add: fread64_def fread_def overlay_def Let_def)
    with assms(2) show False by simp
  qed
  then have "pos p < length (content p)" by (auto simp: rest_def)
  with assms(1) have "content p' = content p" "pos p < pos p'"
    by (auto simp: fread64_def fread_def rest_def Let_def)
  with \<open>pos p < length (content p)\<close> assms(3) show ?thesis by (auto simp: advances_def)
qed

lemma advances_datamap_bytes: "datamap_bytes i addr cs (p, mem) = (p', mem') \<Longrightarrow> advances p p'"
  using datamap_bytes_advances [of "(p, mem)" i addr cs] by simp

lemma datamap_smaller:
  assumes "(addr, p1) = fread64 0 p" "addr \<noteq> 0" "(sz, p2) = fread64 v p1" "(cs, p3) = fread n p2"
  shows "length (content (fst (datamap_bytes i a bs (p3, mem)))) - pos (fst (datamap_bytes i a bs (p3, mem)))
    < length (content p) - pos p"
  using fread64_nonzero [OF sym [OF assms(1)] assms(2)] datamap_bytes_advances [of "(p3, mem)" i a bs]
    advances_fread64 [OF sym [OF assms(3)]] advances_fread [OF sym [OF assms(4)]]
  by (auto intro: advances_trans)

lemma block_smaller:
  assumes "(c, p1) = fread64 0 p" "c \<noteq> 0" "(k, p2) = fread64 v p1" "(bs, p3) = fread n p2"
  shows "length (content p3) - pos p3 < length (content p) - pos p"
  using fread64_nonzero [OF sym [OF assms(1)] assms(2)]
    advances_fread64 [OF sym [OF assms(3)]] advances_fread [OF sym [OF assms(4)]]
  by (auto intro: advances_trans)

termination recovery_datamap
  by (relation "measure (\<lambda>(sz, p, mem). length (content p) - pos p)")
    (simp_all add: case_prod_beta datamap_smaller)

declare recovery_datamap.simps [simp del]

section \<open>Compressed windows\<close>

text \<open>
  The parser walks over \<open>rawdata\<close> at \<open>baseaddr\<close>; \<open>cmap\<close> points into the same buffer and is
  shifted in place.
\<close>

type_synonym unpack = "cbuf \<times> nat \<times> memory"

definition unpack_bit :: "u64 \<Rightarrow> nat \<Rightarrow> nat \<Rightarrow> unpack \<Rightarrow> unpack res" where
  "unpack_bit taddr ci m st =
     (case st of (raw, base, mem) \<Rightarrow>
      res_bind (peek1 raw ci) (\<lambda>c.
      res_bind (if c mod 2 = 1
                then res_bind (peek raw base 8) (\<lambda>w. Inr (base + 8, mem_write mem (taddr + of_nat (m * 8)) w))
                else Inr (base, mem)) (\<lambda>(base', mem').
      res_bind (poke raw ci [drop_bit 1 c]) (\<lambda>raw'. Inr (raw', base', mem')))))"

definition unpack_byte :: "u64 \<Rightarrow> nat \<Rightarrow> nat \<Rightarrow> unpack \<Rightarrow> unpack res" where
  "unpack_byte addr cmap i st =
     res_fold (unpack_bit (addr + of_nat (i * 8 * 8)) (cmap + i)) [0..<8] st"

fun unpack_infos :: "nat \<Rightarrow> unpack \<Rightarrow> unpack res" where
  "unpack_infos 0 st = Inr st"
| "unpack_infos (Suc n) (raw, base, mem) =
     res_bind (peek raw base 8) (\<lambda>a.
       let addr = un64 a
       in if addr = 0 then Inr (raw, base, mem)
          else res_bind (peek raw (base + 8) 8) (\<lambda>s.
               let mapsize = unat (un64 s :: u64) div 64; cmap = base + 16
               in res_bind (res_fold (unpack_byte addr cmap) [0..<mapsize] (raw, cmap + mapsize, mem))
                    (unpack_infos n)))"

text \<open>
  The loop over the blocks. A compressed size that does not fit an \<open>int\<close>, or more data than
  \<open>compdata\<close> holds, is a fault.
\<close>

function recovery_blocks :: "rfile \<Rightarrow> cbuf \<Rightarrow> cbuf \<Rightarrow> memory \<Rightarrow> (rfile \<times> memory) res" where
  "recovery_blocks p rawdata cdata mem =
     (case fread64 0 p of (compsize, p1) \<Rightarrow>
      if compsize = 0 then Inr (p1, mem)
      else case fread64 0 p1 of (num, p2) \<Rightarrow>
           case fread (unat compsize) p2 of (bs, p3) \<Rightarrow>
           if 2 ^ 31 \<le> unat compsize then Inl OutOfBounds
           else res_bind (poke cdata 0 bs) (\<lambda>cdata'.
                res_bind (fastlz_decompress cdata' (unat compsize) rawdata (MaxCompressSize + ExtraDataSize))
                  (\<lambda>(rawsize, raw').
                res_bind (unpack_infos (unat num) (raw', 0, mem)) (\<lambda>(raw'', base, mem').
                  recovery_blocks p3 raw'' cdata' mem'))))"
  by pat_completeness auto
termination
  by (relation "measure (\<lambda>(p, raw, comp, mem). length (content p) - pos p)")
    (auto intro: block_smaller)

declare recovery_blocks.simps [simp del]

definition recovery_fastlz :: "rfile \<Rightarrow> memory \<Rightarrow> (rfile \<times> memory) res" where
  "recovery_fastlz p mem =
     recovery_blocks p (zero_buf (MaxCompressSize + ExtraDataSize))
       (zero_buf (MaxCompressSize + ExtraDataSize)) mem"

section \<open>Choosing the form\<close>

definition recovery_FirstLoad :: "rfile \<Rightarrow> memory \<Rightarrow> (rfile \<times> memory) res" where
  "recovery_FirstLoad p mem =
     (case fread64 0 p of (compressTag, p1) \<Rightarrow>
        if compressTag - 0x123456 = 1 then recovery_datamap 0 p1 mem
        else if compressTag - 0x123456 = 2 \<or> compressTag - 0x123456 = 3 then recovery_fastlz p1 mem
        else recovery_nocomp (fseek_set (pos p1 - 8) p1) mem)"

end
