(* ===== verification/Loader.thy ===== *)
theory Loader
  imports RVInst SysInfo RecoverFLoads
begin

unbundle bit_operations_syntax

text \<open>
  The loader at run time (\<open>restoreCkpt/ckptinfo/newreadckpt\<close>): \<open>ckpt_load.cpp\<close>, which brings a
  checkpoint into memory, \<open>processJmp\<close> of \<open>user_jmp.cpp\<close>, and \<open>takeoverSyscall\<close> of
  \<open>takeover_syscall.cpp\<close>, which answers the system calls of the replayed program from the
  recorded section.
\<close>

section \<open>State\<close>

text \<open>\<open>SyscallInfo\<close> of the loader's \<open>ckptinfo.h\<close>: the five words of a record.\<close>

record SysRec =
  sr_pc :: u64
  sr_num :: u64
  sr_p0 :: u64
  sr_ret :: u64
  sr_data_offset :: u64

record RunningInfo =
  exitpc :: u64
  exit_cause :: u64
  syscall_info_addr :: u64
  nowcallnum :: u64
  totalcallnum :: u64
  exitJmpInst :: u32
  sysJmpinfos :: "JmpRepInfo list"
  ri_cycles :: u64
  ri_insts :: u64
  lastcycles :: u64
  lastinsts :: u64
  startcycles :: u64
  startinsts :: u64

text \<open>
  The loader's globals; \<open>lmem\<close> is the address space that it shares with the program. Only word 0
  of \<open>tempMemory\<close> is ever used.
\<close>

record loader =
  runinfo :: RunningInfo
  program_intregs :: "u32 \<Rightarrow> u64"
  program_fpregs :: "u32 \<Rightarrow> u64"
  tempMemory :: u64
  lmem :: memory

definition get64 :: "memory \<Rightarrow> u64 \<Rightarrow> u64" where
  "get64 m a = un64 (mem_read m a 8)"

section \<open>The recorded calls in memory\<close>

definition mmap_zero :: "u64 \<Rightarrow> nat \<Rightarrow> memory \<Rightarrow> memory" where
  "mmap_zero a n m = (\<lambda>x. if in_range x a n then 0 else m x)"

text \<open>\<open>alloc_vaddr\<close> is the address that \<open>mmap\<close> returns.\<close>

definition read_ckptsyscall :: "u64 \<Rightarrow> rfile \<Rightarrow> loader \<Rightarrow> loader" where
  "read_ckptsyscall alloc_vaddr fp l =
     (let nowplace = pos fp;
          filesize = pos (fseek_end fp) - nowplace;
          fp' = fseek_set nowplace (fseek_end fp);
          allocsize = filesize + (4096 - filesize mod 4096);
          m = mem_write (mmap_zero alloc_vaddr allocsize (lmem l)) alloc_vaddr (fst (fread filesize fp'))
      in l\<lparr>lmem := m,
           runinfo := (runinfo l)\<lparr>syscall_info_addr := alloc_vaddr, nowcallnum := 0,
                                  totalcallnum := get64 m alloc_vaddr\<rparr>\<rparr>)"

definition sysidx_at :: "loader \<Rightarrow> u64 \<Rightarrow> u32" where
  "sysidx_at l i = get32 (lmem l) (syscall_info_addr (runinfo l) + 8 + 4 * i)"

definition sysinfo_at :: "loader \<Rightarrow> u64 \<Rightarrow> SysRec" where
  "sysinfo_at l r =
     (let a = syscall_info_addr (runinfo l) + 8 + totalcallnum (runinfo l) * 4 + r * 40; m = lmem l
      in \<lparr>sr_pc = get64 m a, sr_num = get64 m (a + 8), sr_p0 = get64 m (a + 16),
          sr_ret = get64 m (a + 24), sr_data_offset = get64 m (a + 32)\<rparr>)"

section \<open>Answering a call\<close>

text \<open>The copy loop, byte by byte upwards.\<close>

definition copy_bytes :: "nat \<Rightarrow> u64 \<Rightarrow> u64 \<Rightarrow> memory \<Rightarrow> memory" where
  "copy_bytes n dst src m = fold (\<lambda>c m. m(dst + of_nat c := m (src + of_nat c))) [0..<n] m"

text \<open>
  The registers on entry are \<open>regs\<close>; \<open>Save_ProgramIntRegs\<close> stores \<open>x1\<close> to \<open>x31\<close> except \<open>a0\<close>. The
  counters \<open>cycle\<close> and \<open>instret\<close> are read on entry (\<open>c0\<close>, \<open>i0\<close>) and before leaving (\<open>c1\<close>, \<open>i1\<close>).
\<close>

definition Save_ProgramIntRegs :: "(u32 \<Rightarrow> u64) \<Rightarrow> loader \<Rightarrow> loader" where
  "Save_ProgramIntRegs regs l =
     l\<lparr>program_intregs := (\<lambda>r. if 1 \<le> r \<and> r < 32 \<and> r \<noteq> 10 then regs r else program_intregs l r)\<rparr>"

definition takeover_data :: "SysRec \<Rightarrow> loader \<Rightarrow> loader" where
  "takeover_data infos l =
     (let base = syscall_info_addr (runinfo l);
          data_offset = drop_bit 8 (sr_data_offset infos)
      in if data_offset \<noteq> 0xffffffff
         then let data_size = drop_bit 32 (push_bit 32 (sr_num infos));
                  bufaddr = get64 (lmem l) (base + data_offset)
              in if bufaddr \<noteq> 0
                 then l\<lparr>lmem := copy_bytes (unat data_size) bufaddr (base + data_offset + 8) (lmem l)\<rparr>
                 else l
         else l)"

text \<open>The record is read again after the copy, through the same pointer.\<close>

definition takeover_ret :: "u32 \<Rightarrow> loader \<Rightarrow> loader" where
  "takeover_ret idx l =
     (let infos = sysinfo_at l (ucast idx) in
      if sr_data_offset infos mod 256 \<noteq> 0
      then l\<lparr>program_intregs := (program_intregs l)(10 := sr_ret infos)\<rparr> else l)"

definition takeover_jmp :: "loader \<Rightarrow> loader res" where
  "takeover_jmp l =
     (let js = sysJmpinfos (runinfo l); idx = sint (sysidx_at l (nowcallnum (runinfo l)) + 1) in
      if idx < 0 \<or> length js \<le> nat idx then Inl OutOfBounds
      else case updateJmpInst (js ! nat idx) (tempMemory l, lmem l) of (t, m) \<Rightarrow>
             Inr (l\<lparr>tempMemory := t, lmem := m\<rparr>))"

text \<open>The count of answered calls; after the last one the exit of the slice is armed.\<close>

definition takeover_count :: "loader \<Rightarrow> loader" where
  "takeover_count l =
     (let ri = runinfo l; ri' = ri\<lparr>nowcallnum := nowcallnum ri + 1\<rparr>; l' = l\<lparr>runinfo := ri'\<rparr>
      in if nowcallnum ri' = totalcallnum ri' then l'\<lparr>lmem := put32 (exitpc ri') (exitJmpInst ri') (lmem l')\<rparr>
         else l')"

definition takeoverSyscall :: "u64 \<times> u64 \<Rightarrow> u64 \<times> u64 \<Rightarrow> (u32 \<Rightarrow> u64) \<Rightarrow> loader \<Rightarrow> loader res" where
  "takeoverSyscall ci0 ci1 regs l0 =
     (let l1 = Save_ProgramIntRegs regs l0; ri = runinfo l1;
          ri' = ri\<lparr>ri_cycles := ri_cycles ri + (fst ci0 - lastcycles ri),
                   ri_insts := ri_insts ri + (snd ci0 - lastinsts ri)\<rparr>;
          l = l1\<lparr>runinfo := ri'\<rparr>
      in if nowcallnum ri' \<ge> totalcallnum ri' then Inl (ExitProg 0)
         else let idx = sysidx_at l (nowcallnum ri');
                  infos = sysinfo_at l (ucast idx);
                  l2 = l\<lparr>program_intregs := (program_intregs l)(10 := sr_p0 infos)\<rparr>;
                  sysnum = drop_bit 32 (sr_num infos)
              in if program_intregs l2 17 \<noteq> sysnum then Inl (ExitProg 0)
                 else res_bind (takeover_jmp (takeover_ret idx (takeover_data infos l2))) (\<lambda>l3.
                      let l4 = takeover_count l3
                      in Inr (l4\<lparr>runinfo := (runinfo l4)\<lparr>lastcycles := fst ci1, lastinsts := snd ci1\<rparr>\<rparr>)))"

text \<open>
  Leaving the loader: \<open>Load_ProgramIntRegs\<close> and \<open>StartJump\<close> (\<open>ckptinfo.h\<close>). The program's registers
  are loaded, then \<open>a0\<close> takes the jump target.
\<close>

definition StartJump :: "loader \<Rightarrow> rvstate" where
  "StartJump l = \<lparr>rv_pc = tempMemory l AND NOT 1,
     rv_regs = (\<lambda>r. if r = 0 then 0 else if r = 10 then tempMemory l else program_intregs l r),
     rv_mem = lmem l\<rparr>"

section \<open>Preparing the jumps\<close>

text \<open>The largest index of a record, \<open>-1\<close> without calls.\<close>

definition diff_callnum :: "loader \<Rightarrow> int" where
  "diff_callnum l =
     fold (\<lambda>i d. let k = sint (sysidx_at l (of_nat i)) in if k > d then k else d)
       [0..<unat (totalcallnum (runinfo l))] (- 1)"

definition jump_pcs :: "u64 \<Rightarrow> loader \<Rightarrow> PCs list" where
  "jump_pcs npc l =
     \<lparr>pc_label = 0, pc_pc = npc, pc_midpoint = 0\<rparr> #
     map (\<lambda>i. \<lparr>pc_label = of_nat i + 1, pc_pc = sr_pc (sysinfo_at l (of_nat i)), pc_midpoint = 0\<rparr>)
       [0..<nat (diff_callnum l + 1)] @
     [\<lparr>pc_label = totalcallnum (runinfo l) + 1, pc_pc = exitpc (runinfo l), pc_midpoint = 0\<rparr>]"

text \<open>The last entry of \<open>sysJmpinfos\<close> is allocated but never written; the list stops before it.\<close>

definition processJmp :: "u64 \<Rightarrow> u64 \<Rightarrow> MemRangeInfo list \<Rightarrow> u64 \<Rightarrow> loader \<Rightarrow> loader res" where
  "processJmp takeOverAddr_place a0_place freeRanges npc l =
     res_bind (findMidPoints freeRanges (jump_pcs npc l)) (\<lambda>pcs.
       let (ej, m1) = createInsts_jmp2loader pcs (ucast takeOverAddr_place) (exitJmpInst (runinfo l), lmem l);
           (js, m2) = createInsts_jmp2prog pcs (ucast a0_place) m1
       in Inr (l\<lparr>lmem := m2, runinfo := (runinfo l)\<lparr>exitJmpInst := ej, sysJmpinfos := js\<rparr>\<rparr>))"

section \<open>Loading a checkpoint\<close>

text \<open>
  \<open>mmap\<close> with \<open>MAP_FIXED\<close> of anonymous memory replaces whole pages by zeros. A range of size 0 is
  skipped; every other range is mapped with 4096 bytes more than its size.
\<close>

definition page_up :: "u64 \<Rightarrow> nat" where
  "page_up n = (unat n + 4095) div 4096 * 4096"

fun alloc_loop :: "nat \<Rightarrow> MemRangeInfo \<Rightarrow> rfile \<Rightarrow> memory \<Rightarrow> rfile \<times> memory" where
  "alloc_loop 0 r p m = (p, m)"
| "alloc_loop (Suc n) r p m =
     (case fread 16 p of (bs, p') \<Rightarrow>
      let all = overlay bs (le64 (mr_addr r) @ le64 (mr_size r));
          r' = \<lparr>mr_addr = un64 (take 8 all), mr_size = un64 (drop 8 all)\<rparr>
      in if mr_size r' \<noteq> 0
         then let r'' = r'\<lparr>mr_size := mr_size r' + 4096\<rparr>
              in alloc_loop n r'' p' (mmap_zero (mr_addr r'') (page_up (mr_size r'')) m)
         else alloc_loop n r' p' m)"

definition alloc_memrange :: "rfile \<Rightarrow> memory \<Rightarrow> rfile \<times> memory" where
  "alloc_memrange p m =
     (case fread64 0 p of (mrange_num, p1) \<Rightarrow> alloc_loop (unat mrange_num) \<lparr>mr_addr = 0, mr_size = 0\<rparr> p1 m)"

record SimInfo =
  sim_start :: u64
  sim_simNum :: u64
  sim_exitpc :: u64
  sim_exit_cause :: u64

text \<open>A \<open>SimInfo\<close> that the file does not hold in full is read from an uninitialised variable.\<close>

definition read_siminfo :: "rfile \<Rightarrow> (SimInfo \<times> rfile) res" where
  "read_siminfo p =
     (case fread 32 p of (bs, p') \<Rightarrow>
      if length bs < 32 then Inl UninitRead
      else Inr (\<lparr>sim_start = un64 (take 8 bs), sim_simNum = un64 (take 8 (drop 8 bs)),
                 sim_exitpc = un64 (take 8 (drop 16 bs)), sim_exit_cause = un64 (drop 24 bs)\<rparr>, p'))"

definition read_regs :: "rfile \<Rightarrow> (u32 \<Rightarrow> u64) \<Rightarrow> (u32 \<Rightarrow> u64) \<times> rfile" where
  "read_regs p old =
     (case fread 256 p of (bs, p') \<Rightarrow>
        (let all = overlay bs (concat (map (\<lambda>i. le64 (old (of_nat i))) [0..<32]))
         in ((\<lambda>r. if r < 32 then un64 (take 8 (drop (8 * unat r) all)) else old r), p')))"

text \<open>Steps 1 to 5 of \<open>read_ckptinfo\<close>: everything that comes from the file.\<close>

definition load_sections :: "u64 \<Rightarrow> bytes \<Rightarrow> loader \<Rightarrow> (u64 \<times> loader) res" where
  "load_sections alloc_vaddr file l =
     (case fread64 0 (fopen_rb file) of (temp, p0) \<Rightarrow>
      res_bind (read_siminfo (fseek_set (unat (16 * temp + 8)) p0)) (\<lambda>(siminfo, p1).
      case fread64 0 p1 of (npc, p2) \<Rightarrow>
      case read_regs p2 (program_intregs l) of (ints, p3) \<Rightarrow>
      case read_regs p3 (program_fpregs l) of (fps, p4) \<Rightarrow>
      case alloc_memrange p4 (lmem l) of (p5, m1) \<Rightarrow>
      res_bind (recovery_FirstLoad p5 m1) (\<lambda>(p6, m2).
        let l1 = l\<lparr>runinfo := (runinfo l)\<lparr>exitpc := sim_exitpc siminfo, exit_cause := sim_exit_cause siminfo mod 4\<rparr>,
                   program_intregs := ints, program_fpregs := fps, lmem := m2\<rparr>
        in Inr (npc, read_ckptsyscall alloc_vaddr p6 l1))))"

text \<open>Steps 6 and 7: jumps, the exit of a slice without calls, the counters.\<close>

definition read_ckptinfo ::
  "u64 \<Rightarrow> u64 \<Rightarrow> u64 \<Rightarrow> u64 \<times> u64 \<Rightarrow> MemRangeInfo \<Rightarrow> MemRangeInfo list \<Rightarrow> bytes \<Rightarrow> loader \<Rightarrow> loader res" where
  "read_ckptinfo alloc_vaddr takeOverAddr_place a0_place ci text_seg freeRanges file l =
     res_bind (load_sections alloc_vaddr file l) (\<lambda>(npc, l1).
     res_bind (processJmp takeOverAddr_place a0_place (getRangeInfo file text_seg freeRanges) npc l1) (\<lambda>l2.
       let ri = runinfo l2;
           m = (if totalcallnum ri = 0 \<and> exitpc ri \<noteq> 0 then put32 (exitpc ri) (exitJmpInst ri) (lmem l2) else lmem l2)
       in if sysJmpinfos ri = [] then Inl OutOfBounds
          else case updateJmpInst (sysJmpinfos ri ! 0) (tempMemory l2, m) of (t, m') \<Rightarrow>
               Inr (l2\<lparr>tempMemory := t, lmem := m',
                       runinfo := ri\<lparr>ri_cycles := 0, ri_insts := 0, lastcycles := fst ci, lastinsts := snd ci,
                                     startcycles := fst ci, startinsts := snd ci\<rparr>\<rparr>)))"

section \<open>Reading a section in memory\<close>

lemma mem_read_section:
  assumes "mem_read m base (length sec) = sec" and "i + k \<le> length sec"
  shows "mem_read m (base + of_nat i) k = take k (drop i sec)"
  using assms by (intro mem_read_prefix)

lemma pack_word:
  assumes "a < 2 ^ (64 - k)" and "b < 2 ^ k" and "k \<le> 64"
  shows "drop_bit k (push_bit k (of_nat a) + of_nat b :: u64) = of_nat a"
    "take_bit k (push_bit k (of_nat a) + of_nat b :: u64) = of_nat b"
proof -
  have "2 ^ k * a + b < 2 ^ k * (a + 1)" using assms(2) by simp
  also have "\<dots> \<le> 2 ^ k * 2 ^ (64 - k)" using assms(1) by (intro mult_le_mono) simp_all
  also have "\<dots> = (2::nat) ^ 64" using assms(3) by (simp flip: power_add)
  finally have lt: "2 ^ k * a + b < 2 ^ 64" .
  have e: "push_bit k (of_nat a) + of_nat b = (of_nat (2 ^ k * a + b) :: u64)"
    by (simp add: push_bit_eq_mult mult.commute)
  have u: "unat (push_bit k (of_nat a) + of_nat b :: u64) = 2 ^ k * a + b"
    unfolding e by (rule unat_of_nat_u64 [OF lt])
  show "drop_bit k (push_bit k (of_nat a) + of_nat b :: u64) = of_nat a"
  proof (rule eq_of_nat_unatI)
    show "unat (drop_bit k (push_bit k (of_nat a) + of_nat b :: u64)) = a"
      unfolding unat_drop_bit_eq u using assms(2) by (simp add: drop_bit_eq_div)
  qed
  show "take_bit k (push_bit k (of_nat a) + of_nat b :: u64) = of_nat b"
  proof (rule eq_of_nat_unatI)
    show "unat (take_bit k (push_bit k (of_nat a) + of_nat b :: u64)) = b"
      unfolding unsigned_take_bit_eq u using assms(2) by (simp add: take_bit_eq_mod)
  qed
qed

lemma copy_bytes_apart:
  assumes "apart dst n src n" and "n < 2 ^ 64"
  shows "copy_bytes n dst src m = mem_write m dst (mem_read m src n)"
proof -
  have "k \<le> n \<Longrightarrow> copy_bytes k dst src m = mem_write m dst (mem_read m src k)" for k
  proof (induction k)
    case 0
    then show ?case by (simp add: copy_bytes_def mem_read_def)
  next
    case (Suc k)
    have "in_range (src + of_nat k) src n" using Suc.prems assms(2) by (intro in_range_of_nat) simp_all
    then have "\<not> in_range (src + of_nat k) dst n" using apart_in_range apart_sym assms(1) by blast
    then have old: "mem_write m dst (mem_read m src k) (src + of_nat k) = m (src + of_nat k)"
      using Suc.prems by (intro mem_write_out) (simp add: in_range_def)
    have "mem_read m src (Suc k) = mem_read m src k @ [m (src + of_nat k)]" by (simp add: mem_read_def)
    moreover have "mem_write m' a [x] = m'(a := x)" for m' a x
      by (rule ext) (auto simp: mem_write_def unat_eq_zero)
    ultimately have "mem_write m dst (mem_read m src (Suc k)) =
        (mem_write m dst (mem_read m src k))(dst + of_nat k := m (src + of_nat k))"
      using Suc.prems assms(2) by (simp add: mem_write_append)
    then show ?case using Suc old by (simp add: copy_bytes_def)
  qed
  then show ?thesis by simp
qed

definition sec_loaded :: "loader \<Rightarrow> bytes \<Rightarrow> nat \<Rightarrow> bool" where
  "sec_loaded l sec n \<longleftrightarrow>
     mem_read (lmem l) (syscall_info_addr (runinfo l)) (length sec) = sec \<and> length sec < 2 ^ 32 - 1 \<and>
     totalcallnum (runinfo l) = of_nat n \<and> 8 + 4 * n \<le> length sec"

lemma sysidx_at_section:
  assumes "sec_loaded l sec n" and "i < n" and "take 4 (drop (8 + 4 * i) sec) = le32 w"
  shows "sysidx_at l (of_nat i) = w"
proof -
  have "mem_read (lmem l) (syscall_info_addr (runinfo l) + of_nat (8 + 4 * i)) 4 = le32 w"
    using assms mem_read_section [of "lmem l" _ sec "8 + 4 * i" 4] by (simp add: sec_loaded_def)
  then show ?thesis by (simp add: sysidx_at_def get32_def add.assoc)
qed

lemma sysinfo_at_section:
  assumes "sec_loaded l sec n" and "8 + 4 * n + 40 * r + 40 \<le> length sec"
    and rec: "take 40 (drop (8 + 4 * n + 40 * r) sec) = rec_bytes s off"
  shows "sysinfo_at l (of_nat r) =
    \<lparr>sr_pc = si_pc s, sr_num = push_bit 32 (si_num s) + of_nat (length (si_data s)), sr_p0 = hd (si_params s),
     sr_ret = si_ret s, sr_data_offset = push_bit 8 off + hasret_bit s\<rparr>"
proof -
  let ?a = "syscall_info_addr (runinfo l) + of_nat (8 + 4 * n + 40 * r)"
  have "mem_read (lmem l) ?a 40 = rec_bytes s off"
    using assms mem_read_section [of "lmem l" _ sec "8 + 4 * n + 40 * r" 40] by (simp add: sec_loaded_def)
  note w = mem_read_prefix [OF this, of _ 8]
  have "get64 (lmem l) ?a = si_pc s" "get64 (lmem l) (?a + 8) = push_bit 32 (si_num s) + of_nat (length (si_data s))"
    "get64 (lmem l) (?a + 16) = hd (si_params s)" "get64 (lmem l) (?a + 24) = si_ret s"
    "get64 (lmem l) (?a + 32) = push_bit 8 off + hasret_bit s"
    using w [of 0] w [of 8] w [of 16] w [of 24] w [of 32] by (simp_all add: get64_def rec_bytes_def)
  moreover have "?a = syscall_info_addr (runinfo l) + 8 + totalcallnum (runinfo l) * 4 + of_nat r * 40"
    using assms(1) by (simp add: sec_loaded_def algebra_simps)
  ultimately show ?thesis by (simp only: sysinfo_at_def Let_def)
qed

text \<open>What the program sees of an answered call: memory, and the value of \<open>a0\<close>.\<close>

definition call_mem :: "SyscallInfo \<Rightarrow> memory \<Rightarrow> memory" where
  "call_mem s m = (if si_data s \<noteq> [] \<and> si_bufaddr s \<noteq> 0 then mem_write m (si_bufaddr s) (si_data s) else m)"

definition call_a0 :: "SyscallInfo \<Rightarrow> u64" where
  "call_a0 s = (if si_hasret s then si_ret s else hd (si_params s))"

definition call_fits :: "u64 \<Rightarrow> bytes \<Rightarrow> SyscallInfo \<Rightarrow> bool" where
  "call_fits base sec s \<longleftrightarrow> unat (si_num s) < 2 ^ 32 \<and>
     (si_data s = [] \<or> si_bufaddr s = 0 \<or> apart base (length sec) (si_bufaddr s) (length (si_data s)))"

lemma data_offset_field:
  assumes "off < 2 ^ 32"
  shows "drop_bit 8 (push_bit 8 (of_nat off) + hasret_bit s) = of_nat off"
    "(push_bit 8 (of_nat off) + hasret_bit s) mod 256 = hasret_bit s"
  using pack_word [of off 8 1] pack_word [of off 8 0] assms
  by (cases "si_hasret s"; simp add: hasret_bit_def take_bit_eq_mod)+

lemma num_field:
  assumes "unat num < 2 ^ 32" and "len < 2 ^ 32"
  shows "drop_bit 32 (push_bit 32 num + of_nat len) = (num :: u64)"
    "drop_bit 32 (push_bit 32 (push_bit 32 num + of_nat len)) = (of_nat len :: u64)"
proof -
  have p: "drop_bit 32 (push_bit 32 num + of_nat len) = num" "take_bit 32 (push_bit 32 num + of_nat len) = (of_nat len :: u64)"
    using pack_word [of "unat num" 32 len] assms by simp_all
  show "drop_bit 32 (push_bit 32 num + of_nat len) = num" by (rule p(1))
  have "drop_bit 32 (push_bit 32 w) = take_bit 32 w" for w :: u64
    by (rule bit_word_eqI) (auto simp: bit_simps)
  then show "drop_bit 32 (push_bit 32 (push_bit 32 num + of_nat len)) = (of_nat len :: u64)"
    using p(2) by simp
qed

definition call_rec :: "SyscallInfo \<Rightarrow> nat \<Rightarrow> SysRec" where
  "call_rec s off =
    \<lparr>sr_pc = si_pc s, sr_num = push_bit 32 (si_num s) + of_nat (length (si_data s)), sr_p0 = hd (si_params s),
     sr_ret = si_ret s, sr_data_offset = push_bit 8 (of_nat off) + hasret_bit s\<rparr>"

definition payload_at :: "bytes \<Rightarrow> nat \<Rightarrow> SyscallInfo \<Rightarrow> bool" where
  "payload_at sec off s \<longleftrightarrow>
     (if si_data s = [] then off = 0xffffffff
      else off + 8 + length (si_data s) \<le> length sec \<and>
           take (8 + length (si_data s)) (drop off sec) = sys_payload s)"

lemma payload_read:
  assumes "sec_loaded l sec n" and "payload_at sec off s" and "si_data s \<noteq> []"
  shows "get64 (lmem l) (syscall_info_addr (runinfo l) + of_nat off) = si_bufaddr s"
    "mem_read (lmem l) (syscall_info_addr (runinfo l) + of_nat off + 8) (length (si_data s)) = si_data s"
proof -
  have "mem_read (lmem l) (syscall_info_addr (runinfo l) + of_nat off) (8 + length (si_data s)) = sys_payload s"
    using assms mem_read_section [of "lmem l" _ sec off "8 + length (si_data s)"]
    by (simp add: sec_loaded_def payload_at_def)
  note p = mem_read_prefix [OF this]
  show "get64 (lmem l) (syscall_info_addr (runinfo l) + of_nat off) = si_bufaddr s"
    using p [of 0 8] by (simp add: get64_def sys_payload_def)
  show "mem_read (lmem l) (syscall_info_addr (runinfo l) + of_nat off + 8) (length (si_data s)) = si_data s"
    using p [of 8 "length (si_data s)"] by (simp add: sys_payload_def)
qed

lemma takeover_data_ok:
  assumes sec: "sec_loaded l sec n" and pay: "payload_at sec off s"
    and fits: "call_fits (syscall_info_addr (runinfo l)) sec s"
  shows "takeover_data (call_rec s off) l = l\<lparr>lmem := call_mem s (lmem l)\<rparr>"
proof (cases "si_data s = []")
  case True
  then have off: "off = 0xffffffff" using pay by (simp add: payload_at_def)
  have "drop_bit 8 (sr_data_offset (call_rec s off)) = 0xffffffff"
    using data_offset_field(1) [of off s] by (simp add: off call_rec_def)
  then show ?thesis using True by (simp only: takeover_data_def Let_def) (simp add: call_mem_def)
next
  case False
  let ?base = "syscall_info_addr (runinfo l)" and ?n = "length (si_data s)"
  have len: "off + 8 + ?n \<le> length sec" "length sec < 2 ^ 32 - 1"
    using pay sec False by (simp_all add: payload_at_def sec_loaded_def)
  have o: "drop_bit 8 (sr_data_offset (call_rec s off)) = of_nat off"
    using data_offset_field(1) [of off s] len by (simp add: call_rec_def)
  have ne: "(of_nat off :: u64) \<noteq> 0xffffffff"
    using len unat_of_nat_u64 [of off] by (auto dest!: arg_cong [of _ _ unat])
  have sz: "unat (drop_bit 32 (push_bit 32 (sr_num (call_rec s off)))) = ?n"
    using num_field(2) [of "si_num s" ?n] fits len by (simp add: call_rec_def call_fits_def unat_of_nat_u64)
  have "copy_bytes ?n (si_bufaddr s) (?base + of_nat off + 8) (lmem l) = mem_write (lmem l) (si_bufaddr s) (si_data s)"
    if "si_bufaddr s \<noteq> 0"
  proof -
    have "apart (?base + of_nat (off + 8)) ?n (si_bufaddr s) ?n"
      using apart_sub [of ?base "length sec" "si_bufaddr s" ?n "off + 8" ?n] fits that False len
      by (simp add: call_fits_def)
    then have "apart (si_bufaddr s) ?n (?base + of_nat off + 8) ?n"
      using apart_sym by (simp add: add.commute add.left_commute)
    then show ?thesis
      using copy_bytes_apart [of "si_bufaddr s" ?n "?base + of_nat off + 8" "lmem l"] len
        payload_read(2) [OF sec pay False] by simp
  qed
  then show ?thesis
    unfolding takeover_data_def Let_def o sz using ne payload_read(1) [OF sec pay False] False
    by (auto simp: call_mem_def)
qed

lemma sec_loaded_data:
  assumes "sec_loaded l sec n" and "call_fits (syscall_info_addr (runinfo l)) sec s"
  shows "sec_loaded (l\<lparr>lmem := call_mem s (lmem l)\<rparr>) sec n"
  using assms mem_read_write_apart [of "syscall_info_addr (runinfo l)" "length sec" "si_bufaddr s" "si_data s"]
  by (auto simp: sec_loaded_def call_mem_def call_fits_def)

section \<open>A recorded call is answered as recorded\<close>

definition armed_mem :: "RunningInfo \<Rightarrow> memory \<Rightarrow> memory" where
  "armed_mem ri m = (if nowcallnum ri + 1 = totalcallnum ri then put32 (exitpc ri) (exitJmpInst ri) m else m)"

lemma sec_call_parts:
  assumes "sec_call sec n i s" and "length sec < 2 ^ 32 - 1"
  obtains r off where "8 + 4 * n + 40 * r + 40 \<le> length sec" "take 4 (drop (8 + 4 * i) sec) = le32 (of_nat r)"
    "take 40 (drop (8 + 4 * n + 40 * r) sec) = rec_bytes s (of_nat off)" "payload_at sec off s" "off < 2 ^ 32"
proof -
  obtain r off where 1: "8 + 4 * n + 40 * r + 40 \<le> length sec" "take 4 (drop (8 + 4 * i) sec) = le32 (of_nat r)"
    "take 40 (drop (8 + 4 * n + 40 * r) sec) = rec_bytes s (of_nat off)" "payload_at sec off s"
    using assms(1) unfolding sec_call_def payload_at_def by blast
  moreover have "off < 2 ^ 32" using 1(4) assms(2) by (auto simp: payload_at_def split: if_splits)
  ultimately show ?thesis by (rule that)
qed

lemma ucast_of_nat_u32: "r < 2 ^ 32 \<Longrightarrow> (ucast (of_nat r :: u32) :: u64) = of_nat r"
  by (simp add: word_unat_eq_iff unsigned_ucast_eq unsigned_of_nat take_bit_eq_mod)

lemma sint_idx:
  assumes "Suc r < 2 ^ 31"
  shows "sint ((of_nat r :: u32) + 1) = int (Suc r)"
proof -
  have e: "(of_nat r :: u32) + 1 = word_of_int (int (Suc r))" by simp
  show ?thesis unfolding e using int_word_sint [of "int (Suc r)", where 'a = 32] assms by simp
qed

lemma sec_loaded_cong:
  assumes "lmem l' = lmem l" "syscall_info_addr (runinfo l') = syscall_info_addr (runinfo l)"
    "totalcallnum (runinfo l') = totalcallnum (runinfo l)"
  shows "sec_loaded l' sec n \<longleftrightarrow> sec_loaded l sec n"
  using assms by (simp add: sec_loaded_def)

lemma takeover_ret_ok:
  assumes sec: "sec_loaded l sec n" and r: "8 + 4 * n + 40 * r + 40 \<le> length sec"
    and rec: "take 40 (drop (8 + 4 * n + 40 * r) sec) = rec_bytes s (of_nat off)" and off: "off < 2 ^ 32"
    and a0: "program_intregs l 10 = hd (si_params s)"
  shows "takeover_ret (of_nat r) l = l\<lparr>program_intregs := (program_intregs l)(10 := call_a0 s)\<rparr>"
proof -
  have rl: "r < 2 ^ 32" using r sec by (simp add: sec_loaded_def)
  have idem: "(program_intregs l)(10 := hd (si_params s)) = program_intregs l" using a0 by auto
  show ?thesis
    using sysinfo_at_section [OF sec r rec] data_offset_field(2) [OF off, of s]
    by (simp add: takeover_ret_def Let_def ucast_of_nat_u32 [OF rl] call_a0_def hasret_bit_def idem)
qed

text \<open>The part of the takeover after the check of the call number.\<close>

lemma takeover_effect:
  assumes sec: "sec_loaded l sec n" and i: "i < n" and now: "nowcallnum (runinfo l) = of_nat i"
    and idx: "take 4 (drop (8 + 4 * i) sec) = le32 (of_nat r)" and r: "8 + 4 * n + 40 * r + 40 \<le> length sec"
    and rec: "take 40 (drop (8 + 4 * n + 40 * r) sec) = rec_bytes s (of_nat off)"
    and pay: "payload_at sec off s" "off < 2 ^ 32"
    and fits: "call_fits (syscall_info_addr (runinfo l)) sec s"
    and room: "Suc r < length (sysJmpinfos (runinfo l))"
    and a0: "program_intregs l 10 = hd (si_params s)"
  defines "j \<equiv> sysJmpinfos (runinfo l) ! Suc r"
  shows "takeover_jmp (takeover_ret (of_nat r) (takeover_data (call_rec s off) l)) =
    Inr (l\<lparr>lmem := put32 (jal_addr j) (jal_inst j) (call_mem s (lmem l)), tempMemory := jalr_target j,
           program_intregs := (program_intregs l)(10 := call_a0 s)\<rparr>)"
proof -
  let ?l1 = "l\<lparr>lmem := call_mem s (lmem l)\<rparr>"
  let ?l2 = "?l1\<lparr>program_intregs := (program_intregs l)(10 := call_a0 s)\<rparr>"
  have rl: "Suc r < 2 ^ 31" "r < 2 ^ 32" using r sec by (simp_all add: sec_loaded_def)
  have sec1: "sec_loaded ?l1 sec n" using sec_loaded_data [OF sec fits] .
  then have sec2: "sec_loaded ?l2 sec n" by (subst sec_loaded_cong [of ?l2 ?l1]) simp_all
  have ret: "takeover_ret (of_nat r) ?l1 = ?l2" using takeover_ret_ok [OF sec1 r rec pay(2)] a0 by simp
  have ix: "sint (sysidx_at ?l2 (nowcallnum (runinfo ?l2)) + 1) = int (Suc r)"
    using sysidx_at_section [OF sec2 i idx] now sint_idx [OF rl(1)] by simp
  have "takeover_jmp ?l2 = Inr (?l2\<lparr>lmem := put32 (jal_addr j) (jal_inst j) (call_mem s (lmem l)), tempMemory := jalr_target j\<rparr>)"
    unfolding takeover_jmp_def Let_def ix using room by (simp add: updateJmpInst_def j_def del: of_nat_Suc)
  then show ?thesis unfolding takeover_data_ok [OF sec pay(1) fits] ret by simp
qed

text \<open>
  What both loaders do with a call before they answer it: the registers are saved, the counters are added
  up, and the record of the call is looked up.
\<close>

definition arrived :: "u64 \<times> u64 \<Rightarrow> (u32 \<Rightarrow> u64) \<Rightarrow> loader \<Rightarrow> loader" where
  "arrived ci0 regs l =
     (Save_ProgramIntRegs regs l)\<lparr>runinfo := (runinfo (Save_ProgramIntRegs regs l))
       \<lparr>ri_cycles := ri_cycles (runinfo (Save_ProgramIntRegs regs l)) + (fst ci0 - lastcycles (runinfo (Save_ProgramIntRegs regs l))),
        ri_insts := ri_insts (runinfo (Save_ProgramIntRegs regs l)) + (snd ci0 - lastinsts (runinfo (Save_ProgramIntRegs regs l)))\<rparr>\<rparr>"

definition entered :: "u64 \<times> u64 \<Rightarrow> (u32 \<Rightarrow> u64) \<Rightarrow> u64 \<Rightarrow> loader \<Rightarrow> loader" where
  "entered ci0 regs a0 l = (arrived ci0 regs l)\<lparr>program_intregs := (program_intregs (arrived ci0 regs l))(10 := a0)\<rparr>"

lemma arrived_lookup:
  "sysidx_at (arrived ci0 regs l) = sysidx_at l" "sysinfo_at (arrived ci0 regs l) = sysinfo_at l"
  by (simp_all add: fun_eq_iff sysidx_at_def sysinfo_at_def arrived_def Save_ProgramIntRegs_def)

lemma entered_simps [simp]:
  "lmem (entered ci0 regs a0 l) = lmem l"
  "syscall_info_addr (runinfo (entered ci0 regs a0 l)) = syscall_info_addr (runinfo l)"
  "totalcallnum (runinfo (entered ci0 regs a0 l)) = totalcallnum (runinfo l)"
  "nowcallnum (runinfo (entered ci0 regs a0 l)) = nowcallnum (runinfo l)"
  "sysJmpinfos (runinfo (entered ci0 regs a0 l)) = sysJmpinfos (runinfo l)"
  "exitpc (runinfo (entered ci0 regs a0 l)) = exitpc (runinfo l)"
  "exit_cause (runinfo (entered ci0 regs a0 l)) = exit_cause (runinfo l)"
  "exitJmpInst (runinfo (entered ci0 regs a0 l)) = exitJmpInst (runinfo l)"
  "program_intregs (entered ci0 regs a0 l) 10 = a0"
  by (simp_all add: entered_def arrived_def Save_ProgramIntRegs_def)

lemma entered_regs: "1 \<le> x \<Longrightarrow> x < 32 \<Longrightarrow> x \<noteq> 10 \<Longrightarrow> program_intregs (entered ci0 regs a0 l) x = regs x"
  by (simp add: entered_def arrived_def Save_ProgramIntRegs_def)

lemma sec_loaded_entered: "sec_loaded l sec n \<Longrightarrow> sec_loaded (entered ci0 regs a0 l) sec n"
  by (subst sec_loaded_cong [of _ l]) simp_all

lemma section_fetch:
  assumes sec: "sec_loaded l sec n" and call: "sec_call sec n i s" and i: "i < n"
    and now: "nowcallnum (runinfo l) = of_nat i" and fits: "call_fits (syscall_info_addr (runinfo l)) sec s"
  obtains r off where "8 + 4 * n + 40 * r + 40 \<le> length sec" "take 4 (drop (8 + 4 * i) sec) = le32 (of_nat r)"
    "take 40 (drop (8 + 4 * n + 40 * r) sec) = rec_bytes s (of_nat off)" "payload_at sec off s" "off < 2 ^ 32" "r < 2 ^ 32"
    "sysidx_at l (nowcallnum (runinfo l)) = of_nat r" "sysinfo_at l (of_nat r) = call_rec s off"
    "nowcallnum (runinfo l) < totalcallnum (runinfo l)" "drop_bit 32 (sr_num (call_rec s off)) = si_num s"
    "sr_p0 (call_rec s off) = hd (si_params s)"
proof -
  have len: "length sec < 2 ^ 32 - 1" "8 + 4 * n \<le> length sec" "totalcallnum (runinfo l) = of_nat n"
    using sec by (simp_all add: sec_loaded_def)
  from call len(1) obtain r off where p: "8 + 4 * n + 40 * r + 40 \<le> length sec" "take 4 (drop (8 + 4 * i) sec) = le32 (of_nat r)"
    "take 40 (drop (8 + 4 * n + 40 * r) sec) = rec_bytes s (of_nat off)" "payload_at sec off s" "off < 2 ^ 32"
    by (rule sec_call_parts)
  show thesis
  proof (rule that [OF p])
    show "r < 2 ^ 32" using p(1) len(1) by linarith
    show "sysidx_at l (nowcallnum (runinfo l)) = of_nat r" using sysidx_at_section [OF sec i p(2)] by (simp add: now)
    show "sysinfo_at l (of_nat r) = call_rec s off" using sysinfo_at_section [OF sec p(1,3)] by (simp add: call_rec_def)
    show "nowcallnum (runinfo l) < totalcallnum (runinfo l)"
      using i len by (simp add: now word_less_nat_alt unat_of_nat_u64)
    show "drop_bit 32 (sr_num (call_rec s off)) = si_num s"
      using num_field(1) [of "si_num s" "length (si_data s)"] fits p(4) len(1)
      by (cases "si_data s = []") (simp_all add: call_rec_def call_fits_def payload_at_def)
  qed (simp add: call_rec_def)
qed

lemma takeoverSyscall_enter:
  assumes "sysidx_at l (nowcallnum (runinfo l)) = idx" and "sysinfo_at l (ucast idx) = infos"
    and "nowcallnum (runinfo l) < totalcallnum (runinfo l)" and "drop_bit 32 (sr_num infos) = regs 17"
  shows "takeoverSyscall ci0 ci1 regs l =
    res_bind (takeover_jmp (takeover_ret idx (takeover_data infos (entered ci0 regs (sr_p0 infos) l)))) (\<lambda>l'.
      Inr ((takeover_count l')\<lparr>runinfo := (runinfo (takeover_count l'))\<lparr>lastcycles := fst ci1, lastinsts := snd ci1\<rparr>\<rparr>))"
proof -
  have "nowcallnum (runinfo (Save_ProgramIntRegs regs l)) = nowcallnum (runinfo l)"
    "totalcallnum (runinfo (Save_ProgramIntRegs regs l)) = totalcallnum (runinfo l)"
    "program_intregs (arrived ci0 regs l) 17 = regs 17"
    by (simp_all add: arrived_def Save_ProgramIntRegs_def)
  then show ?thesis
    unfolding takeoverSyscall_def Let_def arrived_def [symmetric] using assms
    by (simp add: arrived_lookup entered_def flip: not_le)
qed

theorem takeover_replays:
  assumes sec: "sec_loaded l sec n" and call: "sec_call sec n i s" and i: "i < n"
    and now: "nowcallnum (runinfo l) = of_nat i" and num: "regs 17 = si_num s"
    and fits: "call_fits (syscall_info_addr (runinfo l)) sec s"
    and room: "Suc (unat (sysidx_at l (of_nat i))) < length (sysJmpinfos (runinfo l))"
  defines "j \<equiv> sysJmpinfos (runinfo l) ! Suc (unat (sysidx_at l (of_nat i)))"
  obtains l' where "takeoverSyscall ci0 ci1 regs l = Inr l'"
    "sr_pc (sysinfo_at l (ucast (sysidx_at l (of_nat i)))) = si_pc s"
    "lmem l' = armed_mem (runinfo l) (put32 (jal_addr j) (jal_inst j) (call_mem s (lmem l)))"
    "tempMemory l' = jalr_target j"
    "program_intregs l' 10 = call_a0 s"
    "\<And>x. 1 \<le> x \<Longrightarrow> x < 32 \<Longrightarrow> x \<noteq> 10 \<Longrightarrow> program_intregs l' x = regs x"
    "nowcallnum (runinfo l') = of_nat (Suc i)"
proof -
  from sec call i now fits obtain r off where r: "8 + 4 * n + 40 * r + 40 \<le> length sec"
    and idx: "take 4 (drop (8 + 4 * i) sec) = le32 (of_nat r)"
    and rec: "take 40 (drop (8 + 4 * n + 40 * r) sec) = rec_bytes s (of_nat off)"
    and pay: "payload_at sec off s" "off < 2 ^ 32" and rl: "r < 2 ^ 32"
    and x: "sysidx_at l (nowcallnum (runinfo l)) = of_nat r" and inf: "sysinfo_at l (of_nat r) = call_rec s off"
    and f: "nowcallnum (runinfo l) < totalcallnum (runinfo l)" "drop_bit 32 (sr_num (call_rec s off)) = si_num s"
      "sr_p0 (call_rec s off) = hd (si_params s)"
    by (rule section_fetch)
  have u: "unat (of_nat r :: u32) = r" "ucast (of_nat r :: u32) = (of_nat r :: u64)"
    using rl by (rule u32_small, rule ucast_of_nat_u32)
  have xi: "sysidx_at l (of_nat i) = of_nat r" using x by (simp add: now)
  let ?e = "entered ci0 regs (hd (si_params s)) l"
  define l4 where "l4 = ?e\<lparr>lmem := put32 (jal_addr j) (jal_inst j) (call_mem s (lmem l)), tempMemory := jalr_target j,
           program_intregs := (program_intregs ?e)(10 := call_a0 s)\<rparr>"
  have "Suc r < length (sysJmpinfos (runinfo l))" "sysJmpinfos (runinfo l) ! Suc r = j"
    using room by (simp_all add: j_def xi u)
  then have eff: "takeover_jmp (takeover_ret (of_nat r) (takeover_data (call_rec s off) ?e)) = Inr l4"
    using takeover_effect [OF sec_loaded_entered [OF sec] i _ idx r rec pay, of ci0 regs "hd (si_params s)"] now fits by (simp add: l4_def)
  define l' where "l' = (takeover_count l4)\<lparr>runinfo := (runinfo (takeover_count l4))\<lparr>lastcycles := fst ci1, lastinsts := snd ci1\<rparr>\<rparr>"
  have run: "takeoverSyscall ci0 ci1 regs l = Inr l'"
    using takeoverSyscall_enter [OF x _ f(1), of "call_rec s off" regs ci0 ci1] inf f(2,3) num eff by (simp add: u l'_def)
  have "program_intregs l' x = regs x" if "1 \<le> x" "x < 32" "x \<noteq> 10" for x
    using that entered_regs [OF that] by (simp add: l'_def takeover_count_def Let_def l4_def)
  moreover have "nowcallnum (runinfo l') = of_nat (Suc i)"
    by (simp add: l'_def takeover_count_def Let_def l4_def now add.commute)
  moreover have "lmem l' = armed_mem (runinfo l) (put32 (jal_addr j) (jal_inst j) (call_mem s (lmem l)))"
    by (simp add: l'_def takeover_count_def Let_def l4_def armed_mem_def)
  moreover have "tempMemory l' = jalr_target j" "program_intregs l' 10 = call_a0 s"
    by (simp_all add: l'_def takeover_count_def Let_def l4_def)
  moreover have "sr_pc (sysinfo_at l (ucast (sysidx_at l (of_nat i)))) = si_pc s"
    by (simp add: xi u inf call_rec_def)
  ultimately show ?thesis using run by (intro that)
qed

lemma takeover_overflow:
  assumes "totalcallnum (runinfo l) \<le> nowcallnum (runinfo l)"
  shows "takeoverSyscall ci0 ci1 regs l = Inl (ExitProg 0)"
  using assms by (simp add: takeoverSyscall_def Let_def Save_ProgramIntRegs_def)

end
