(* ===== verification/WindowCodec.thy ===== *)
theory WindowCodec
  imports RecoverFLoads
begin

unbundle bit_operations_syntax

text \<open>
  What one window looks like in the stream of \<open>sim/ckpt_saveFLoads.cc\<close>: address, size, bit
  map and non-zero words. Building it from records and unpacking it into memory are inverse
  to each other.
\<close>

section \<open>Pages\<close>

definition page_word :: "(nat \<Rightarrow> u8) \<Rightarrow> nat \<Rightarrow> bytes" where
  "page_word page w = map page [8 * w..<8 * w + 8]"

definition nz :: "(nat \<Rightarrow> u8) \<Rightarrow> nat \<Rightarrow> bool" where
  "nz page w \<longleftrightarrow> page_word page w \<noteq> replicate 8 0"

definition flag_byte :: "(nat \<Rightarrow> u8) \<Rightarrow> nat \<Rightarrow> u8" where
  "flag_byte page i = horner_sum of_bool 2 (map (\<lambda>j. nz page (8 * i + j)) [0..<8])"

definition win_raw :: "u64 \<times> (nat \<Rightarrow> u8) \<Rightarrow> bytes" where
  "win_raw w = (case w of (base, page) \<Rightarrow>
     le64 base @ le64 4096 @ map (flag_byte page) [0..<64] @
     concat (map (page_word page) (filter (nz page) [0..<512])))"

lemma length_page_word [simp]: "length (page_word page w) = 8"
  by (simp add: page_word_def)

lemma page_word_slice: "page_word (bm b) w = slice b (8 * w) 8"
  by (simp add: page_word_def slice_def)

lemma nz_un64: "nz (bm b) w \<longleftrightarrow> un64 (slice b (8 * w) 8) \<noteq> 0"
  by (simp add: nz_def page_word_slice un64_eq_0_iff)

lemma bit_flag_byte: "j < 8 \<Longrightarrow> bit (flag_byte page i) j \<longleftrightarrow> nz page (8 * i + j)"
  by (simp add: flag_byte_def bit_horner_sum_bit_iff)

lemma page_word_cong: "(\<And>k. k < 8 \<Longrightarrow> p (8 * w + k) = q (8 * w + k)) \<Longrightarrow> page_word p w = page_word q w"
  unfolding page_word_def
  by (rule nth_equalityI) auto

section \<open>Filling a page\<close>

definition page_inv :: "u64 \<Rightarrow> memory \<Rightarrow> cbuf \<times> cbuf \<Rightarrow> bool" where
  "page_inv base m st \<longleftrightarrow> blen (fst st) = 4096 \<and> blen (snd st) = 4096 \<and>
     (\<forall>k < 4096. bm (snd st) k = m (base + of_nat k)) \<and>
     (\<forall>w < 512. bm (fst st) w = (if nz (bm (snd st)) w then 1 else 0))"

lemma flag_word_eq:
  assumes "blen page = 4096" "blen map1 = 4096" "w < 512"
  shows "flag_word page map1 w = Inr (poked map1 w [if nz (bm page) w then 1 else 0])"
  using assms by (simp add: flag_word_def peek_def poke_def nz_un64 mult.commute [of _ 8])

lemma window_offset:
  assumes "k < 4096" and "unat (a - base) \<le> 4088"
  shows "in_range (base + of_nat k) a 8 \<longleftrightarrow> unat (a - base) \<le> k \<and> k < unat (a - base) + 8"
    and "in_range (base + of_nat k) a 8 \<Longrightarrow> unat (base + of_nat k - a) = k - unat (a - base)"
proof -
  let ?o = "unat (a - base)"
  have eq: "base + of_nat k - a = (of_nat k :: u64) - of_nat ?o" by (simp add: algebra_simps)
  have k: "unat (of_nat k :: u64) = k" using assms(1) by (simp add: unat_of_nat_u64)
  have e: "unat (base + of_nat k - a) = (if ?o \<le> k then k - ?o else k + 2 ^ 64 - ?o)"
    unfolding eq using unat_diff_of_nat [of ?o "of_nat k"] assms(2) by (simp only: k) simp
  show "in_range (base + of_nat k) a 8 \<longleftrightarrow> ?o \<le> k \<and> k < ?o + 8"
    unfolding in_range_def e using assms by auto
  then show "in_range (base + of_nat k) a 8 \<Longrightarrow> unat (base + of_nat k - a) = k - ?o"
    unfolding e by simp
qed

lemma word_beside:
  fixes v n k :: nat
  assumes "v \<noteq> n div 8" and "n mod 8 = 0 \<or> v \<noteq> n div 8 + 1" and "k < 8"
  shows "8 * v + k < n \<or> n + 8 \<le> 8 * v + k"
proof (cases "v < n div 8")
  case True
  then have "8 * v + 8 \<le> 8 * (n div 8)" by simp
  with assms(3) mult_div_mod_eq [of 8 n] show ?thesis by linarith
next
  case False
  with assms(1) have vw: "n div 8 + 1 \<le> v" by simp
  show ?thesis
  proof (cases "n mod 8 = 0")
    case True
    with vw mult_div_mod_eq [of 8 n] show ?thesis by linarith
  next
    case False
    with vw assms(2) have "n div 8 + 2 \<le> v" by auto
    with mult_div_mod_eq [of 8 n] mod_less_divisor [of 8 n] show ?thesis by linarith
  qed
qed

lemma nz_beside:
  assumes "v \<noteq> n div 8" and "n mod 8 = 0 \<or> v \<noteq> n div 8 + 1" and "length d = 8"
  shows "nz (bm (poked page n d)) v = nz (bm page) v"
proof -
  have "page_word (bm (poked page n d)) v = page_word (bm page) v"
  proof (rule page_word_cong)
    fix k :: nat assume "k < 8"
    from word_beside [OF assms(1,2) this] show "bm (poked page n d) (8 * v + k) = bm page (8 * v + k)"
      using assms(3) by (auto simp: bm_poked)
  qed
  then show ?thesis by (simp add: nz_def)
qed

lemma fill_record_ok:
  assumes inv: "page_inv base m (map1, page)" and o: "unat (fl_addr l - base) \<le> 4088"
    and d: "length (fl_data l) = 8"
  shows "\<exists>st. fill_record base l (map1, page) = Inr st \<and> page_inv base (fl_write l m) st"
proof -
  let ?o = "unat (fl_addr l - base)"
  let ?page = "poked page ?o (fl_data l)"
  define w where "w = ?o div 8"
  have w: "w < 512" using o by (simp add: w_def less_mult_imp_div_less)
  have shift: "drop_bit 3 (?o - ?o mod 8) = w"
    by (simp add: w_def drop_bit_eq_div minus_mod_eq_mult_div)
  have b: "blen map1 = 4096" "blen page = 4096" using inv by (simp_all add: page_inv_def)
  have pg: "bm ?page k = fl_write l m (base + of_nat k)" if "k < 4096" for k
    using inv that window_offset [OF that o] d
    by (auto simp: page_inv_def bm_poked fl_write_def mem_write_in mem_write_out)
  note same = nz_beside [where n = ?o and d = "fl_data l", folded w_def, OF _ _ d]
  let ?m1 = "poked map1 w [if nz (bm ?page) w then 1 else 0]"
  let ?m2 = "poked ?m1 (w + 1) [if nz (bm ?page) (w + 1) then 1 else 0]"
  have poke: "poke page ?o (fl_data l) = Inr ?page" using o d b by (simp add: poke_def)
  have f1: "flag_word ?page map1 w = Inr ?m1" using b w by (simp add: flag_word_eq)
  show ?thesis
  proof (cases "?o mod 8 = 0")
    case True
    then have "fill_record base l (map1, page) = Inr (?m1, ?page)"
      using poke f1 shift by (simp add: fill_record_def Let_def)
    moreover have "page_inv base (fl_write l m) (?m1, ?page)"
      using inv b pg same True by (auto simp: page_inv_def bm_poked1)
    ultimately show ?thesis by blast
  next
    case False
    then have "w + 1 < 512" using o mult_div_mod_eq [of 8 ?o] mod_less_divisor [of 8 ?o] unfolding w_def by linarith
    then have "flag_word ?page ?m1 (w + 1) = Inr ?m2"
      using b by (simp add: flag_word_eq)
    then have "fill_record base l (map1, page) = Inr (?m2, ?page)"
      using False poke f1 shift by (simp add: fill_record_def Let_def)
    moreover have "page_inv base (fl_write l m) (?m2, ?page)"
      using inv b pg same by (auto simp: page_inv_def bm_poked1)
    ultimately show ?thesis by blast
  qed
qed

lemma fill_records_ok:
  assumes "page_inv base m st" and "\<forall>l \<in> set ls. unat (fl_addr l - base) \<le> 4088 \<and> length (fl_data l) = 8"
  shows "\<exists>st'. res_fold (fill_record base) ls st = Inr st' \<and> page_inv base (fold fl_write ls m) st'"
  using assms
proof (induction ls arbitrary: st m)
  case (Cons l ls)
  obtain st1 where "fill_record base l st = Inr st1" "page_inv base (fl_write l m) st1"
    using fill_record_ok [of base m "fst st" "snd st" l] Cons.prems by auto
  with Cons show ?case by simp
qed simp

lemma page_inv_start: "page_inv base (\<lambda>_. 0) (zero_buf MaxCoverSize, zero_buf MaxCoverSize)"
proof -
  have "\<not> nz (\<lambda>_. 0) w" for w by (simp add: nz_def page_word_def map_replicate_const)
  then show ?thesis by (simp add: page_inv_def zero_buf_def MaxCoverSize_def)
qed

section \<open>Building the bit map and the words\<close>

lemma compress_bits_eq:
  assumes "i * 8 + n \<le> blen map1"
  shows "compress_bits n map1 i d =
    Inr (horner_sum (\<lambda>j. ucast (bm map1 (i * 8 + j))) 2 [0..<n] + 2 ^ n * d)"
  using assms
proof (induction n arbitrary: d)
  case (Suc n)
  have "horner_sum (\<lambda>j. ucast (bm map1 (i * 8 + j)) :: u32) 2 [0..<Suc n] =
      horner_sum (\<lambda>j. ucast (bm map1 (i * 8 + j))) 2 [0..<n] + 2 ^ n * ucast (bm map1 (i * 8 + n))"
    by (simp add: horner_sum_append)
  with Suc show ?case by (simp add: peek1_def algebra_simps)
qed simp

lemma compress_byte_eq:
  assumes inv: "page_inv base m (map1, page)" and i: "i < 64"
  shows "\<exists>d. compress_bits 8 map1 i 0 = Inr d \<and> ucast d = flag_byte (bm page) i"
proof -
  let ?d = "horner_sum (\<lambda>j. ucast (bm map1 (i * 8 + j))) 2 [0..<8] :: u32"
  have c: "compress_bits 8 map1 i 0 = Inr ?d"
    using compress_bits_eq [of i 8 map1 0] inv i by (simp add: page_inv_def)
  have "?d = horner_sum of_bool 2 (map (\<lambda>j. nz (bm page) (8 * i + j)) [0..<8])"
    unfolding horner_sum_eq_sum
    using inv i by (intro sum.cong) (auto simp: page_inv_def mult.commute)
  then have "bit ?d k \<longleftrightarrow> nz (bm page) (8 * i + k)" if "k < 8" for k
    using that by (simp add: bit_horner_sum_bit_iff)
  then have "ucast ?d = flag_byte (bm page) i"
    by (intro bit_word_eqI) (simp add: bit_flag_byte bit_ucast_iff)
  with c show ?thesis by blast
qed

lemma compress_map_ok:
  assumes inv: "page_inv base m (map1, page)"
  shows "\<exists>b. compress_map map1 (zero_buf MaxCoverSize) (MaxCoverSize div 8) = Inr b \<and> blen b = 4096 \<and>
    slice b 0 64 = map (flag_byte (bm page)) [0..<64]"
proof -
  define step where "step = (\<lambda>i b. res_bind (compress_bits 8 map1 i 0) (\<lambda>data. poke b i [ucast data]))"
  have "\<exists>b. res_fold step [0..<n] (zero_buf 4096) = Inr b \<and> blen b = 4096 \<and>
      slice b 0 n = map (flag_byte (bm page)) [0..<n]" if "n \<le> 64" for n
    using that
  proof (induction n)
    case (Suc n)
    then obtain b where b: "res_fold step [0..<n] (zero_buf 4096) = Inr b" "blen b = 4096"
      "slice b 0 n = map (flag_byte (bm page)) [0..<n]" by auto
    obtain d where "compress_bits 8 map1 n 0 = Inr d" "ucast d = flag_byte (bm page) n"
      using compress_byte_eq [OF inv, of n] Suc.prems by auto
    then have "step n b = Inr (poked b n [flag_byte (bm page) n])"
      using Suc.prems b(2) by (simp add: step_def poke_def)
    with b slice_poked [of b n "[flag_byte (bm page) n]"] show ?case
      by (simp add: res_fold_append)
  qed (simp add: zero_buf_def)
  from this [of 64] show ?thesis
    by (simp add: compress_map_def MaxCoverSize_def step_def drop_bit_eq_div)
qed

lemma push_words:
  assumes "8 * n \<le> blen b"
  shows "res_fold (\<lambda>c. push_word b (8 * c)) [0..<n] acc = Inr (acc @ map (\<lambda>c. un64 (slice b (8 * c) 8)) [0..<n])"
  using assms by (induction n) (simp_all add: res_fold_append push_word_def peek_def)

lemma push_flagged:
  assumes inv: "page_inv base m (map1, page)" and "n \<le> 512"
  shows "res_fold (\<lambda>c sdata. res_bind (peek1 map1 c) (\<lambda>x.
            if x = 1 then push_word page (c * 8) sdata else Inr sdata)) [0..<n] acc =
    Inr (acc @ map (\<lambda>c. un64 (page_word (bm page) c)) (filter (nz (bm page)) [0..<n]))"
  using assms(2)
proof (induction n)
  case (Suc n)
  with inv show ?case
    by (simp add: res_fold_append page_inv_def peek1_def push_word_def peek_def page_word_slice mult.commute)
qed simp

lemma le64_words: "8 * n \<le> 4096 \<Longrightarrow>
  concat (map (\<lambda>c. le64 (un64 (slice b (8 * c) 8))) [0..<n]) = slice b 0 (8 * n)"
proof (induction n)
  case (Suc n)
  then show ?case using slice_add [of b 0 "8 * n" 8] by (simp add: add.commute)
qed simp

text \<open>The bytes that \<open>saveFLoads_comp\<close> collects for a window describe its page.\<close>

lemma window_data_ok:
  assumes ls: "\<forall>l \<in> set ls. unat (fl_addr l - base) \<le> 4088 \<and> length (fl_data l) = 8"
  shows "\<exists>sdata. window_data base ls = Inr sdata \<and>
    concat (map le64 sdata) = win_raw (base, \<lambda>k. if k < 4096 then fl_image ls (base + of_nat k) else 0)"
proof -
  obtain map1 page where st: "res_fold (fill_record base) ls (zero_buf MaxCoverSize, zero_buf MaxCoverSize) =
      Inr (map1, page)" "page_inv base (fl_image ls) (map1, page)"
    using fill_records_ok [OF page_inv_start ls] by (auto simp: fl_image_def)
  obtain b where b: "compress_map map1 (zero_buf MaxCoverSize) (MaxCoverSize div 8) = Inr b" "blen b = 4096"
    "slice b 0 64 = map (flag_byte (bm page)) [0..<64]"
    using compress_map_ok [OF st(2)] by blast
  let ?sd = "[base, 4096] @ map (\<lambda>c. un64 (slice b (8 * c) 8)) [0..<8] @
      map (\<lambda>c. un64 (page_word (bm page) c)) (filter (nz (bm page)) [0..<512])"
  have data: "window_data base ls = Inr ?sd"
    using st b(1,2) push_words [of 8 b] push_flagged [OF st(2), of 512]
    by (simp add: window_data_def MaxCoverSize_def)
  have raw: "concat (map le64 ?sd) = win_raw (base, bm page)"
    using le64_words [of 8 b] b(3) by (simp add: win_raw_def comp_def)
  have same: "win_raw (base, bm page) = win_raw (base, \<lambda>k. if k < 4096 then fl_image ls (base + of_nat k) else 0)"
  proof -
    let ?p = "\<lambda>k. if k < 4096 then fl_image ls (base + of_nat k) else 0"
    have pw: "page_word (bm page) w = page_word ?p w" if "w < 512" for w
      using that st(2) by (intro page_word_cong) (simp add: page_inv_def)
    then have n: "nz (bm page) w = nz ?p w" if "w < 512" for w using that by (simp add: nz_def)
    have "flag_byte (bm page) i = flag_byte ?p i" if "i < 64" for i
      using that n by (intro bit_word_eqI) (simp add: bit_flag_byte)
    then have "map (flag_byte (bm page)) [0..<64] = map (flag_byte ?p) [0..<64]" by simp
    moreover have "map (page_word (bm page)) (filter (nz (bm page)) [0..<512]) =
        map (page_word ?p) (filter (nz ?p) [0..<512])"
      using pw n by (intro map_cong filter_cong) auto
    ultimately show ?thesis by (simp only: win_raw_def prod.case)
  qed
  show ?thesis
    by (intro exI [of _ ?sd] conjI data trans [OF raw same])
qed

section \<open>Unpacking a window\<close>

definition put_word :: "u64 \<Rightarrow> (nat \<Rightarrow> u8) \<Rightarrow> nat \<Rightarrow> memory \<Rightarrow> memory" where
  "put_word addr page w mem =
     (if nz page w then mem_write mem (addr + of_nat (8 * w)) (page_word page w) else mem)"

definition nz_count :: "(nat \<Rightarrow> u8) \<Rightarrow> nat \<Rightarrow> nat" where
  "nz_count page w = length (filter (nz page) [0..<w])"

lemma nz_count_Suc [simp]: "nz_count page (Suc w) = nz_count page w + (if nz page w then 1 else 0)"
  by (simp add: nz_count_def)

lemma nz_count_mono: "v \<le> w \<Longrightarrow> nz_count page v \<le> nz_count page w"
  by (induction w) (auto simp: le_Suc_eq)

lemma slice_concat_words:
  assumes "slice b d (8 * length L) = concat (map f L)" and "\<And>x. length (f x) = 8" and "k < length L"
  shows "slice b (d + 8 * k) 8 = f (L ! k)"
  using assms
proof (induction L arbitrary: d k)
  case (Cons x L)
  have sp: "slice b d 8 = f x" "slice b (d + 8) (8 * length L) = concat (map f L)"
    using Cons.prems(1,2) slice_add [of b d 8 "8 * length L"] by simp_all
  show ?case
  proof (cases k)
    case (Suc j)
    then show ?thesis using Cons.IH [OF sp(2) Cons.prems(2), of j] Cons.prems(3) by (simp add: add.assoc)
  qed (use sp(1) in simp)
qed simp

lemma filter_nth_count: "nz page w \<Longrightarrow> w < n \<Longrightarrow>
  nz_count page w < length (filter (nz page) [0..<n]) \<and> filter (nz page) [0..<n] ! nz_count page w = w"
proof (induction n)
  case (Suc n)
  then show ?case
    by (cases "w = n") (auto simp: nz_count_def nth_append)
qed simp

text \<open>The words of the window lie behind its bit map, in order.\<close>

definition holds_words :: "cbuf \<Rightarrow> nat \<Rightarrow> (nat \<Rightarrow> u8) \<Rightarrow> bool" where
  "holds_words raw d page \<longleftrightarrow> d + 8 * nz_count page 512 \<le> blen raw \<and>
     (\<forall>w < 512. nz page w \<longrightarrow> slice raw (d + 8 * nz_count page w) 8 = page_word page w)"

lemma poked1_again: "poked (poked b i [x]) i [y] = poked b i [y]"
  by (rule cbuf.equality) (auto simp: poked_def fun_eq_iff)

lemma poked1_same: "bm b i = x \<Longrightarrow> poked b i [x] = b"
  by (rule cbuf.equality) (auto simp: poked_def fun_eq_iff le_less_Suc_eq)

lemma unpack_bits_ok:
  assumes h: "holds_words raw d page" and ci: "ci < d" "bm raw ci = flag_byte page i" and i: "i < 64"
    and n: "n \<le> 8"
  shows "res_fold (unpack_bit (addr + of_nat (i * 8 * 8)) ci) [0..<n] (raw, d + 8 * nz_count page (8 * i), mem) =
    Inr (poked raw ci [drop_bit n (flag_byte page i)], d + 8 * nz_count page (8 * i + n),
         fold (put_word addr page) [8 * i..<8 * i + n] mem)"
  using n
proof (induction n)
  case 0
  then show ?case by (simp add: poked1_same ci(2))
next
  case (Suc n)
  let ?c = "flag_byte page i"
  let ?w = "8 * i + n"
  let ?raw = "poked raw ci [drop_bit n ?c]"
  have w: "?w < 512" using i Suc.prems by simp
  have bl: "ci < blen raw" using h ci(1) by (simp add: holds_words_def)
  have odd: "drop_bit n ?c mod 2 = 1 \<longleftrightarrow> nz page ?w"
    using Suc.prems bit_flag_byte [of n page i] by (simp add: odd_u8 bit_drop_bit_eq)
  have shift: "drop_bit 1 (drop_bit n ?c) = drop_bit (Suc n) ?c" by (simp add: drop_bit_drop_bit)
  have addr: "addr + of_nat (i * 8 * 8) + of_nat (n * 8) = addr + of_nat (8 * ?w)"
    by (simp add: algebra_simps)
  have room: "d + 8 * nz_count page ?w + 8 \<le> blen raw" if "nz page ?w"
    using h that nz_count_mono [of "Suc ?w" 512 page] w unfolding holds_words_def by simp
  have rd: "peek ?raw (d + 8 * nz_count page ?w) 8 = Inr (page_word page ?w)" if "nz page ?w"
    using h that w room [OF that] ci(1)
    by (simp add: peek_def holds_words_def slice_poked_above)
  have "unpack_bit (addr + of_nat (i * 8 * 8)) ci n (?raw, d + 8 * nz_count page ?w,
        fold (put_word addr page) [8 * i..<?w] mem) =
      Inr (poked raw ci [drop_bit (Suc n) ?c], d + 8 * nz_count page (Suc ?w),
           put_word addr page ?w (fold (put_word addr page) [8 * i..<?w] mem))"
    unfolding unpack_bit_def prod.case addr
    using bl odd rd shift
    by (simp add: peek1_def poke_def bm_poked1 poked1_again put_word_def)
  with Suc show ?case by (simp add: res_fold_append)
qed

lemma unpack_bytes_ok:
  assumes h: "holds_words raw (cm + 64) page" and flags: "\<forall>i < 64. bm raw (cm + i) = flag_byte page i"
    and n: "n \<le> 64"
  shows "\<exists>raw'. res_fold (unpack_byte addr cm) [0..<n] (raw, cm + 64, mem) =
      Inr (raw', cm + 64 + 8 * nz_count page (8 * n), fold (put_word addr page) [0..<8 * n] mem) \<and>
    blen raw' = blen raw \<and> (\<forall>k. k < cm \<or> cm + n \<le> k \<longrightarrow> bm raw' k = bm raw k)"
  using n
proof (induction n)
  case 0
  then show ?case by (simp add: nz_count_def)
next
  case (Suc n)
  then obtain raw1 where r: "res_fold (unpack_byte addr cm) [0..<n] (raw, cm + 64, mem) =
      Inr (raw1, cm + 64 + 8 * nz_count page (8 * n), fold (put_word addr page) [0..<8 * n] mem)"
    "blen raw1 = blen raw" "\<forall>k. k < cm \<or> cm + n \<le> k \<longrightarrow> bm raw1 k = bm raw k" by auto
  have h1: "holds_words raw1 (cm + 64) page"
  proof -
    have "slice raw1 (cm + 64 + j) 8 = slice raw (cm + 64 + j) 8" for j
      using r(3) Suc.prems by (simp add: slice_eq_iff)
    then show ?thesis using h r(2) by (simp add: holds_words_def)
  qed
  have f1: "bm raw1 (cm + n) = flag_byte page n" using r(3) flags Suc.prems by auto
  have step: "unpack_byte addr cm n (raw1, cm + 64 + 8 * nz_count page (8 * n), fold (put_word addr page) [0..<8 * n] mem) =
      Inr (poked raw1 (cm + n) [drop_bit 8 (flag_byte page n)], cm + 64 + 8 * nz_count page (8 * n + 8),
           fold (put_word addr page) [8 * n..<8 * n + 8] (fold (put_word addr page) [0..<8 * n] mem))"
    unfolding unpack_byte_def using Suc.prems by (intro unpack_bits_ok [OF h1 _ f1]) auto
  have "[0..<8 * Suc n] = [0..<8 * n] @ [8 * n..<8 * n + 8]"
    using upt_add_eq_append [of 0 "8 * n" 8] by (simp add: add.commute)
  then have fold: "fold (put_word addr page) [8 * n..<8 * n + 8] (fold (put_word addr page) [0..<8 * n] mem) =
      fold (put_word addr page) [0..<8 * Suc n] mem" by simp
  have arg: "8 * n + 8 = 8 * Suc n" by simp
  note step' = step [unfolded fold, unfolded arg]
  show ?case
    using r step'
    by (intro exI [of _ "poked raw1 (cm + n) [drop_bit 8 (flag_byte page n)]"])
      (simp add: res_fold_append bm_poked1 del: mult_Suc_right)
qed

text \<open>The effect on memory, byte by byte.\<close>

definition win_apply :: "u64 \<times> (nat \<Rightarrow> u8) \<Rightarrow> memory \<Rightarrow> memory" where
  "win_apply w mem = (case w of (addr, page) \<Rightarrow>
     (\<lambda>x. if in_range x addr 4096 \<and> nz page (unat (x - addr) div 8) then page (unat (x - addr)) else mem x))"

lemma put_words_apply:
  assumes "n \<le> 512"
  shows "fold (put_word addr page) [0..<n] mem x =
    (if in_range x addr (8 * n) \<and> nz page (unat (x - addr) div 8) then page (unat (x - addr)) else mem x)"
  using assms
proof (induction n)
  case (Suc n)
  let ?a = "addr + of_nat (8 * n)"
  have rng: "in_range x addr (8 * n + 8) \<longleftrightarrow> in_range x addr (8 * n) \<or> in_range x ?a 8"
    using Suc.prems by (intro in_range_add) simp_all
  have e: "unat (x - ?a) = (if 8 * n \<le> unat (x - addr) then unat (x - addr) - 8 * n
      else unat (x - addr) + 2 ^ 64 - 8 * n)"
    using unat_diff_of_nat [of "8 * n" "x - addr"] Suc.prems by (simp add: diff_diff_eq)
  show ?case
  proof (cases "in_range x ?a 8")
    case True
    then have off: "8 * n \<le> unat (x - addr)" "unat (x - addr) < 8 * n + 8" "unat (x - ?a) = unat (x - addr) - 8 * n"
      using Suc.prems unfolding in_range_def e by (auto split: if_splits)
    then have w: "unat (x - addr) div 8 = n" by (intro div_nat_eqI) auto
    have "\<not> in_range x addr (8 * n)" using off(1) by (simp add: in_range_def)
    with True Suc w off rng show ?thesis
      by (auto simp: put_word_def mem_write_def page_word_def in_range_def)
  next
    case False
    then have "put_word addr page n m x = m x" for m
      by (simp add: put_word_def mem_write_out)
    with False Suc rng show ?thesis by (simp add: add.commute)
  qed
qed (simp add: in_range_def)

lemma unpack_window_ok:
  assumes raw: "slice raw base (length (win_raw (addr, page))) = win_raw (addr, page)"
    and fit: "base + length (win_raw (addr, page)) \<le> blen raw" and a: "addr \<noteq> 0"
  shows "\<exists>raw'. unpack_infos (Suc n) (raw, base, mem) =
      unpack_infos n (raw', base + length (win_raw (addr, page)), win_apply (addr, page) mem) \<and>
    blen raw' = blen raw \<and> (\<forall>k. base + length (win_raw (addr, page)) \<le> k \<longrightarrow> bm raw' k = bm raw k)"
proof -
  define fl where "fl = map (flag_byte page) [0..<64]"
  define L where "L = filter (nz page) [0..<512]"
  define ws where "ws = concat (map (page_word page) L)"
  have L: "length L = nz_count page 512" by (simp only: L_def nz_count_def)
  have lw: "length ws = 8 * nz_count page 512"
    unfolding ws_def by (simp add: length_concat comp_def sum_list_triv L)
  have wr: "win_raw (addr, page) = le64 addr @ le64 4096 @ fl @ ws"
    by (simp add: win_raw_def fl_def ws_def L_def del: upt_rec_numeral)
  have lfl: "length fl = 64" by (simp add: fl_def)
  have len: "length (win_raw (addr, page)) = 80 + 8 * nz_count page 512" by (simp add: wr lfl lw)
  have sl: "slice raw base 8 = le64 addr" "slice raw (base + 8) 8 = le64 4096"
    "slice raw (base + 16) 64 = fl" "slice raw (base + 80) (8 * length L) = ws"
    using raw slice_add [of raw base 8 "8 + (64 + 8 * length L)"]
      slice_add [of raw "base + 8" 8 "64 + 8 * length L"] slice_add [of raw "base + 16" 64 "8 * length L"]
    unfolding len by (simp_all add: wr lfl lw L add.commute [of 16 base] add.commute [of 80 base])
  have h: "holds_words raw (base + 16 + 64) page"
    unfolding holds_words_def
  proof (intro conjI allI impI)
    show "base + 16 + 64 + 8 * nz_count page 512 \<le> blen raw" using fit len by simp
    fix w assume w: "w < 512" "nz page w"
    have c: "nz_count page w < length L" "L ! nz_count page w = w"
      using filter_nth_count [OF w(2,1)] by (simp_all only: L_def)
    show "slice raw (base + 16 + 64 + 8 * nz_count page w) 8 = page_word page w"
      using slice_concat_words [of raw "base + 80" L "page_word page" "nz_count page w"] sl(4) c
      by (simp add: ws_def add.commute [of 80 base])
  qed
  have flags: "\<forall>i < 64. bm raw (base + 16 + i) = flag_byte page i"
  proof (intro allI impI)
    fix i :: nat assume "i < 64"
    then show "bm raw (base + 16 + i) = flag_byte page i"
      using arg_cong [OF sl(3), of "\<lambda>xs. xs ! i"] by (simp add: nth_slice fl_def del: upt_rec_numeral)
  qed
  obtain raw' where r: "res_fold (unpack_byte addr (base + 16)) [0..<64] (raw, base + 16 + 64, mem) =
      Inr (raw', base + 16 + 64 + 8 * nz_count page (8 * 64), fold (put_word addr page) [0..<8 * 64] mem)"
    "blen raw' = blen raw" "\<forall>k. k < base + 16 \<or> base + 16 + 64 \<le> k \<longrightarrow> bm raw' k = bm raw k"
    using unpack_bytes_ok [OF h flags, of 64 addr mem] by auto
  have "fold (put_word addr page) [0..<8 * 64] mem = win_apply (addr, page) mem"
  proof
    fix x
    show "fold (put_word addr page) [0..<8 * 64] mem x = win_apply (addr, page) mem x"
      using put_words_apply [of 512 addr page mem x] by (simp add: win_apply_def del: upt_rec_numeral)
  qed
  with r(1) have "unpack_infos (Suc n) (raw, base, mem) =
      unpack_infos n (raw', base + 80 + 8 * nz_count page 512, win_apply (addr, page) mem)"
    using sl(1,2) a fit len
    by (simp add: peek_def add.commute [of 80 base] del: upt_rec_numeral)
  with r(2,3) show ?thesis
    unfolding len by (intro exI [of _ raw']) (auto simp: add.assoc simp del: unpack_infos.simps)
qed

end
