(* ===== verification/FLoadsRoundTrip.thy ===== *)
theory FLoadsRoundTrip
  imports WindowCodec
begin

unbundle bit_operations_syntax

text \<open>
  The first-load section of a checkpoint file, written by \<open>saveFLoads_comp\<close> and read by
  \<open>recovery_FirstLoad\<close>: what is recovered into zeroed memory is the image of the records
  that were saved. What the two sides need of the compressor is the locale \<open>codec\<close>.
\<close>

section \<open>The compressor as an interface\<close>

text \<open>A compressed block \<open>zs\<close> carries \<open>raw\<close> when any decompression of it yields \<open>raw\<close>.\<close>

definition carries :: "(cbuf \<Rightarrow> nat \<Rightarrow> cbuf \<Rightarrow> nat \<Rightarrow> (nat \<times> cbuf) res) \<Rightarrow> bytes \<Rightarrow> bytes \<Rightarrow> bool" where
  "carries dec zs raw \<longleftrightarrow> zs \<noteq> [] \<and>
     (\<forall>src dst maxout. slice src 0 (length zs) = zs \<and> length zs \<le> blen src \<and>
        length raw \<le> maxout \<and> maxout \<le> blen dst \<longrightarrow>
        (\<exists>dst'. dec src (length zs) dst maxout = Inr (length raw, dst') \<and> blen dst' = blen dst \<and>
           slice dst' 0 (length raw) = raw))"

locale codec =
  fixes comp :: "cbuf \<Rightarrow> nat \<Rightarrow> cbuf \<Rightarrow> (nat \<times> cbuf) res"
    and dec :: "cbuf \<Rightarrow> nat \<Rightarrow> cbuf \<Rightarrow> nat \<Rightarrow> (nat \<times> cbuf) res"
    and bound :: "nat \<Rightarrow> nat"
    and slack :: nat
  assumes comp_dec: "0 < n \<Longrightarrow> n + 1 \<le> blen b \<Longrightarrow> bound n + slack \<le> blen out \<Longrightarrow>
    \<exists>c out'. comp b n out = Inr (c, out') \<and> blen out' = blen out \<and> c \<le> bound n \<and>
      carries dec (slice out' 0 c) (slice b 0 n)"
begin

text \<open>Compressing the front of a buffer gives a block that fits the output and carries it.\<close>

lemma comp_block:
  assumes "slice b 0 n = raw" and "raw \<noteq> []" and "length raw + 1 \<le> blen b"
    and "bound (length raw) + slack \<le> blen out"
  shows "\<exists>zs out'. comp b n out = Inr (length zs, out') \<and> peek out' 0 (length zs) = Inr zs \<and>
    blen out' = blen out \<and> length zs \<le> bound (length raw) \<and> carries dec zs raw"
proof -
  have n: "length raw = n" using assms(1) by auto
  obtain c out' where c: "comp b n out = Inr (c, out')" "blen out' = blen out" "c \<le> bound n"
    "carries dec (slice out' 0 c) raw"
    using comp_dec [of n b out] assms n by auto
  have "c \<le> blen out'" using c(2,3) assms(4) n by simp
  with c n show ?thesis
    by (intro exI [of _ "slice out' 0 c"] exI [of _ out']) (simp add: peek_def)
qed

text \<open>Reading such a block back through a buffer that holds it at its front.\<close>

lemma dec_block:
  assumes "carries dec zs raw" and "length zs \<le> blen cdata" and "length raw \<le> maxout" "maxout \<le> blen dst"
  shows "\<exists>cdata' dst'. poke cdata 0 zs = Inr cdata' \<and> blen cdata' = blen cdata \<and>
    dec cdata' (length zs) dst maxout = Inr (length raw, dst') \<and> blen dst' = blen dst \<and>
    slice dst' 0 (length raw) = raw"
  using assms slice_poked [of cdata 0 zs] by (auto simp: carries_def poke_def)

end

definition lz_bound :: "nat \<Rightarrow> nat" where
  "lz_bound n = (33 * n + 31) div 32"

text \<open>Both levels of FastLZ are such a compressor; the decompressor finds the level in the first byte.\<close>

lemma carries_level:
  assumes "0 < c" and "\<And>src dst maxout. slice src 0 c = slice out' 0 c \<Longrightarrow> c \<le> blen src \<Longrightarrow>
      fastlz_decompress src c dst maxout = dec src c dst maxout"
    and "\<forall>src dst maxout. slice src 0 c = slice out' 0 c \<and> c \<le> blen src \<and> n \<le> maxout \<and> maxout \<le> blen dst \<longrightarrow>
       (\<exists>dst'. dec src c dst maxout = Inr (n, dst') \<and> blen dst' = blen dst \<and> slice dst' 0 n = slice b 0 n)"
  shows "carries fastlz_decompress (slice out' 0 c) (slice b 0 n)"
  unfolding carries_def using assms by (auto simp: slice_def)

lemma level_byte:
  assumes "0 < c" "slice src 0 c = slice out' 0 c"
  shows "bm src 0 = bm out' 0"
  using assms by (cases c) (auto simp: slice_Suc)

interpretation lz: codec "fastlz_compress_level 1" fastlz_decompress lz_bound 36
proof
  fix n :: nat and b out :: cbuf
  assume a: "0 < n" "n + 1 \<le> blen b" "lz_bound n + 36 \<le> blen out"
  then have "33 * n + 1100 \<le> 32 * blen out" unfolding lz_bound_def by linarith
  from fastlz1_roundtrip [OF a(1,2) this] obtain c out' where r: "fastlz1_compress b n out = Inr (c, out')" "blen out' = blen out" "0 < c"
    "32 * c \<le> 33 * n + 31" "unat (bm out' 0) < 32"
    "\<forall>src dst maxout. slice src 0 c = slice out' 0 c \<and> c \<le> blen src \<and> n \<le> maxout \<and> maxout \<le> blen dst \<longrightarrow>
       (\<exists>dst'. fastlz1_decompress src c dst maxout = Inr (n, dst') \<and> blen dst' = blen dst \<and> slice dst' 0 n = slice b 0 n)"
    by blast
  have "fastlz_decompress src c dst maxout = fastlz1_decompress src c dst maxout"
    if "slice src 0 c = slice out' 0 c" "c \<le> blen src" for src dst maxout
    using level_byte [OF r(3) that(1)] that(2) r(3,5) by (simp add: fastlz_decompress_def peek1_def drop_bit_eq_div)
  from carries_level [where dec = fastlz1_decompress and n = n and b = b, OF r(3) this r(6)] have "carries fastlz_decompress (slice out' 0 c) (slice b 0 n)" by simp
  moreover have "c \<le> lz_bound n" using r(4) unfolding lz_bound_def by linarith
  ultimately show "\<exists>c out'. fastlz_compress_level 1 b n out = Inr (c, out') \<and> blen out' = blen out \<and>
      c \<le> lz_bound n \<and> carries fastlz_decompress (slice out' 0 c) (slice b 0 n)"
    using r(1,2) by (intro exI [of _ c] exI [of _ out']) (simp add: fastlz_compress_level_def)
qed

interpretation lz2: codec "fastlz_compress_level 2" fastlz_decompress lz_bound 36
proof
  fix n :: nat and b out :: cbuf
  assume a: "0 < n" "n + 1 \<le> blen b" "lz_bound n + 36 \<le> blen out"
  then have "33 * n + 1100 \<le> 32 * blen out" unfolding lz_bound_def by linarith
  from fastlz2_roundtrip [OF a(1,2) this] obtain c out' where r: "fastlz2_compress b n out = Inr (c, out')" "blen out' = blen out" "0 < c"
    "32 * c \<le> 33 * n + 31" "drop_bit 5 (unat (bm out' 0)) = 1"
    "\<forall>src dst maxout. slice src 0 c = slice out' 0 c \<and> c \<le> blen src \<and> n \<le> maxout \<and> maxout \<le> blen dst \<longrightarrow>
       (\<exists>dst'. fastlz2_decompress src c dst maxout = Inr (n, dst') \<and> blen dst' = blen dst \<and> slice dst' 0 n = slice b 0 n)"
    by blast
  have "fastlz_decompress src c dst maxout = fastlz2_decompress src c dst maxout"
    if "slice src 0 c = slice out' 0 c" "c \<le> blen src" for src dst maxout
    using level_byte [OF r(3) that(1)] that(2) r(3,5) by (simp add: fastlz_decompress_def peek1_def)
  from carries_level [where dec = fastlz2_decompress and n = n and b = b, OF r(3) this r(6)] have "carries fastlz_decompress (slice out' 0 c) (slice b 0 n)" by simp
  moreover have "c \<le> lz_bound n" using r(4) unfolding lz_bound_def by linarith
  ultimately show "\<exists>c out'. fastlz_compress_level 2 b n out = Inr (c, out') \<and> blen out' = blen out \<and>
      c \<le> lz_bound n \<and> carries fastlz_decompress (slice out' 0 c) (slice b 0 n)"
    using r(1,2) by (intro exI [of _ c] exI [of _ out']) (simp add: fastlz_compress_level_def)
qed

lemmas level_comp_block = lz.comp_block lz2.comp_block

section \<open>Blocks of windows\<close>

type_synonym window = "u64 \<times> (nat \<Rightarrow> u8)"
type_synonym block = "bytes \<times> window list"

definition raw_of :: "window list \<Rightarrow> bytes" where
  "raw_of ws = concat (map win_raw ws)"

definition block_bytes :: "block \<Rightarrow> bytes" where
  "block_bytes b = le64 (of_nat (length (fst b))) @ le64 (of_nat (length (snd b))) @ fst b"

definition block_ok :: "block \<Rightarrow> bool" where
  "block_ok b \<longleftrightarrow> carries fastlz_decompress (fst b) (raw_of (snd b)) \<and>
     length (fst b) \<le> lz_bound (length (raw_of (snd b))) \<and>
     length (raw_of (snd b)) \<le> MaxCompressSize + ExtraDataSize \<and> (\<forall>w \<in> set (snd b). fst w \<noteq> 0)"

lemma raw_of_simps [simp]:
  "raw_of [] = []"
  "raw_of (w # ws) = win_raw w @ raw_of ws"
  "raw_of (ws @ vs) = raw_of ws @ raw_of vs"
  by (simp_all add: raw_of_def)

lemma length_win_raw: "80 \<le> length (win_raw w) \<and> length (win_raw w) \<le> 4176"
proof -
  obtain base page where w: "w = (base, page)" by (cases w)
  define L where "L = filter (nz page) [0..<512]"
  have "length (concat (map (page_word page) L)) = 8 * length L"
    by (simp add: length_concat comp_def sum_list_triv)
  moreover have "length L \<le> length [0..<512 :: nat]" unfolding L_def by (rule length_filter_le)
  moreover have "length (win_raw w) = 80 + length (concat (map (page_word page) L))"
    by (simp add: w win_raw_def L_def del: upt_rec_numeral)
  ultimately show ?thesis by simp
qed

lemma length_raw_of: "80 * length ws \<le> length (raw_of ws)"
  by (induction ws) (use length_win_raw in \<open>auto intro: add_mono\<close>)

lemma block_sizes:
  assumes "block_ok b"
  shows "fst b \<noteq> []" and "length (fst b) < 2 ^ 31" and "length (snd b) < 2 ^ 31"
proof -
  define n where "n = length (raw_of (snd b))"
  have n: "n \<le> 31463424"
    using assms by (simp add: n_def block_ok_def MaxCompressSize_def ExtraDataSize_def)
  have "length (fst b) \<le> lz_bound n" using assms by (simp add: block_ok_def n_def)
  also have "\<dots> < 2 ^ 31" unfolding lz_bound_def using n by simp
  finally show "length (fst b) < 2 ^ 31" .
  show "length (snd b) < 2 ^ 31" using length_raw_of [of "snd b"] n by (simp add: n_def)
  show "fst b \<noteq> []" using assms by (simp add: block_ok_def carries_def)
qed

lemma unpack_windows:
  assumes "slice raw base (length (raw_of ws)) = raw_of ws" and "base + length (raw_of ws) \<le> blen raw"
    and "\<forall>w \<in> set ws. fst w \<noteq> 0"
  shows "\<exists>raw'. unpack_infos (length ws) (raw, base, mem) =
      Inr (raw', base + length (raw_of ws), fold win_apply ws mem) \<and> blen raw' = blen raw"
  using assms
proof (induction ws arbitrary: raw base mem)
  case (Cons w ws)
  obtain a pg where w: "w = (a, pg)" by (cases w)
  let ?n = "length (win_raw w)"
  have sl: "slice raw base ?n = win_raw w" "slice raw (base + ?n) (length (raw_of ws)) = raw_of ws"
    using Cons.prems(1) slice_add [of raw base ?n "length (raw_of ws)"] by simp_all
  obtain raw1 where r: "unpack_infos (Suc (length ws)) (raw, base, mem) =
      unpack_infos (length ws) (raw1, base + ?n, win_apply w mem)" "blen raw1 = blen raw"
    "\<forall>k. base + ?n \<le> k \<longrightarrow> bm raw1 k = bm raw k"
    using unpack_window_ok [of raw base a pg "length ws" mem] sl(1) Cons.prems w by auto
  have "slice raw1 (base + ?n) (length (raw_of ws)) = raw_of ws"
    using sl(2) r(3) slice_eq_iff [of raw1 "base + ?n" "length (raw_of ws)" raw "base + ?n"] by simp
  then obtain raw' where "unpack_infos (length ws) (raw1, base + ?n, win_apply w mem) =
      Inr (raw', base + ?n + length (raw_of ws), fold win_apply ws (win_apply w mem))" "blen raw' = blen raw1"
    using Cons.IH [of raw1 "base + ?n" "win_apply w mem"] Cons.prems r(2) by auto
  with r show ?case by (simp add: add.assoc del: unpack_infos.simps)
qed simp

lemma recovery_blocks_ok:
  assumes "rest p = concat (map block_bytes bs) @ le64 0 @ after"
    and "\<forall>b \<in> set bs. block_ok b \<and> length (fst b) \<le> MaxCompressSize + ExtraDataSize"
    and "blen raw = MaxCompressSize + ExtraDataSize" and "blen cdata = MaxCompressSize + ExtraDataSize"
  shows "\<exists>p'. recovery_blocks p raw cdata mem = Inr (p', fold win_apply (concat (map snd bs)) mem) \<and> rest p' = after \<and>
    content p' = content p"
  using assms
proof (induction bs arbitrary: p raw cdata mem)
  case Nil
  obtain p' where "fread64 0 p = (0, p')" "rest p' = after" "content p' = content p"
    using fread64_app [of p 0 after 0] Nil.prems(1) by auto
  then show ?case by (subst recovery_blocks.simps) simp
next
  case (Cons b bs)
  obtain zs ws where b: "b = (zs, ws)" by (cases b)
  let ?rest = "concat (map block_bytes bs) @ le64 0 @ after"
  have ok: "block_ok b" "length zs \<le> MaxCompressSize + ExtraDataSize" using Cons.prems(2) b by auto
  note sz = block_sizes [OF ok(1), unfolded b, simplified]
  have u: "unat (of_nat (length zs) :: u64) = length zs" "unat (of_nat (length ws) :: u64) = length ws"
    using sz by (simp_all add: unat_of_nat_u64)
  have nz: "(of_nat (length zs) :: u64) \<noteq> 0" using u(1) sz(1) by (metis length_0_conv unsigned_0)
  obtain p1 where p1: "fread64 0 p = (of_nat (length zs), p1)"
    "rest p1 = le64 (of_nat (length ws)) @ zs @ ?rest" "content p1 = content p"
    using fread64_app [of p "of_nat (length zs)" "le64 (of_nat (length ws)) @ zs @ ?rest" 0] Cons.prems(1) b
    by (auto simp: block_bytes_def [of "(zs, ws)"])
  obtain p2 where p2: "fread64 0 p1 = (of_nat (length ws), p2)" "rest p2 = zs @ ?rest" "content p2 = content p"
    using fread64_app [OF p1(2), of 0] p1(3) by auto
  obtain p3 where p3: "fread (length zs) p2 = (zs, p3)" "rest p3 = ?rest" "content p3 = content p"
    using fread_app [OF p2(2) refl] p2(3) by auto
  obtain cdata' raw1 where c: "poke cdata 0 zs = Inr cdata'" "blen cdata' = blen cdata"
    "fastlz_decompress cdata' (length zs) raw (MaxCompressSize + ExtraDataSize) = Inr (length (raw_of ws), raw1)"
    "blen raw1 = blen raw" "slice raw1 0 (length (raw_of ws)) = raw_of ws"
    using lz.dec_block [of zs "raw_of ws" cdata "MaxCompressSize + ExtraDataSize" raw] ok Cons.prems(3,4) b
    by (auto simp: block_ok_def)
  obtain raw2 where r2: "unpack_infos (length ws) (raw1, 0, mem) =
      Inr (raw2, length (raw_of ws), fold win_apply ws mem)" "blen raw2 = blen raw"
    using unpack_windows [of raw1 0 ws mem] c(4,5) ok(1) Cons.prems(3) b by (auto simp: block_ok_def)
  obtain p' where "recovery_blocks p3 raw2 cdata' (fold win_apply ws mem) =
      Inr (p', fold win_apply (concat (map snd bs)) (fold win_apply ws mem))" "rest p' = after"
    "content p' = content p3"
    using Cons.IH [OF p3(2), of raw2 cdata' "fold win_apply ws mem"] Cons.prems(2-4) r2(2) c(2) by auto
  with p1(1) p2(1) p3(1,3) c(1,3) r2(1) nz u sz(2) b show ?case
    by (subst recovery_blocks.simps) simp
qed

section \<open>Collecting windows\<close>

function windows_of :: "FirstLoadInfo list \<Rightarrow> window list" where
  "windows_of [] = []"
| "windows_of (l # ls) =
     (let inw = in_window (fl_addr l + of_nat MaxCoverSize)
      in (fl_addr l, \<lambda>k. if k < 4096 then fl_image (l # takeWhile inw ls) (fl_addr l + of_nat k) else 0) #
         windows_of (dropWhile inw ls))"
  by pat_completeness auto
termination
  by (relation "measure length") (auto simp: le_imp_less_Suc length_dropWhile_le)

text \<open>The windows waiting in \<open>tempdata\<close>.\<close>

definition pending :: "compstate \<Rightarrow> window list \<Rightarrow> bool" where
  "pending s ws \<longleftrightarrow> blen (tempdata s) = MaxCompressSize + ExtraDataSize \<and>
     blen (compdata s) = MaxCompressSize * 2 \<and> slice (tempdata s) 0 (tdsize s) = raw_of ws \<and>
     infonum s = length ws \<and> tdsize s < MaxCompressSize \<and> (\<forall>w \<in> set ws. fst w \<noteq> 0)"

lemma append_words:
  assumes "tdsize s + 8 * length data \<le> blen (tempdata s)"
  shows "res_fold append_word data s = Inr (s\<lparr>tempdata := poked (tempdata s) (tdsize s) (concat (map le64 data)),
     tdsize := tdsize s + 8 * length data\<rparr>)"
  using assms
proof (induction data arbitrary: s)
  case (Cons d data)
  show ?case
    using Cons poked_poked [of "tempdata s" "tdsize s" "le64 d" "concat (map le64 data)"]
    by (simp add: append_word_def poke_def)
qed simp

text \<open>Adding a window to the waiting ones.\<close>

lemma append_window:
  assumes p: "pending s ws" and w: "concat (map le64 data) = win_raw w" and a: "fst w \<noteq> 0"
  obtains t n where "res_fold append_word data s = Inr (s\<lparr>tempdata := t, tdsize := n\<rparr>)" "slice t 0 n = raw_of (ws @ [w])"
    "n = length (raw_of (ws @ [w]))" "n + 1 \<le> blen t" "blen t = MaxCompressSize + ExtraDataSize" "blen (compdata s) = MaxCompressSize * 2"
    "infonum s = length ws" "n < MaxCompressSize \<longrightarrow> pending (s\<lparr>tempdata := t, tdsize := n, infonum := infonum s + 1\<rparr>) (ws @ [w])"
    "\<forall>cd. blen cd = blen (compdata s) \<longrightarrow> pending (s\<lparr>tempdata := t, compdata := cd, tdsize := 0, infonum := 0\<rparr>) []"
    "\<forall>v \<in> set (ws @ [w]). fst v \<noteq> 0"
proof -
  have len: "8 * length data = length (win_raw w)"
    using arg_cong [OF w, of length] by (simp add: length_concat comp_def sum_list_triv)
  let ?n = "tdsize s + 8 * length data"
  let ?t = "poked (tempdata s) (tdsize s) (win_raw w)"
  have td: "tdsize s = length (raw_of ws)" using p by (metis length_slice pending_def)
  have bl: "blen (tempdata s) = 31463424" "tdsize s < 31457280"
    using p by (simp_all add: pending_def MaxCompressSize_def ExtraDataSize_def)
  have n: "?n + 1 \<le> blen ?t" using bl len length_win_raw [of w] by simp
  have sl: "slice ?t 0 ?n = raw_of (ws @ [w])"
    using p slice_poked [of "tempdata s" "tdsize s" "win_raw w"] by (simp add: pending_def len)
  show thesis
  proof (rule that [where t = ?t and n = ?n])
    show "res_fold append_word data s = Inr (s\<lparr>tempdata := ?t, tdsize := ?n\<rparr>)"
      using append_words [of s data] n w by simp
  qed (use p sl n a td len in \<open>auto simp: pending_def MaxCompressSize_def\<close>)
qed

lemma compress_write_ok:
  assumes p: "pending s ws" and w: "concat (map le64 data) = win_raw w" and a: "fst w \<noteq> 0" and lv: "lv = 1 \<or> lv = 2"
  shows "(\<exists>s'. compress_write data lv isend s = Inr (s', []) \<and> \<not> isend \<and> pending s' (ws @ [w])) \<or>
    (\<exists>s' zs. compress_write data lv isend s = Inr (s', block_bytes (zs, ws @ [w])) \<and> pending s' [] \<and> block_ok (zs, ws @ [w]))"
proof -
  from p w a obtain t n where t: "res_fold append_word data s = Inr (s\<lparr>tempdata := t, tdsize := n\<rparr>)" "slice t 0 n = raw_of (ws @ [w])"
    "n = length (raw_of (ws @ [w]))" "n + 1 \<le> blen t" "blen t = MaxCompressSize + ExtraDataSize" "blen (compdata s) = MaxCompressSize * 2"
    "infonum s = length ws" "n < MaxCompressSize \<longrightarrow> pending (s\<lparr>tempdata := t, tdsize := n, infonum := infonum s + 1\<rparr>) (ws @ [w])"
    "\<forall>cd. blen cd = blen (compdata s) \<longrightarrow> pending (s\<lparr>tempdata := t, compdata := cd, tdsize := 0, infonum := 0\<rparr>) []"
    "\<forall>v \<in> set (ws @ [w]). fst v \<noteq> 0"
    by (rule append_window)
  show ?thesis
  proof (cases "n < MaxCompressSize \<and> \<not> isend")
    case True
    then show ?thesis using t(1,8) by (simp add: compress_write_def Let_def)
  next
    case False
    have "raw_of (ws @ [w]) \<noteq> []" using length_win_raw [of w] by auto
    moreover have "lz_bound n + 36 \<le> blen (compdata s)"
      unfolding lz_bound_def using t(4-6) by (simp add: MaxCompressSize_def ExtraDataSize_def)
    ultimately obtain zs cd where z: "fastlz_compress_level lv t n (compdata s) = Inr (length zs, cd)"
      "peek cd 0 (length zs) = Inr zs" "blen cd = blen (compdata s)" "length zs \<le> lz_bound n" "carries fastlz_decompress zs (raw_of (ws @ [w]))"
      using level_comp_block [OF t(2), of "compdata s"] lv t(3,4) by blast
    have "compress_write data lv isend s = Inr (s\<lparr>tempdata := t, compdata := cd, tdsize := 0, infonum := 0\<rparr>, block_bytes (zs, ws @ [w]))"
      using False t(1,7) z(1,2) by (auto simp: compress_write_def Let_def block_bytes_def)
    moreover have "block_ok (zs, ws @ [w])" using z(4,5) t(3-5,10) by (simp add: block_ok_def)
    ultimately show ?thesis using t(9) z(3) by blast
  qed
qed

text \<open>A list of records that is saved: ascending, not overlapping, none at address 0.\<close>

definition savable :: "FirstLoadInfo list \<Rightarrow> bool" where
  "savable fls \<longleftrightarrow> spaced fls \<and> (\<forall>fl \<in> set fls. fl_addr fl \<noteq> 0)"

lemma savable_append: "savable (xs @ ys) \<Longrightarrow> savable xs \<and> savable ys"
  by (auto simp: savable_def spaced_def sorted_wrt_append)

lemma in_window_iff:
  assumes sp: "spaced (l # ls)" and f: "f \<in> set ls"
  shows "in_window (fl_addr l + of_nat MaxCoverSize) f \<longleftrightarrow> unat (fl_addr f - fl_addr l) \<le> 4088"
    and "unat (fl_addr l) + 8 \<le> unat (fl_addr f)"
proof -
  have a: "unat (fl_addr l) + 8 \<le> unat (fl_addr f)" "unat (fl_addr f) < 2 ^ 63" "unat (fl_addr l) < 2 ^ 63"
    using sp f by (auto simp: spaced_def)
  then show "unat (fl_addr l) + 8 \<le> unat (fl_addr f)" by simp
  have "unat (fl_addr f + 8) = unat (fl_addr f) + 8"
    using unat_add_less [of "fl_addr f" 8] a(2) by simp
  moreover have "unat (fl_addr l + of_nat MaxCoverSize) = unat (fl_addr l) + 4096"
    unfolding MaxCoverSize_def using a(3) by (intro unat_add_less) simp
  moreover have "unat (fl_addr f - fl_addr l) = unat (fl_addr f) - unat (fl_addr l)"
    using a(1) by (simp add: unat_diff_le word_le_nat_alt)
  ultimately show "in_window (fl_addr l + of_nat MaxCoverSize) f \<longleftrightarrow> unat (fl_addr f - fl_addr l) \<le> 4088"
    using a(1) by (auto simp: in_window_def word_less_nat_alt)
qed

lemma window_records:
  assumes sp: "spaced (l # ls)"
  shows "\<forall>f \<in> set (l # takeWhile (in_window (fl_addr l + of_nat MaxCoverSize)) ls).
    unat (fl_addr f - fl_addr l) \<le> 4088 \<and> length (fl_data f) = 8"
proof -
  have "length (fl_data f) = 8" if "f \<in> set (l # ls)" for f
    using sp that by (auto simp: spaced_def)
  moreover have "unat (fl_addr f - fl_addr l) \<le> 4088"
    if "f \<in> set (takeWhile (in_window (fl_addr l + of_nat MaxCoverSize)) ls)" for f
    using set_takeWhileD [OF that] in_window_iff [OF sp] by blast
  ultimately show ?thesis by (auto dest: set_takeWhileD)
qed

text \<open>
  The loop over the windows, for every way of writing them: \<open>put\<close> keeps a window or writes all that
  wait, and \<open>part\<close> says what is written for a group of windows.
\<close>

locale window_writer =
  fixes put :: "u64 list \<Rightarrow> bool \<Rightarrow> compstate \<Rightarrow> (compstate \<times> bytes) res"
    and loop :: "FirstLoadInfo list \<Rightarrow> compstate \<Rightarrow> bytes \<Rightarrow> (compstate \<times> bytes) res"
    and part :: "bytes \<Rightarrow> window list \<Rightarrow> bool"
  assumes loop_Nil: "loop [] s out = Inr (s, out)"
    and loop_Cons: "loop (l # ls) s out =
      res_bind (window_data (fl_addr l) (l # takeWhile (in_window (fl_addr l + of_nat MaxCoverSize)) ls)) (\<lambda>sdata.
      res_bind (put sdata (dropWhile (in_window (fl_addr l + of_nat MaxCoverSize)) ls = []) s) (\<lambda>(s', bs).
        loop (dropWhile (in_window (fl_addr l + of_nat MaxCoverSize)) ls) s' (out @ bs)))"
    and put_ok: "pending s ws \<Longrightarrow> concat (map le64 data) = win_raw w \<Longrightarrow> fst w \<noteq> 0 \<Longrightarrow>
      (\<exists>s'. put data isend s = Inr (s', []) \<and> \<not> isend \<and> pending s' (ws @ [w])) \<or>
      (\<exists>s' bs. put data isend s = Inr (s', bs) \<and> pending s' [] \<and> part bs (ws @ [w]))"
begin

lemma loop_ok:
  assumes "savable fls" and "pending s ws" and "fls = [] \<longrightarrow> ws = []"
  shows "\<exists>s' ps. loop fls s out = Inr (s', out @ concat (map fst ps)) \<and> pending s' [] \<and>
    concat (map snd ps) = ws @ windows_of fls \<and> (\<forall>p \<in> set ps. part (fst p) (snd p))"
  using assms
proof (induction fls arbitrary: s ws out rule: windows_of.induct)
  case 1
  then show ?case by (intro exI [of _ s] exI [of _ "[]"]) (simp add: loop_Nil)
next
  case (2 l ls)
  let ?in = "in_window (fl_addr l + of_nat MaxCoverSize)"
  let ?ls = "l # takeWhile ?in ls" and ?next = "dropWhile ?in ls"
  define w where "w = (fl_addr l, \<lambda>k. if k < 4096 then fl_image ?ls (fl_addr l + of_nat k) else 0)"
  have sp: "spaced (l # ls)" and a: "fst w \<noteq> 0" using "2.prems"(1) by (simp_all add: savable_def w_def)
  have sv: "savable ?next" using "2.prems"(1) savable_append [of ?ls ?next] by simp
  obtain sdata where sd: "window_data (fl_addr l) ?ls = Inr sdata" "concat (map le64 sdata) = win_raw w"
    using window_data_ok [OF window_records [OF sp]] unfolding w_def by blast
  have step: "loop (l # ls) s out = res_bind (put sdata (?next = []) s) (\<lambda>(s', bs). loop ?next s' (out @ bs))"
    using sd(1) by (simp add: loop_Cons)
  have win: "windows_of (l # ls) = w # windows_of ?next" by (simp add: w_def Let_def)
  note IH = "2.IH" [OF refl sv]
  from put_ok [OF "2.prems"(2) sd(2) a, of "?next = []"] show ?case
  proof (elim disjE exE conjE)
    fix s1 assume c: "put sdata (?next = []) s = Inr (s1, [])" "?next \<noteq> []" "pending s1 (ws @ [w])"
    then show ?thesis unfolding step win using IH [OF c(3), of out] by simp
  next
    fix s1 bs assume c: "put sdata (?next = []) s = Inr (s1, bs)" "pending s1 []" "part bs (ws @ [w])"
    obtain s' ps where r: "loop ?next s1 (out @ bs) = Inr (s', (out @ bs) @ concat (map fst ps))" "pending s' []"
      "concat (map snd ps) = [] @ windows_of ?next" "\<forall>p \<in> set ps. part (fst p) (snd p)"
      using IH [OF c(2), of "out @ bs"] by blast
    show ?thesis
      unfolding step win using c r by (intro exI [of _ s'] exI [of _ "(bs, ws @ [w]) # ps"]) simp
  qed
qed

end

definition block_part :: "bytes \<Rightarrow> window list \<Rightarrow> bool" where
  "block_part bs ws \<longleftrightarrow> (\<exists>zs. bs = block_bytes (zs, ws) \<and> block_ok (zs, ws))"

lemma blocks_of_parts:
  assumes "\<forall>p \<in> set ps. block_part (fst p) (snd p)"
  shows "\<exists>bs. map fst ps = map block_bytes bs \<and> map snd ps = map snd bs \<and> (\<forall>b \<in> set bs. block_ok b)"
  using assms
proof (induction ps)
  case (Cons p ps)
  then obtain bs zs where "map fst ps = map block_bytes bs" "map snd ps = map snd bs" "\<forall>b \<in> set bs. block_ok b"
    "fst p = block_bytes (zs, snd p)" "block_ok (zs, snd p)"
    by (auto simp: block_part_def)
  then show ?case by (intro exI [of _ "(zs, snd p) # bs"]) simp
qed simp

interpretation recorder: window_writer "\<lambda>data. compress_write data 1" save_windows block_part
proof
  show "(\<exists>s'. compress_write data 1 isend s = Inr (s', []) \<and> \<not> isend \<and> pending s' (ws @ [w])) \<or>
      (\<exists>s' bs. compress_write data 1 isend s = Inr (s', bs) \<and> pending s' [] \<and> block_part bs (ws @ [w]))"
    if "pending s ws" "concat (map le64 data) = win_raw w" "fst w \<noteq> 0" for s ws data w isend
    using compress_write_ok [OF that, of 1 isend] unfolding block_part_def by blast
qed (simp_all add: Let_def)

section \<open>Windows and the image of the records\<close>

definition covered :: "FirstLoadInfo list \<Rightarrow> u64 \<Rightarrow> bool" where
  "covered fls x \<longleftrightarrow> (\<exists>f \<in> set fls. in_range x (fl_addr f) (length (fl_data f)))"

lemma fold_fl_write_covered:
  "fold fl_write fls m x = (if covered fls x then fl_image fls x else m x)"
proof (induction fls arbitrary: m rule: rev_induct)
  case (snoc f fls)
  then show ?case
    by (cases "in_range x (fl_addr f) (length (fl_data f))")
      (auto simp: covered_def fl_write_def mem_write_in mem_write_out)
qed (simp add: covered_def)

lemma fl_image_append: "fl_image (xs @ ys) x = (if covered ys x then fl_image ys x else fl_image xs x)"
  using fold_fl_write_covered [of ys "fl_image xs" x] by (simp add: fl_image_def)

lemma fl_image_uncovered: "\<not> covered ys x \<Longrightarrow> fl_image ys x = 0"
  using fold_fl_write_covered [of ys "\<lambda>_. 0" x] by (simp add: fl_image_def)

lemma win_apply_image:
  assumes sp: "spaced (prev @ l # ls)"
    and ls: "\<forall>f \<in> set (l # ws). unat (fl_addr f - fl_addr l) \<le> 4088 \<and> length (fl_data f) = 8"
  shows "win_apply (fl_addr l, \<lambda>k. if k < 4096 then fl_image (l # ws) (fl_addr l + of_nat k) else 0) (fl_image prev) =
    fl_image (prev @ l # ws)"
proof
  fix x
  let ?a = "fl_addr l"
  let ?pg = "\<lambda>k. if k < 4096 then fl_image (l # ws) (?a + of_nat k) else 0"
  have a: "unat ?a < 2 ^ 63" "spaced prev" "\<forall>f \<in> set prev. unat (fl_addr f) + 8 \<le> unat ?a"
    using sp by (auto simp: spaced_def sorted_wrt_append)
  show "win_apply (?a, ?pg) (fl_image prev) x = fl_image (prev @ l # ws) x"
  proof (cases "in_range x ?a 4096")
    case True
    then obtain k where k: "k < 4096" "x = ?a + of_nat k" by (rule in_rangeE)
    have off: "unat (x - ?a) = k" using k by (simp add: unat_of_nat_u64)
    have "unat ?a \<le> unat x" using True a(1) by (simp add: in_range_no_wrap)
    then have prev0: "fl_image prev x = 0" using a(2,3) by (intro fl_image_above) auto
    have "?pg k = 0" if "\<not> nz ?pg (k div 8)"
    proof -
      have "page_word ?pg (k div 8) ! (k mod 8) = ?pg k" by (simp add: page_word_def)
      moreover have "page_word ?pg (k div 8) = replicate 8 0" using that by (simp add: nz_def)
      ultimately show ?thesis by simp
    qed
    then have "win_apply (?a, ?pg) (fl_image prev) x = fl_image (l # ws) x"
      using True k prev0 off by (auto simp: win_apply_def)
    also have "\<dots> = fl_image (prev @ l # ws) x"
      using fl_image_uncovered prev0 by (simp add: fl_image_append)
    finally show ?thesis .
  next
    case False
    have "\<not> covered (l # ws) x"
    proof
      assume "covered (l # ws) x"
      then obtain f where f: "f \<in> set (l # ws)" "in_range x (fl_addr f) 8"
        using ls unfolding covered_def by metis
      from f(2) obtain j where j: "j < 8" "x = fl_addr f + of_nat j" by (rule in_rangeE)
      have "unat (fl_addr f - ?a) \<le> 4088" using ls f(1) by blast
      then have "unat (fl_addr f - ?a + of_nat j) = unat (fl_addr f - ?a) + j"
        using j(1) by (intro unat_add_less) simp
      moreover have "x - ?a = fl_addr f - ?a + of_nat j" using j(2) by simp
      ultimately have "unat (x - ?a) = unat (fl_addr f - ?a) + j" by (simp only:)
      then have "in_range x ?a 4096" using j(1) \<open>_ \<le> 4088\<close> unfolding in_range_def by linarith
      with False show False by simp
    qed
    with False show ?thesis by (simp add: win_apply_def fl_image_append)
  qed
qed

lemma windows_image:
  assumes "spaced (prev @ fls)"
  shows "fold win_apply (windows_of fls) (fl_image prev) = fl_image (prev @ fls)"
  using assms
proof (induction fls arbitrary: prev rule: windows_of.induct)
  case (2 l ls)
  let ?in = "in_window (fl_addr l + of_nat MaxCoverSize)"
  have sp: "spaced (l # ls)" using "2.prems" by (auto simp: spaced_def sorted_wrt_append)
  have "fold win_apply (windows_of (l # ls)) (fl_image prev) =
      fold win_apply (windows_of (dropWhile ?in ls)) (fl_image (prev @ l # takeWhile ?in ls))"
    using win_apply_image [OF "2.prems" window_records [OF sp]] by (simp add: Let_def)
  also have "\<dots> = fl_image ((prev @ l # takeWhile ?in ls) @ dropWhile ?in ls)"
    using "2.prems" by (intro "2.IH") simp_all
  finally show ?case by simp
qed simp

section \<open>Saving and recovering\<close>

lemma pending_init: "pending compstate_init []"
  by (simp add: pending_def compstate_init_def zero_buf_def MaxCompressSize_def)

lemma saveFLoads_comp_ok:
  assumes "savable fls" and "pending s []"
  shows "\<exists>s' bs. saveFLoads_comp fls s = Inr (s', le64 compTag @ concat (map block_bytes bs) @ le64 0) \<and>
    pending s' [] \<and> concat (map snd bs) = windows_of fls \<and> (\<forall>b \<in> set bs. block_ok b)"
proof -
  obtain s' ps where r: "save_windows fls s (le64 compTag) = Inr (s', le64 compTag @ concat (map fst ps))" "pending s' []"
    "concat (map snd ps) = windows_of fls" "\<forall>p \<in> set ps. block_part (fst p) (snd p)"
    using recorder.loop_ok [OF assms] by fastforce
  from blocks_of_parts [OF r(4)] obtain bs where "map fst ps = map block_bytes bs" "map snd ps = map snd bs" "\<forall>b \<in> set bs. block_ok b"
    by blast
  with r(1-3) show ?thesis by (intro exI [of _ s'] exI [of _ bs]) (simp add: saveFLoads_comp_def)
qed

text \<open>
  The loader's buffer for a compressed block is smaller than the worst expansion of a full
  block, so the written blocks have to fit. They do when all windows together have at most 30000000
  bytes (then there is one block); with more windows it depends on how well they compress.
\<close>

definition fits_loader :: "bytes \<times> (u64 \<times> (nat \<Rightarrow> u8)) list \<Rightarrow> bool" where
  "fits_loader b \<longleftrightarrow> length (fst b) \<le> MaxCompressSize + ExtraDataSize"

definition blocks_fit_of :: "(FirstLoadInfo list \<Rightarrow> compstate \<Rightarrow> (compstate \<times> bytes) res) \<Rightarrow> u64 \<Rightarrow> FirstLoadInfo list \<Rightarrow> bool" where
  "blocks_fit_of save tag fls \<longleftrightarrow> (\<forall>s s' bs. pending s [] \<longrightarrow>
     save fls s = Inr (s', le64 tag @ concat (map block_bytes bs) @ le64 0) \<longrightarrow>
     concat (map snd bs) = windows_of fls \<longrightarrow> (\<forall>b \<in> set bs. block_ok b) \<longrightarrow> (\<forall>b \<in> set bs. fits_loader b))"

definition blocks_fit :: "FirstLoadInfo list \<Rightarrow> bool" where
  "blocks_fit fls \<longleftrightarrow> blocks_fit_of saveFLoads_comp compTag fls"

lemma length_win_raw_le: "length (win_raw w) \<le> 4176"
proof -
  obtain base page where w: "w = (base, page)" by (cases w)
  have "length (filter (nz page) [0..<512]) \<le> 512"
    using length_filter_le [of "nz page" "[0..<512]"] by (simp del: upt_rec_numeral)
  moreover have "length (concat (map (page_word page) ks)) = 8 * length ks" for ks
    by (induction ks) simp_all
  ultimately show ?thesis by (simp add: w win_raw_def del: upt_rec_numeral)
qed

lemma length_windows_of: "length (windows_of fls) \<le> length fls"
proof (induction fls rule: windows_of.induct)
  case (2 l ls)
  then show ?case using length_dropWhile_le [of _ ls] by (auto simp: Let_def intro: le_trans)
qed simp

lemma length_raw_of_le: "length (raw_of ws) \<le> 4176 * length ws"
proof (induction ws)
  case (Cons w ws)
  then show ?case using length_win_raw_le [of w] by (simp add: raw_of_def)
qed (simp add: raw_of_def)

lemma raw_of_part: "b \<in> set bs \<Longrightarrow> length (raw_of (snd b)) \<le> length (raw_of (concat (map snd bs)))"
  by (induction bs) auto

lemma fits_loader_small:
  assumes "block_ok b" and "length (raw_of (snd b)) \<le> 30000000"
  shows "fits_loader b"
proof -
  have "lz_bound (length (raw_of (snd b))) \<le> MaxCompressSize + ExtraDataSize"
    using assms(2) by (simp add: lz_bound_def MaxCompressSize_def ExtraDataSize_def)
  then show ?thesis using assms(1) by (simp add: fits_loader_def block_ok_def)
qed

lemma blocks_fit_raw:
  assumes "length (raw_of (windows_of fls)) \<le> 30000000"
  shows "blocks_fit_of save tag fls"
  unfolding blocks_fit_of_def
proof (intro allI impI ballI)
  fix bs and b :: block
  assume bs: "concat (map snd bs) = windows_of fls" "\<forall>b \<in> set bs. block_ok b" "b \<in> set bs"
  have "length (raw_of (snd b)) \<le> 30000000" using raw_of_part [OF bs(3)] bs(1) assms by simp
  with bs(2,3) show "fits_loader b" by (intro fits_loader_small) blast+
qed

lemma blocks_fit_of_few:
  assumes "length fls \<le> 7000"
  shows "blocks_fit_of save tag fls"
  using length_raw_of_le [of "windows_of fls"] length_windows_of [of fls] assms by (intro blocks_fit_raw) linarith

lemma blocks_fit_few: "length fls \<le> 7000 \<Longrightarrow> blocks_fit fls"
  by (simp add: blocks_fit_def blocks_fit_of_few)

lemma recovery_saved:
  assumes bs: "concat (map snd bs) = windows_of fls" "\<forall>b \<in> set bs. block_ok b"
    and fit: "\<forall>b \<in> set bs. fits_loader b"
    and tag: "tag = 0x123456 + 2 \<or> tag = 0x123456 + 3"
    and f: "rest p = le64 tag @ concat (map block_bytes bs) @ le64 0 @ after"
  shows "\<exists>p'. recovery_FirstLoad p mem = Inr (p', fold win_apply (windows_of fls) mem) \<and> rest p' = after \<and> content p' = content p"
proof -
  obtain p1 where p1: "fread64 0 p = (tag, p1)" "rest p1 = concat (map block_bytes bs) @ le64 0 @ after"
    "content p1 = content p"
    using fread64_app [OF f, of 0] by auto
  obtain p' where "recovery_fastlz p1 mem = Inr (p', fold win_apply (concat (map snd bs)) mem)"
    "rest p' = after" "content p' = content p"
    using recovery_blocks_ok [OF p1(2), of "zero_buf (MaxCompressSize + ExtraDataSize)"
        "zero_buf (MaxCompressSize + ExtraDataSize)" mem] bs(2) fit p1(3)
    by (auto simp: recovery_fastlz_def zero_buf_def fits_loader_def)
  then show ?thesis
    using p1(1) bs(1) tag by (auto simp: recovery_FirstLoad_def)
qed

text \<open>
  What recovery leaves in a memory: the recorded bytes wherever the memory was zero, and
  nothing changed outside the 4096 bytes that start at a record.
\<close>

definition recovered :: "FirstLoadInfo list \<Rightarrow> memory \<Rightarrow> memory \<Rightarrow> bool" where
  "recovered fls mem mem' \<longleftrightarrow> (\<forall>x. (mem x = 0 \<longrightarrow> mem' x = fl_image fls x) \<and>
     ((\<forall>f \<in> set fls. \<not> in_range x (fl_addr f) 4096) \<longrightarrow> mem' x = mem x))"

lemma win_fold_local: "mem x = mem2 x \<Longrightarrow> fold win_apply ws mem x = fold win_apply ws mem2 x"
proof (induction ws arbitrary: mem mem2)
  case (Cons w ws)
  have "win_apply w mem x = win_apply w mem2 x" using Cons.prems by (cases w) (simp add: win_apply_def)
  then have "fold win_apply ws (win_apply w mem) x = fold win_apply ws (win_apply w mem2) x" by (rule Cons.IH)
  then show ?case by simp
qed simp

lemma win_fold_outside: "\<forall>w \<in> set ws. \<not> in_range x (fst w) 4096 \<Longrightarrow> fold win_apply ws mem x = mem x"
proof (induction ws arbitrary: mem)
  case (Cons w ws)
  have "win_apply w mem x = mem x" using Cons.prems by (cases w) (simp add: win_apply_def)
  then show ?case using Cons by simp
qed simp

lemma windows_of_bases: "w \<in> set (windows_of fls) \<Longrightarrow> \<exists>f \<in> set fls. fst w = fl_addr f"
proof (induction fls rule: windows_of.induct)
  case (2 l ls)
  then show ?case by (auto simp: Let_def dest: set_dropWhileD)
qed simp

lemma recovered_windows:
  assumes "spaced fls"
  shows "recovered fls mem (fold win_apply (windows_of fls) mem)"
proof -
  have z: "fold win_apply (windows_of fls) (\<lambda>_. 0) = fl_image fls"
    using windows_image [of "[]" fls] assms by simp
  have "mem x = 0 \<Longrightarrow> fold win_apply (windows_of fls) mem x = fl_image fls x" for x
    using win_fold_local [of mem x "\<lambda>_. 0" "windows_of fls"] z by simp
  moreover have "fold win_apply (windows_of fls) mem x = mem x" if "\<forall>f \<in> set fls. \<not> in_range x (fl_addr f) 4096" for x
    using that windows_of_bases by (intro win_fold_outside) metis
  ultimately show ?thesis by (simp add: recovered_def)
qed

lemma recovered_zero: "recovered fls (\<lambda>_. 0) mem' \<longleftrightarrow> mem' = fl_image fls \<and> recovered fls (\<lambda>_. 0) (fl_image fls)"
  by (auto simp: recovered_def)

lemma saved_recovers:
  assumes sv: "savable fls" and s: "pending s []" and fit: "blocks_fit_of save tag fls"
    and w: "save fls s = Inr (s', le64 tag @ concat (map block_bytes bs) @ le64 0)"
      "concat (map snd bs) = windows_of fls" "\<forall>b \<in> set bs. block_ok b"
    and tag: "tag = 0x123456 + 2 \<or> tag = 0x123456 + 3"
    and p: "rest p = (le64 tag @ concat (map block_bytes bs) @ le64 0) @ after"
  shows "\<exists>p' mem'. recovery_FirstLoad p mem = Inr (p', mem') \<and> recovered fls mem mem' \<and> rest p' = after \<and> content p' = content p"
proof -
  have "\<forall>b \<in> set bs. fits_loader b" using s fit w unfolding blocks_fit_of_def by blast
  moreover have "spaced fls" using sv by (simp add: savable_def)
  ultimately show ?thesis
    using recovery_saved [OF w(2,3) _ tag, of p after mem] p recovered_windows [of fls mem] by auto
qed

lemma save_recover:
  assumes "savable fls" and "pending s []" and "blocks_fit fls"
  shows "\<exists>s' out. saveFLoads_comp fls s = Inr (s', out) \<and> pending s' [] \<and>
    (\<forall>p mem after. rest p = out @ after \<longrightarrow>
       (\<exists>p' mem'. recovery_FirstLoad p mem = Inr (p', mem') \<and> recovered fls mem mem' \<and> rest p' = after \<and>
          content p' = content p))"
proof -
  obtain s' bs where r: "saveFLoads_comp fls s = Inr (s', le64 compTag @ concat (map block_bytes bs) @ le64 0)"
    "pending s' []" "concat (map snd bs) = windows_of fls" "\<forall>b \<in> set bs. block_ok b"
    using saveFLoads_comp_ok [OF assms(1,2)] by blast
  then show ?thesis
    using saved_recovers [OF assms(1,2) assms(3) [unfolded blocks_fit_def] r(1,3,4)] by (auto simp: compTag_def)
qed

text \<open>The uncompressed form needs no bound.\<close>

lemma store_infos_eq:
  assumes "\<forall>f \<in> set fls. length (fl_data f) = 8"
  shows "store_infos (length fls) (concat (map fl_bytes fls) @ after) mem = fold fl_write fls mem"
  using assms
proof (induction fls arbitrary: mem)
  case (Cons f fls)
  then show ?case by (simp add: fl_bytes_def fl_write_def)
qed simp

lemma nocomp_recover:
  assumes "\<forall>f \<in> set fls. length (fl_data f) = 8" and "length fls < 0x123457" and "rest p = saveFLoads fls @ after"
    and "pos p + 8 \<le> length (content p)"
  shows "\<exists>p'. recovery_FirstLoad p mem = Inr (p', fold fl_write fls mem) \<and> rest p' = after"
proof -
  let ?n = "of_nat (length fls) :: u64"
  have u: "unat ?n = length fls" using assms(2) by (simp add: unat_of_nat_u64)
  have lf: "length (concat (map fl_bytes fls)) = 16 * length fls"
    using assms(1) by (induction fls) (auto simp: fl_bytes_def)
  have r: "rest p = le64 ?n @ concat (map fl_bytes fls) @ after"
    using assms(3) by (simp add: saveFLoads_def)
  obtain p1 where p1: "fread64 0 p = (?n, p1)" "content p1 = content p" "pos p1 = pos p + 8"
    using fread64_app [OF r, of 0] by auto
  have "unat (?n - 0x123456) \<noteq> 1 \<and> unat (?n - 0x123456) \<noteq> 2 \<and> unat (?n - 0x123456) \<noteq> 3"
    using assms(2) unat_diff_of_nat [of "0x123456" ?n] u by auto
  then have tag: "?n - 0x123456 \<noteq> 1" "?n - 0x123456 \<noteq> 2" "?n - 0x123456 \<noteq> 3"
    by (auto simp: word_unat_eq_iff)
  have rewound: "fseek_set (pos p1 - 8) p1 = p" using p1(2,3) by (simp add: fseek_set_def)
  obtain p2 where p2: "fread (16 * length fls) p1 = (concat (map fl_bytes fls), p2)" "rest p2 = after"
    using fread_app [of p1 "concat (map fl_bytes fls)" after "16 * length fls"] fread64_app [OF r, of 0] p1 lf
    by auto
  have "recovery_nocomp p mem = Inr (p2, fold fl_write fls mem)"
    using p1(1) p2(1) u lf store_infos_eq [OF assms(1), where after = "[]" and mem = mem] by (simp add: recovery_nocomp_def)
  with p1(1) tag rewound p2(2) show ?thesis by (simp add: recovery_FirstLoad_def)
qed

end
