(* ===== verification/CkptLoad.thy ===== *)
theory CkptLoad
  imports CkptFile Loader FLoadsRoundTrip
begin

unbundle bit_operations_syntax

text \<open>
  The checkpoint file between the recorder and the loader: what \<open>saveCkptInfo\<close> writes,
  \<open>load_sections\<close> (steps 1 to 5 of \<open>read_ckptinfo\<close>) brings back.
\<close>

section \<open>Reading what was written\<close>

lemma rest_seek: "rest (fseek_set k f) = drop k (content f)"
  by (simp add: rest_def fseek_set_def)

lemma content_seek [simp]: "content (fseek_set k f) = content f"
  by (simp add: fseek_set_def)

lemma length_words [simp]: "length (concat (map le64 ws)) = 8 * length ws"
  by (induction ws) simp_all

lemma word_at: "i < length ws \<Longrightarrow> take 8 (drop (8 * i) (concat (map le64 ws))) = le64 (ws ! i)"
  using nth_block [of ws le64 8 i "[]"] by simp

lemma length_range_bytes [simp]: "length (range_bytes r) = 16"
  by (simp add: range_bytes_def)

lemma length_ranges_bytes [simp]: "length (ranges_bytes rs) = 8 + 16 * length rs"
  using length_blocks [of rs range_bytes 16] by (simp add: ranges_bytes_def)

definition zero_range :: "CodeRange \<Rightarrow> memory \<Rightarrow> memory" where
  "zero_range r m = (if cr_size r \<noteq> 0 then mmap_zero (cr_addr r) (page_up (cr_size r + 4096)) m else m)"

lemma alloc_loop_ranges:
  assumes "rest p = concat (map range_bytes rs) @ after"
  shows "\<exists>p'. alloc_loop (length rs) r p m = (p', fold zero_range rs m) \<and> rest p' = after \<and> content p' = content p"
  using assms
proof (induction rs arbitrary: r p m)
  case (Cons c rs)
  obtain p1 where p1: "fread 16 p = (range_bytes c, p1)" "rest p1 = concat (map range_bytes rs) @ after"
    "content p1 = content p"
    using fread_app [of p "range_bytes c" "concat (map range_bytes rs) @ after" 16] Cons.prems
    by auto
  have a: "un64 (take 8 (range_bytes c)) = cr_addr c" "un64 (drop 8 (range_bytes c)) = cr_size c"
    by (simp_all add: range_bytes_def)
  have o: "overlay (range_bytes c) (le64 x @ le64 y) = range_bytes c" for x y
    by (simp add: overlay_def range_bytes_def)
  show ?case
    using Cons.IH [OF p1(2)] p1(3)
    by (auto simp: p1(1) o a Let_def zero_range_def)
qed simp

lemma alloc_memrange_ranges:
  assumes "rest p = ranges_bytes rs @ after" and "length rs < 2 ^ 64"
  shows "\<exists>p'. alloc_memrange p m = (p', fold zero_range rs m) \<and> rest p' = after \<and> content p' = content p"
proof -
  obtain p1 where p1: "fread64 0 p = (of_nat (length rs), p1)" "rest p1 = concat (map range_bytes rs) @ after"
    "content p1 = content p"
    using fread64_app [of p "of_nat (length rs)" "concat (map range_bytes rs) @ after" 0] assms(1)
    by (auto simp: ranges_bytes_def)
  then show ?thesis
    using alloc_loop_ranges [OF p1(2)] assms(2) by (simp add: alloc_memrange_def unat_of_nat_u64)
qed

lemma read_regs_words:
  assumes "rest p = concat (map le64 ws) @ after" and "length ws = 32"
  shows "\<exists>regs p'. read_regs p old = (regs, p') \<and> (\<forall>r < 32. regs r = ws ! unat r) \<and> rest p' = after \<and> content p' = content p"
proof -
  obtain p' where p': "fread 256 p = (concat (map le64 ws), p')" "rest p' = after" "content p' = content p"
    using fread_app [OF assms(1), of 256] assms(2) by auto
  have o: "overlay (concat (map le64 ws)) (concat (map (\<lambda>i. le64 (old (of_nat i))) [0..<32])) = concat (map le64 ws)"
  proof -
    have "length (concat (map (\<lambda>i. le64 (old (of_nat i))) [0..<32])) = 256"
      using length_words [of "map (\<lambda>i. old (of_nat i)) [0..<32]"] by (simp add: comp_def del: upt_rec_numeral)
    then show ?thesis using assms(2) by (simp add: overlay_def del: upt_rec_numeral)
  qed
  have "un64 (take 8 (drop (8 * unat r) (concat (map le64 ws)))) = ws ! unat r" if "r < 32" for r :: u32
  proof -
    have "unat r < 32" using that by (simp add: word_less_nat_alt)
    then show ?thesis using word_at [of "unat r" ws] assms(2) by simp
  qed
  then show ?thesis using p' by (simp add: read_regs_def o del: upt_rec_numeral)
qed

lemma read_siminfo_words:
  assumes "rest p = concat (map le64 [a, b, c, d]) @ after"
  shows "\<exists>p'. read_siminfo p = Inr (\<lparr>sim_start = a, sim_simNum = b, sim_exitpc = c, sim_exit_cause = d\<rparr>, p') \<and>
    rest p' = after \<and> content p' = content p"
proof -
  obtain p' where "fread 32 p = (concat (map le64 [a, b, c, d]), p')" "rest p' = after" "content p' = content p"
    using fread_app [OF assms, of 32] by auto
  then show ?thesis by (simp add: read_siminfo_def)
qed

lemma exit_cause_field: "(2 + push_bit 2 (x :: u64)) mod 4 = 2"
proof -
  have "unat (push_bit 2 x) = (unat x * 4) mod 2 ^ 64" by (simp add: push_bit_eq_mult unat_word_ariths)
  then have "unat ((2 + push_bit 2 x) mod 4) = (2 + (unat x * 4) mod 2 ^ 64) mod 2 ^ 64 mod 4"
    by (simp only: unat_mod unat_word_ariths) simp
  also have "\<dots> = (2 + (unat x * 4) mod 2 ^ 64) mod 4" by (rule mod_mod_cancel) simp
  also have "\<dots> = (2 + ((unat x * 4) mod 2 ^ 64) mod 4) mod 4" by (rule mod_add_right_eq [symmetric])
  also have "((unat x * 4) mod 2 ^ 64) mod 4 = (unat x * 4) mod 4" by (rule mod_mod_cancel) simp
  finally show ?thesis by (simp add: word_unat_eq_iff)
qed

text \<open>\<open>read_ckptsyscall\<close> puts the rest of the file at the address that \<open>mmap\<close> returned.\<close>

lemma read_ckptsyscall_section:
  assumes sec: "rest fp = sec" and len: "pos fp \<le> length (content fp)" "8 \<le> length sec" "length sec < 2 ^ 63"
  shows "\<exists>l'. read_ckptsyscall va fp l = l' \<and> mem_read (lmem l') va (length sec) = sec \<and>
    syscall_info_addr (runinfo l') = va \<and> nowcallnum (runinfo l') = 0 \<and>
    totalcallnum (runinfo l') = un64 (take 8 sec) \<and> exitpc (runinfo l') = exitpc (runinfo l) \<and>
    exit_cause (runinfo l') = exit_cause (runinfo l) \<and>
    program_intregs l' = program_intregs l \<and> program_fpregs l' = program_fpregs l \<and>
    (\<forall>x. \<not> in_range x va (length sec + 4096) \<longrightarrow> lmem l' x = lmem l x)"
proof -
  let ?n = "length sec + (4096 - length sec mod 4096)"
  let ?m = "mem_write (mmap_zero va ?n (lmem l)) va sec"
  have fs: "pos (fseek_end fp) - pos fp = length sec"
    using sec len(1) by (auto simp: rest_def fseek_end_def)
  have fr: "fst (fread (length sec) (fseek_set (pos fp) (fseek_end fp))) = sec"
    using sec by (simp add: fread_def rest_def fseek_set_def fseek_end_def Let_def)
  have run: "read_ckptsyscall va fp l = l\<lparr>lmem := ?m, runinfo := (runinfo l)\<lparr>syscall_info_addr := va,
      nowcallnum := 0, totalcallnum := get64 ?m va\<rparr>\<rparr>"
    unfolding read_ckptsyscall_def Let_def fs fr ..
  have rd: "mem_read ?m va (length sec) = sec" using len(3) by (intro mem_read_write_same) simp
  have hd8: "get64 ?m va = un64 (take 8 sec)"
    using mem_read_write_sub [of 0 8 sec "mmap_zero va ?n (lmem l)" va] len by (simp add: get64_def)
  have "?m x = lmem l x" if "\<not> in_range x va (length sec + 4096)" for x
  proof -
    have "\<not> in_range x va ?n" "\<not> in_range x va (length sec)" using that by (auto simp: in_range_def)
    then show ?thesis by (simp add: mem_write_out mmap_zero_def)
  qed
  then show ?thesis unfolding run using rd hd8 by auto
qed

section \<open>The round trip of a checkpoint file\<close>

definition ckpt_ok :: "CkptInfo \<Rightarrow> bool" where
  "ckpt_ok c \<longleftrightarrow> savable (ck_firstloads c) \<and> blocks_fit (ck_firstloads c) \<and> length (ck_intregs c) = 32 \<and>
     length (ck_fpregs c) = 32 \<and> (\<forall>t \<in> set (ck_sysinfos c). si_params t \<noteq> [])"

definition loaded_as :: "CkptInfo \<Rightarrow> bytes \<Rightarrow> u64 \<Rightarrow> loader \<Rightarrow> loader \<Rightarrow> bool" where
  "loaded_as c sec va l l' \<longleftrightarrow>
     exitpc (runinfo l') = ck_exit_pc c \<and> exit_cause (runinfo l') = 2 \<and>
     (\<forall>r < 32. program_intregs l' r = ck_intregs c ! unat r) \<and>
     (\<forall>r < 32. program_fpregs l' r = ck_fpregs c ! unat r) \<and>
     syscall_info_addr (runinfo l') = va \<and> nowcallnum (runinfo l') = 0 \<and>
     totalcallnum (runinfo l') = of_nat (length (ck_sysinfos c)) \<and>
     mem_read (lmem l') va (length sec) = sec \<and>
     (\<exists>m. recovered (ck_firstloads c) (fold zero_range (ck_memrange c) (lmem l)) m \<and>
        (\<forall>x. \<not> in_range x va (length sec + 4096) \<longrightarrow> lmem l' x = m x))"

text \<open>The parts of a written file.\<close>

lemma saveCkptInfo_parts:
  assumes ok: "ckpt_ok c" and s: "pending s []"
  shows "\<exists>fl sec c' s'. saveCkptInfo rs c s = Inr (ranges_bytes (ck_textrange c) @ concat (map le64 (slice_words rs c)) @
      concat (map le64 (ck_intregs c)) @ concat (map le64 (ck_fpregs c)) @ ranges_bytes (ck_memrange c) @ fl @ sec, c', s') \<and>
    pending s' [] \<and>
    (\<forall>p mem after. rest p = fl @ after \<longrightarrow>
       (\<exists>p' mem'. recovery_FirstLoad p mem = Inr (p', mem') \<and> recovered (ck_firstloads c) mem mem' \<and> rest p' = after \<and>
          content p' = content p)) \<and>
    saveSysInfo (ck_sysinfos c) = Inr (sec, ck_sysinfos c') \<and>
    take 8 sec = le64 (of_nat (length (ck_sysinfos c))) \<and> 8 \<le> length sec \<and>
    (\<forall>i < length (ck_sysinfos c). sec_call sec (length (ck_sysinfos c)) i (ck_sysinfos c ! i))"
proof -
  obtain s' fl where f: "saveFLoads_comp (ck_firstloads c) s = Inr (s', fl)" "pending s' []"
    "\<forall>p mem after. rest p = fl @ after \<longrightarrow>
       (\<exists>p' mem'. recovery_FirstLoad p mem = Inr (p', mem') \<and> recovered (ck_firstloads c) mem mem' \<and> rest p' = after \<and>
          content p' = content p)"
    using save_recover [of "ck_firstloads c" s] ok s unfolding ckpt_ok_def by blast
  obtain sec infos where y: "saveSysInfo (ck_sysinfos c) = Inr (sec, infos)"
    "take 8 sec = le64 (of_nat (length (ck_sysinfos c)))"
    "\<forall>i < length (ck_sysinfos c). sec_call sec (length (ck_sysinfos c)) i (ck_sysinfos c ! i)"
    using saveSysInfo_ok [of "ck_sysinfos c"] ok unfolding ckpt_ok_def by blast
  have "length (take 8 sec) = 8" unfolding y(2) by simp
  then have "8 \<le> length sec" by simp
  moreover have "saveCkptInfo rs c s = Inr (ranges_bytes (ck_textrange c) @ concat (map le64 (slice_words rs c)) @
      concat (map le64 (ck_intregs c)) @ concat (map le64 (ck_fpregs c)) @ ranges_bytes (ck_memrange c) @ fl @ sec,
      c\<lparr>ck_sysinfos := infos\<rparr>, s')"
    using f(1) y(1) by (simp add: saveCkptInfo_def)
  moreover have "saveSysInfo (ck_sysinfos c) = Inr (sec, ck_sysinfos (c\<lparr>ck_sysinfos := infos\<rparr>))" using y(1) by simp
  ultimately show ?thesis using f(2,3) y(2,3) by blast
qed

text \<open>Reading such a file: the words of the slice and the registers.\<close>

lemma read_written_head:
  assumes l32: "length (ck_intregs c) = 32" "length (ck_fpregs c) = 32" and flen: "length img < 2 ^ 63"
    and img: "img = ranges_bytes (ck_textrange c) @ concat (map le64 (slice_words rs c)) @
      concat (map le64 (ck_intregs c)) @ concat (map le64 (ck_fpregs c)) @ after"
  obtains p0 sim p1 p2 ints p3 fps p4 where
    "fread64 0 (fopen_rb img) = (of_nat (length (ck_textrange c)), p0)"
    "read_siminfo (fseek_set (unat (16 * of_nat (length (ck_textrange c)) + 8 :: u64)) p0) = Inr (sim, p1)"
    "sim_exitpc sim = ck_exit_pc c" "sim_exit_cause sim mod 4 = 2" "fread64 0 p1 = (ck_npc c, p2)"
    "read_regs p2 ri = (ints, p3)" "\<forall>r < 32. ints r = ck_intregs c ! unat r"
    "read_regs p3 rf = (fps, p4)" "\<forall>r < 32. fps r = ck_fpregs c ! unat r" "rest p4 = after" "content p4 = img"
proof -
  let ?nt = "length (ck_textrange c)" and ?regs = "concat (map le64 (ck_intregs c)) @ concat (map le64 (ck_fpregs c)) @ after"
  obtain w0 w1 w3 where words: "slice_words rs c = [w0, w1, ck_exit_pc c, w3, ck_npc c]" "w3 = 2 + push_bit 2 (ck_length c - ck_warmup c)"
    by (simp add: slice_words_def)
  have lens: "16 * ?nt + 8 < 2 ^ 63" using flen by (simp add: img)
  have r0: "rest (fopen_rb img) = le64 (of_nat ?nt) @ concat (map range_bytes (ck_textrange c)) @ concat (map le64 (slice_words rs c)) @ ?regs"
    by (simp add: img ranges_bytes_def)
  have "content (fopen_rb img) = img" by (simp add: fopen_rb_def)
  then obtain p0 where p0: "fread64 0 (fopen_rb img) = (of_nat ?nt, p0)" "content p0 = img" using fread64_app [OF r0, of 0] by auto
  have seek: "unat (16 * of_nat ?nt + 8 :: u64) = 16 * ?nt + 8" using unat_of_nat_u64 [of "16 * ?nt + 8"] lens by simp
  have r1: "rest (fseek_set (16 * ?nt + 8) p0) = concat (map le64 [w0, w1, ck_exit_pc c, w3]) @ le64 (ck_npc c) @ ?regs"
    by (simp add: rest_seek p0(2) img words add.commute)
  obtain p1 where p1: "read_siminfo (fseek_set (16 * ?nt + 8) p0) =
      Inr (\<lparr>sim_start = w0, sim_simNum = w1, sim_exitpc = ck_exit_pc c, sim_exit_cause = w3\<rparr>, p1)"
    "rest p1 = le64 (ck_npc c) @ ?regs" "content p1 = img"
    using read_siminfo_words [OF r1] p0(2) by auto
  obtain p2 where p2: "fread64 0 p1 = (ck_npc c, p2)" "rest p2 = ?regs" "content p2 = img"
    using fread64_app [OF p1(2), of 0] p1(3) by auto
  obtain ints p3 where p3: "read_regs p2 ri = (ints, p3)" "\<forall>r < 32. ints r = ck_intregs c ! unat r"
    "rest p3 = concat (map le64 (ck_fpregs c)) @ after" "content p3 = img"
    using read_regs_words [OF p2(2) l32(1), of ri] p2(3) by auto
  obtain fps p4 where p4: "read_regs p3 rf = (fps, p4)" "\<forall>r < 32. fps r = ck_fpregs c ! unat r" "rest p4 = after" "content p4 = img"
    using read_regs_words [OF p3(3) l32(2), of rf] p3(4) by auto
  have "w3 mod 4 = 2" by (simp add: words(2) exit_cause_field)
  then show thesis
    by (intro that [of p0 "\<lparr>sim_start = w0, sim_simNum = w1, sim_exitpc = ck_exit_pc c, sim_exit_cause = w3\<rparr>" p1 p2 ints p3 fps p4])
      (simp_all add: p0 p1 p2 p3 p4 seek)
qed

lemma pos_before_rest: "rest p \<noteq> [] \<Longrightarrow> pos p \<le> length (content p)"
  by (auto simp: rest_def)

text \<open>Loading it: the memory ranges, the first loads and the section of calls follow.\<close>

lemma load_written:
  assumes l32: "length (ck_intregs c) = 32" "length (ck_fpregs c) = 32" and flen: "length img < 2 ^ 63"
    and img: "img = ranges_bytes (ck_textrange c) @ concat (map le64 (slice_words rs c)) @
      concat (map le64 (ck_intregs c)) @ concat (map le64 (ck_fpregs c)) @ ranges_bytes (ck_memrange c) @ fl @ sec"
    and fl: "\<And>p mem after. rest p = fl @ after \<Longrightarrow>
       \<exists>p' mem'. recovery_FirstLoad p mem = Inr (p', mem') \<and> recovered (ck_firstloads c) mem mem' \<and> rest p' = after \<and> content p' = content p"
    and sec: "take 8 sec = le64 (of_nat (length (ck_sysinfos c)))" "8 \<le> length sec"
  shows "\<exists>l'. load_sections va img l = Inr (ck_npc c, l') \<and> loaded_as c sec va l l'"
proof -
  let ?m0 = "fold zero_range (ck_memrange c) (lmem l)"
  have lens: "length (ck_memrange c) < 2 ^ 64" "length sec < 2 ^ 63" using flen by (simp_all add: img)
  obtain p0 sim p1 p2 ints p3 fps p4 where h:
    "fread64 0 (fopen_rb img) = (of_nat (length (ck_textrange c)), p0)"
    "read_siminfo (fseek_set (unat (16 * of_nat (length (ck_textrange c)) + 8 :: u64)) p0) = Inr (sim, p1)"
    "sim_exitpc sim = ck_exit_pc c" "sim_exit_cause sim mod 4 = 2" "fread64 0 p1 = (ck_npc c, p2)"
    "read_regs p2 (program_intregs l) = (ints, p3)" "\<forall>r < 32. ints r = ck_intregs c ! unat r"
    "read_regs p3 (program_fpregs l) = (fps, p4)" "\<forall>r < 32. fps r = ck_fpregs c ! unat r"
    "rest p4 = ranges_bytes (ck_memrange c) @ fl @ sec" "content p4 = img"
    by (rule read_written_head [OF l32 flen img])
  obtain p5 where p5: "alloc_memrange p4 (lmem l) = (p5, ?m0)" "rest p5 = fl @ sec" "content p5 = img"
    using alloc_memrange_ranges [OF h(10) lens(1), of "lmem l"] h(11) by auto
  obtain p6 m where p6: "recovery_FirstLoad p5 ?m0 = Inr (p6, m)" "recovered (ck_firstloads c) ?m0 m" "rest p6 = sec" "content p6 = img"
    using fl [OF p5(2), of ?m0] p5(3) by auto
  have pos6: "pos p6 \<le> length (content p6)" using p6(3) sec(2) by (intro pos_before_rest) auto
  let ?l1 = "l\<lparr>runinfo := (runinfo l)\<lparr>exitpc := ck_exit_pc c, exit_cause := 2\<rparr>, program_intregs := ints, program_fpregs := fps, lmem := m\<rparr>"
  have run: "load_sections va img l = Inr (ck_npc c, read_ckptsyscall va p6 ?l1)"
    by (simp add: load_sections_def h p5(1) p6(1) Let_def)
  obtain l' where "read_ckptsyscall va p6 ?l1 = l'" "mem_read (lmem l') va (length sec) = sec"
    "syscall_info_addr (runinfo l') = va" "nowcallnum (runinfo l') = 0" "totalcallnum (runinfo l') = un64 (take 8 sec)"
    "exitpc (runinfo l') = ck_exit_pc c" "exit_cause (runinfo l') = 2" "program_intregs l' = ints" "program_fpregs l' = fps"
    "\<forall>x. \<not> in_range x va (length sec + 4096) \<longrightarrow> lmem l' x = m x"
    using read_ckptsyscall_section [OF p6(3) pos6 sec(2) lens(2), of va ?l1] by auto
  then show ?thesis using run h(7,9) p6(2) sec(1) by (auto simp: loaded_as_def)
qed

theorem ckpt_file_roundtrip:
  assumes ok: "ckpt_ok c" and s: "pending s []"
  shows "\<exists>img sec c' s'. saveCkptInfo rs c s = Inr (img, c', s') \<and> pending s' [] \<and>
    saveSysInfo (ck_sysinfos c) = Inr (sec, ck_sysinfos c') \<and>
    (\<forall>i < length (ck_sysinfos c). sec_call sec (length (ck_sysinfos c)) i (ck_sysinfos c ! i)) \<and>
    (length img < 2 ^ 63 \<longrightarrow> (\<forall>l va. \<exists>l'. load_sections va img l = Inr (ck_npc c, l') \<and> loaded_as c sec va l l'))"
proof -
  obtain fl sec c' s' where w: "saveCkptInfo rs c s = Inr (ranges_bytes (ck_textrange c) @ concat (map le64 (slice_words rs c)) @
      concat (map le64 (ck_intregs c)) @ concat (map le64 (ck_fpregs c)) @ ranges_bytes (ck_memrange c) @ fl @ sec, c', s')"
    "pending s' []" "saveSysInfo (ck_sysinfos c) = Inr (sec, ck_sysinfos c')"
    and fl: "\<And>p mem after. rest p = fl @ after \<Longrightarrow>
       \<exists>p' mem'. recovery_FirstLoad p mem = Inr (p', mem') \<and> recovered (ck_firstloads c) mem mem' \<and> rest p' = after \<and> content p' = content p"
    and sec: "take 8 sec = le64 (of_nat (length (ck_sysinfos c)))" "8 \<le> length sec"
      "\<forall>i < length (ck_sysinfos c). sec_call sec (length (ck_sysinfos c)) i (ck_sysinfos c ! i)"
    using saveCkptInfo_parts [OF ok s, of rs] by blast
  have "length (ck_intregs c) = 32" "length (ck_fpregs c) = 32" using ok by (simp_all add: ckpt_ok_def)
  note load = load_written [OF this _ refl fl sec(1,2), where rs = rs]
  from w sec(3) show ?thesis by (intro exI conjI) (assumption, assumption, assumption, assumption, use load in blast)
qed

end
