(* ===== verification/CollectProps.thy ===== *)
theory CollectProps
  imports Collect CkptLoad
begin

unbundle bit_operations_syntax

text \<open>
  Properties of the collector: which slices the schedule starts, that the running slices see every
  event, that the reader of an old checkpoint skips exactly what the writer wrote, and that an old
  call comes back as the call it was.
\<close>

section \<open>The schedule\<close>

text \<open>\<open>isCkptStart\<close> asked once for every instruction number; the answers that started a slice.\<close>

fun schedule :: "u64 list \<Rightarrow> collector \<Rightarrow> (u64 \<times> u64) list \<times> collector" where
  "schedule [] k = ([], k)"
| "schedule (n # ns) k =
     (case isCkptStart n k of (r, k') \<Rightarrow>
      case schedule ns k' of (started, k'') \<Rightarrow>
      ((case r of None \<Rightarrow> started | Some len \<Rightarrow> (n, len) # started), k''))"

lemma fst_schedule_Cons:
  "fst (schedule (n # ns) k) =
     (case isCkptStart n k of (r, k') \<Rightarrow>
      (case r of None \<Rightarrow> [] | Some len \<Rightarrow> [(n, len)]) @ fst (schedule ns k'))"
  by (simp split: prod.splits option.splits)

definition slice_of :: "CkptCtrl \<Rightarrow> u64 \<times> u64" where
  "slice_of c = (ctrl_start c, ctrl_end c - ctrl_start c)"

definition left_ctrls :: "collector \<Rightarrow> CkptCtrl list" where
  "left_ctrls k = drop (ckptidx k) (ctrls (ckptsettings k))"

lemma isCkptStart_left:
  "isCkptStart n k =
     (case left_ctrls k of
        [] \<Rightarrow> (None, k)
      | c # _ \<Rightarrow> if n = ctrl_start c then (Some (snd (slice_of c)), k\<lparr>ckptidx := ckptidx k + 1\<rparr>) else (None, k))"
  by (auto simp: isCkptStart_def left_ctrls_def slice_of_def Let_def Cons_nth_drop_Suc [symmetric] split: list.splits)

lemma left_ctrls_step: "left_ctrls k = c # cs \<Longrightarrow> left_ctrls (k\<lparr>ckptidx := ckptidx k + 1\<rparr>) = cs"
  by (simp add: left_ctrls_def) (metis drop_Suc list.sel(3) tl_drop)

lemma schedule_stuck:
  assumes "left_ctrls k = c # cs" and "\<forall>n \<in> set ns. ctrl_start c < n"
  shows "schedule ns k = ([], k)"
  using assms(2)
proof (induction ns)
  case (Cons n ns)
  then have "isCkptStart n k = (None, k)" using assms(1) by (auto simp: isCkptStart_left)
  with Cons show ?case by simp
qed simp

lemma of_nat_u64_le: "a \<le> b \<Longrightarrow> b < 2 ^ 64 \<Longrightarrow> (of_nat a :: u64) \<le> of_nat b"
  by (simp add: word_le_nat_alt unat_of_nat_u64)

lemma schedule_from:
  assumes "sorted_wrt (<) (map ctrl_start (left_ctrls k))" and "\<forall>c \<in> set (left_ctrls k). a \<le> unat (ctrl_start c)"
    and "a + m \<le> 2 ^ 64"
  shows "fst (schedule (map of_nat [a..<a + m]) k) =
    map slice_of (takeWhile (\<lambda>c. unat (ctrl_start c) < a + m) (left_ctrls k))"
  using assms
proof (induction m arbitrary: a k)
  case 0
  then show ?case by (cases "left_ctrls k") auto
next
  case (Suc m)
  define ns :: "u64 list" where "ns = map of_nat [Suc a..<Suc a + m]"
  have up: "map of_nat [a..<a + Suc m] = (of_nat a :: u64) # ns" by (simp add: ns_def upt_rec)
  have ua: "unat (of_nat a :: u64) = a" using Suc.prems(3) by (simp add: unat_of_nat_u64)
  show ?case
  proof (cases "left_ctrls k")
    case Nil
    then have none: "isCkptStart n k = (None, k)" for n by (simp add: isCkptStart_left)
    have "schedule ns k = ([], k)" for ns by (induction ns) (simp_all add: none)
    then show ?thesis using Nil by simp
  next
    case (Cons c cs)
    show ?thesis
    proof (cases "of_nat a = ctrl_start c")
      case True
      define k' where "k' = k\<lparr>ckptidx := ckptidx k + 1\<rparr>"
      have l: "left_ctrls k' = cs" unfolding k'_def by (rule left_ctrls_step [OF Cons])
      have "\<forall>d \<in> set cs. Suc a \<le> unat (ctrl_start d)"
        using Suc.prems(1) Cons True ua by (auto simp: word_less_nat_alt Suc_le_eq)
      then have "fst (schedule ns k') =
          map slice_of (takeWhile (\<lambda>c. unat (ctrl_start c) < Suc a + m) cs)"
        using Suc.IH [of k' "Suc a"] Suc.prems(1,3) Cons by (simp add: l ns_def)
      then show ?thesis
        using True Cons ua unfolding up fst_schedule_Cons
        by (simp add: isCkptStart_left k'_def slice_of_def)
    next
      case False
      have "a \<noteq> unat (ctrl_start c)" using False by auto
      then have ca: "Suc a \<le> unat (ctrl_start c)" using Suc.prems(2) Cons by simp
      then have "\<forall>d \<in> set (left_ctrls k). Suc a \<le> unat (ctrl_start d)"
        using Suc.prems(1) Cons by (auto simp: word_less_nat_alt)
      then have "fst (schedule ns k) =
          map slice_of (takeWhile (\<lambda>c. unat (ctrl_start c) < Suc a + m) (left_ctrls k))"
        using Suc.IH [of k "Suc a"] Suc.prems(1,3) by (simp add: ns_def)
      then show ?thesis
        using False Cons unfolding up fst_schedule_Cons by (simp add: isCkptStart_left)
    qed
  qed
qed

section \<open>Every running slice sees the event\<close>

lemma res_map_Inr: "res_map f xs = Inr ys \<longleftrightarrow> list_all2 (\<lambda>x y. f x = Inr y) xs ys"
  by (induction xs arbitrary: ys) (auto simp: res_bind_eq_Inr list_all2_Cons1)

lemma on_pending_Inr:
  "on_pending f k = Inr k' \<longleftrightarrow>
     (\<exists>cs. list_all2 (\<lambda>c c'. f c = Inr c') (pendingCkpts k) cs \<and> k' = k\<lparr>pendingCkpts := cs\<rparr>)"
  by (auto simp: on_pending_def res_bind_eq_Inr res_map_Inr)

lemma res_map_pure: "res_map (\<lambda>x. Inr (g x)) xs = Inr (map g xs)"
  by (induction xs) simp_all

lemma over_loop_keeps:
  assumes "over_loop old place pc info cs s = Inr (cs', fs, s')"
  shows "cs' = filter (\<lambda>c. place < ck_startnum c + ck_length c) cs \<and> length cs = length cs' + length fs"
  using assms
proof (induction cs arbitrary: s cs' fs s')
  case (Cons c cs)
  then obtain out c' s1 cs1 fs1 where d: "detectOver old place pc info (c, s) = Inr (out, c', s1)"
    "over_loop old place pc info cs s1 = Inr (cs1, fs1, s')"
    "(cs', fs) = (case out of Some f \<Rightarrow> (cs1, f # fs1) | None \<Rightarrow> (c' # cs1, fs1))"
    by (auto simp: res_bind_eq_Inr split: option.splits)
  have "(out = None \<longleftrightarrow> place < ck_startnum c + ck_length c) \<and> (out = None \<longrightarrow> c' = c)"
    using d(1) by (auto simp: detectOver_def res_bind_eq_Inr Let_def not_le split: if_splits)
  with Cons.IH [OF d(2)] d(3) show ?case by (auto split: option.splits)
qed simp

section \<open>Reading an old checkpoint\<close>

lemma rest_length: "rest p = xs \<Longrightarrow> 0 < length xs \<Longrightarrow> pos p + length xs = length (content p)"
  by (auto simp: rest_def)

lemma rest_seek_u64:
  assumes "rest p = xs @ ys" and "pos p + length xs < 2 ^ 63" and "unat off = pos p + length xs"
  shows "rest (seek_u64 off p) = ys" and "content (seek_u64 off p) = content p" and "pos (seek_u64 off p) = pos p + length xs"
  using assms by (simp_all add: seek_u64_def fseek_set_def rest_def add.commute [of "pos p"] flip: drop_drop)

lemma skip_blocks_ok:
  assumes "rest p = concat (map block_bytes bs) @ le64 0 @ after" and "\<forall>b \<in> set bs. block_ok b"
    and "length (content p) < 2 ^ 63"
  shows "\<exists>p'. skip_blocks p = Some p' \<and> rest p' = after \<and> pos p' + length after = length (content p)"
  using assms
proof (induction bs arbitrary: p)
  case Nil
  obtain p' where "fread64 0 p = (0, p')" "rest p' = after" "pos p' = pos p + 8"
    using fread64_app [of p 0 after 0] Nil.prems(1) by auto
  then show ?case using rest_length [OF Nil.prems(1)] by (subst skip_blocks.simps) simp
next
  case (Cons b bs)
  obtain zs ws where b: "b = (zs, ws)" by (cases b)
  let ?rest = "concat (map block_bytes bs) @ le64 0 @ after"
  note sz = block_sizes [of b, unfolded b, simplified]
  have u: "unat (of_nat (length zs) :: u64) = length zs" "zs \<noteq> []"
    using sz Cons.prems(2) b by (simp_all add: unat_of_nat_u64)
  have nz: "(of_nat (length zs) :: u64) \<noteq> 0" using u by (metis length_0_conv unsigned_0)
  obtain p1 where p1: "fread64 0 p = (of_nat (length zs), p1)"
    "rest p1 = (le64 (of_nat (length ws)) @ zs) @ ?rest" "content p1 = content p"
    using fread64_app [of p "of_nat (length zs)" "le64 (of_nat (length ws)) @ zs @ ?rest" 0] Cons.prems(1) b
    by (auto simp: block_bytes_def [of "(zs, ws)"])
  have l: "pos p1 + (8 + length zs) < 2 ^ 63"
    using Cons.prems(3) p1(3) rest_length [OF p1(2)] by simp
  have off: "unat (of_nat (pos p1) + 8 + of_nat (length zs) :: u64) = pos p1 + (8 + length zs)"
    using l unat_of_nat_u64 [of "pos p1 + 8 + length zs"] by simp
  define p2 where "p2 = seek_u64 (of_nat (pos p1) + 8 + of_nat (length zs)) p1"
  have p2: "rest p2 = ?rest" "content p2 = content p"
    unfolding p2_def using rest_seek_u64 [OF p1(2) _ , of "of_nat (pos p1) + 8 + of_nat (length zs)"] off l p1(3) by simp_all
  obtain p' where "skip_blocks p2 = Some p'" "rest p' = after" "pos p' + length after = length (content p)"
    using Cons.IH [OF p2(1)] Cons.prems(2,3) p2(2) by auto
  with p1(1) nz show ?case by (subst skip_blocks.simps) (simp add: p2_def)
qed

lemma read_floads_saved:
  assumes "savable fls" and "pending s []" and "saveFLoads_comp fls s = Inr (s', out)"
    and "rest p = out @ after" and "length (content p) < 2 ^ 63"
  shows "read_floads p = Some (Inr (of_nat (length (content p) - length after)))"
proof -
  obtain bs where bs: "out = le64 compTag @ concat (map block_bytes bs) @ le64 0" "\<forall>b \<in> set bs. block_ok b"
    using saveFLoads_comp_ok [OF assms(1,2)] assms(3) by auto
  obtain p1 where p1: "fread64 0 p = (compTag, p1)" "rest p1 = concat (map block_bytes bs) @ le64 0 @ after"
    "content p1 = content p"
    using fread64_app [of p compTag "concat (map block_bytes bs) @ le64 0 @ after" 0] assms(4) bs(1) by auto
  obtain p' where p': "skip_blocks p1 = Some p'" "pos p' + length after = length (content p)"
    using skip_blocks_ok [OF p1(2) bs(2)] assms(5) p1(3) by auto
  then have "pos p' = length (content p) - length after" by simp
  with p1(1) p'(1) show ?thesis by (simp add: read_floads_def compTag_def)
qed

section \<open>Inserting an old call\<close>

text \<open>What the reader finds of a recorded call, whatever else is in the section.\<close>

definition oldcall_of :: "SyscallInfo \<Rightarrow> oldcall" where
  "oldcall_of s =
     \<lparr>oc_pc = si_pc s, oc_num = ucast (si_num s), oc_p0 = hd (si_params s), oc_ret = si_ret s, oc_hasret = si_hasret s,
      oc_bufaddr = (if si_data s = [] then 0 else si_bufaddr s), oc_bufsize = of_nat (length (si_data s)), oc_data = si_data s\<rparr>"

lemma take_drop_part: "k + m \<le> c \<Longrightarrow> take m (drop k (take c xs)) = take m (drop k xs)"
  by (simp add: drop_take min_def)

lemma ucast_of_nat_32: "(ucast (of_nat n :: u64) :: u32) = of_nat n"
  by (simp add: word_unat_eq_iff unsigned_ucast_eq unsigned_of_nat)

lemma old_call_found:
  assumes call: "sec_call sec n i s" and i: "i < n" and len: "length sec < 2 ^ 32 - 1" and num: "unat (si_num s) < 2 ^ 32"
    and od: "syssec od = buf_of sec"
  shows "old_call od n i = Inr (oldcall_of s)"
proof -
  obtain r off where r: "8 + 4 * n + 40 * r + 40 \<le> length sec" "take 4 (drop (8 + 4 * i) sec) = le32 (of_nat r)"
    "take 40 (drop (8 + 4 * n + 40 * r) sec) = rec_bytes s (of_nat off)" "payload_at sec off s" "off < 2 ^ 32"
    using sec_call_parts [OF call len] .
  let ?a = "8 + 4 * n + 40 * r"
  have ix: "peek (buf_of sec) (8 + 4 * i) 4 = Inr (le32 (of_nat r))"
    using peek_buf_of [of "8 + 4 * i" 4 sec] i r(1,2) by simp
  have ur: "unat (of_nat r :: u32) = r" using r(1) len by (simp add: unsigned_of_nat take_bit_eq_mod)
  have part: "sec_u64 (buf_of sec) (?a + k) = Inr (un64 (take 8 (drop k (rec_bytes s (of_nat off)))))" if "k + 8 \<le> 40" for k
  proof -
    have "take 8 (drop (?a + k) sec) = take 8 (drop k (rec_bytes s (of_nat off)))"
      using take_drop_part [of k 8 40 "drop ?a sec"] that r(3) by (simp add: add.commute)
    then show ?thesis using peek_buf_of [of "?a + k" 8 sec] that r(1) by (simp add: sec_u64_def)
  qed
  have fld: "sec_u64 (buf_of sec) ?a = Inr (si_pc s)"
    "sec_u64 (buf_of sec) (?a + 8) = Inr (push_bit 32 (si_num s) + of_nat (length (si_data s)))"
    "sec_u64 (buf_of sec) (?a + 16) = Inr (hd (si_params s))" "sec_u64 (buf_of sec) (?a + 24) = Inr (si_ret s)"
    "sec_u64 (buf_of sec) (?a + 32) = Inr (push_bit 8 (of_nat off) + hasret_bit s)"
    using part [of 0] part [of 8] part [of 16] part [of 24] part [of 32] by (simp_all add: rec_bytes_def)
  have at: "8 + n * 4 + unat (un32 (le32 (of_nat r))) * 40 = ?a" by (simp add: ur)
  have ret: "hasret_bit s = 1 \<longleftrightarrow> si_hasret s" by (simp add: hasret_bit_def)
  have small: "si_data s \<noteq> [] \<Longrightarrow> length (si_data s) < 2 ^ 32" using r(4) len by (simp add: payload_at_def)
  note field = data_offset_field [OF r(5), of s] num_field [OF num, of "length (si_data s)"]
  show ?thesis
  proof (cases "si_data s = []")
    case True
    then have "(of_nat off :: u64) = 0xffffffff" using r(4) by (simp add: payload_at_def)
    with True show ?thesis
      unfolding old_call_def Let_def od ix res_bind_simps at fld field
      using field(3) by (simp add: oldcall_of_def ret)
  next
    case False
    have o: "off + 8 + length (si_data s) \<le> length sec" "take (8 + length (si_data s)) (drop off sec) = sys_payload s"
      using r(4) False by (simp_all add: payload_at_def)
    have "unat (of_nat off :: u64) = off" using r(5) by (simp add: unat_of_nat_u64)
    moreover from this have "(of_nat off :: u64) \<noteq> 0xffffffff" using o(1) len by auto
    moreover have "take 8 (drop off sec) = le64 (si_bufaddr s)"
      using take_drop_part [of 0 8 "8 + length (si_data s)" "drop off sec"] o(2) by (simp add: sys_payload_def)
    then have "sec_u64 (buf_of sec) off = Inr (si_bufaddr s)"
      using peek_buf_of [of off 8 sec] o(1) by (simp add: sec_u64_def)
    moreover have "peek (buf_of sec) (off + 8) (length (si_data s)) = Inr (si_data s)"
      using peek_buf_of [of "off + 8" "length (si_data s)" sec] o
        take_drop_part [of 8 "length (si_data s)" "8 + length (si_data s)" "drop off sec"]
      by (simp add: sys_payload_def add.commute)
    moreover have "unat (of_nat (length (si_data s)) :: u32) = length (si_data s)"
      using small False by (simp add: unsigned_of_nat take_bit_eq_mod)
    ultimately show ?thesis
      unfolding old_call_def Let_def od ix res_bind_simps at fld field
      using field(3,4) small False by (simp add: oldcall_of_def ret ucast_of_nat_32)
  qed
qed

text \<open>The entry that replaces a recorded call: the same call under the reader's name.\<close>

definition replayed :: "SyscallInfo \<Rightarrow> SyscallInfo" where
  "replayed s =
     \<lparr>si_name = ''readckpt_syscall'', si_pc = si_pc s, si_num = si_num s, si_ret = si_ret s, si_hasret = si_hasret s,
      si_bufaddr = (if si_data s = [] then 0 else si_bufaddr s), si_data = si_data s, si_params = replicate 3 (hd (si_params s))\<rparr>"

lemma replayed_same: "same_call s (replayed s)"
  by (simp add: same_call_def replayed_def)

lemma insert_call_replays:
  assumes "unat (si_num s) < 2 ^ 32" and "length (si_data s) < 2 ^ 32"
  shows "insert_call (oldcall_of s) infos = Inr (infos @ [replayed s])"
proof -
  obtain m where m: "si_num s = of_nat m" "m < 2 ^ 32" using assms(1) by (metis of_nat_unat ucast_id)
  then have "(ucast (ucast (si_num s) :: u32) :: u64) = si_num s"
    using ucast_of_nat_u32 [OF m(2)] by (simp only: ucast_of_nat_32)
  moreover have "length (si_data s) = unat (of_nat (length (si_data s)) :: u32)"
    using assms(2) by (simp add: unsigned_of_nat take_bit_eq_mod)
  ultimately show ?thesis
    unfolding insert_call_def
    by (subst record_call) (simp_all add: oldcall_of_def replayed_def)
qed

lemma insert_recorded:
  assumes call: "sec_call sec n i s" and i: "i < n" "n < 2 ^ 32" and len: "length sec < 2 ^ 32 - 1" and num: "unat (si_num s) < 2 ^ 32"
    and cnt: "take 8 sec = le64 (of_nat n)" and od: "syssec od = buf_of sec"
  shows "ckpt_insert_syscall od (of_nat i) k =
    Inr (k\<lparr>pendingCkpts := map (\<lambda>c. c\<lparr>ck_sysinfos := ck_sysinfos c @ [replayed s]\<rparr>) (pendingCkpts k)\<rparr>)"
proof -
  obtain r off where r: "8 + 4 * n + 40 * r + 40 \<le> length sec" "payload_at sec off s"
    using sec_call_parts [OF call len] by metis
  have sz: "length (si_data s) < 2 ^ 32" "8 \<le> length sec"
    using r len by (cases "si_data s = []"; simp add: payload_at_def)+
  have tot: "old_total od = Inr (of_nat n)"
    using peek_buf_of [of 0 8 sec] sz(2) cnt by (simp add: old_total_def sec_u64_def od)
  have "(ucast (of_nat i :: u32) :: u64) = of_nat i" using i by (intro ucast_of_nat_u32) simp
  moreover have lt: "(of_nat i :: u64) < of_nat n" using i by (simp add: word_less_nat_alt unat_of_nat_u64)
  moreover have "\<not> (of_nat n :: u64) < of_nat i" using lt by (rule less_not_sym)
  moreover have "unat (of_nat i :: u32) = i" using i by (simp add: unsigned_of_nat take_bit_eq_mod)
  moreover have "unat (of_nat n :: u64) = n" using i by (simp add: unat_of_nat_u64)
  ultimately show ?thesis
    unfolding ckpt_insert_syscall_def tot
    by (simp add: old_call_found [OF call i(1) len num od] insert_call_replays [OF num sz(1)] on_pending_def res_map_pure)
qed

section \<open>A written checkpoint read as an old one\<close>

lemma flag_pages_ok:
  assumes "unat start + n \<le> ct_mapsize"
  shows "flag_pages n start mp = Inr (\<lambda>k. mp k \<or> (unat start \<le> k \<and> k < unat start + n))"
  using assms
proof (induction n arbitrary: start mp)
  case (Suc n)
  have s1: "unat (start + 1) = unat start + 1"
    using Suc.prems by (simp add: unat_word_ariths ct_mapsize_def)
  define mp1 where "mp1 = mp(unat start := True)"
  have "(\<lambda>k. mp1 k \<or> (unat start + 1 \<le> k \<and> k < unat start + 1 + n)) =
      (\<lambda>k. mp k \<or> (unat start \<le> k \<and> k < unat start + Suc n))" by (auto simp: fun_eq_iff mp1_def)
  moreover have "flag_pages n (start + 1) mp1 = Inr (\<lambda>k. mp1 k \<or> (unat start + 1 \<le> k \<and> k < unat start + 1 + n))"
    using Suc.IH [of "start + 1" mp1] Suc.prems by (simp add: s1)
  ultimately show ?case using Suc.prems by (simp flip: mp1_def)
qed (simp add: fun_eq_iff, linarith)

text \<open>A text range lies at most \<open>ct_mapsize\<close> pages behind the start of the text.\<close>

definition near_text :: "u64 \<Rightarrow> CodeRange \<Rightarrow> bool" where
  "near_text ts r \<longleftrightarrow> unat (cr_addr r - ts) div 4096 + unat (cr_size r) div 4096 \<le> ct_mapsize"

lemma page_index_u32: "unat (x :: u64) div 4096 \<le> ct_mapsize \<Longrightarrow> unat (ucast (drop_bit 12 x) :: u32) = unat x div 4096"
proof -
  assume a: "unat x div 4096 \<le> ct_mapsize"
  have "unat (ucast (drop_bit 12 x) :: u32) = unat (drop_bit 12 x) mod 2 ^ 32"
    by (simp add: unsigned_ucast_eq take_bit_eq_mod)
  also have "unat (drop_bit 12 x) = unat x div 4096" by (simp add: unat_drop_bit_eq drop_bit_eq_div [where 'a = nat])
  finally show ?thesis using a by (simp add: ct_mapsize_def)
qed

lemma flag_range:
  assumes "near_text ts r"
  shows "\<exists>mp'. flag_pages (unat ((ucast (drop_bit 12 (cr_addr r - ts)) :: u32) + ucast (drop_bit 12 (cr_size r))) -
      unat (ucast (drop_bit 12 (cr_addr r - ts)) :: u32)) (ucast (drop_bit 12 (cr_addr r - ts))) mp = Inr mp'"
proof -
  define s e :: u32 where "s = ucast (drop_bit 12 (cr_addr r - ts))" and "e = ucast (drop_bit 12 (cr_size r))"
  have se: "unat s = unat (cr_addr r - ts) div 4096" "unat e = unat (cr_size r) div 4096"
    unfolding s_def e_def using assms by (intro page_index_u32; simp add: near_text_def)+
  then have "unat s + unat e \<le> ct_mapsize" using assms by (simp add: near_text_def)
  then have "unat (s + e) = unat s + unat e" by (simp add: unat_word_ariths ct_mapsize_def)
  then show ?thesis
    using flag_pages_ok [of s "unat e" mp] \<open>unat s + unat e \<le> ct_mapsize\<close>
    unfolding s_def [symmetric] e_def [symmetric] by simp
qed

lemma text_loop_ranges:
  assumes "rest p = concat (map range_bytes rs) @ after" and "rs \<noteq> []"
    and "\<forall>r \<in> set rs. near_text (if i = 0 then cr_addr (hd rs) else ts) r"
  shows "\<exists>p' mp'. text_loop (length rs) i r0 p (ts, te, mp) =
      Inr (p', if i = 0 then cr_addr (hd rs) else ts, cr_addr (last rs) + cr_size (last rs), mp') \<and> content p' = content p"
  using assms
proof (induction rs arbitrary: i r0 p ts te mp)
  case (Cons c rs)
  define ts' where "ts' = (if i = 0 then cr_addr c else ts)"
  obtain p1 where p1: "fread 16 p = (range_bytes c, p1)" "rest p1 = concat (map range_bytes rs) @ after" "content p1 = content p"
    using fread_app [of p "range_bytes c" "concat (map range_bytes rs) @ after" 16] Cons.prems(1) by auto
  have nt: "near_text ts' d" if "d \<in> set (c # rs)" for d
    unfolding ts'_def using Cons.prems(3) that by (metis list.sel(1))
  have a: "un64 (take 8 (range_bytes c)) = cr_addr c" "un64 (drop 8 (range_bytes c)) = cr_size c"
    by (simp_all add: range_bytes_def)
  have o: "overlay (range_bytes c) (le64 x @ le64 y) = range_bytes c" for x y by (simp add: overlay_def range_bytes_def)
  obtain mp1 where fl: "flag_pages (unat ((ucast (drop_bit 12 (cr_addr c - ts')) :: u32) + ucast (drop_bit 12 (cr_size c))) -
      unat (ucast (drop_bit 12 (cr_addr c - ts')) :: u32)) (ucast (drop_bit 12 (cr_addr c - ts'))) mp = Inr mp1"
    using flag_range [OF nt [of c], of mp] by auto
  show ?case
  proof (cases "rs = []")
    case True
    then show ?thesis using p1(1,3) fl by (cases "i = 0"; simp add: o a Let_def ts'_def)
  next
    case False
    then have len: "length rs \<noteq> 0" by simp
    have cc: "\<lparr>cr_addr = cr_addr c, cr_size = cr_size c\<rparr> = c" by simp
    obtain p' mp' where "text_loop (length rs) (i + 1) c p1 (ts', te, mp1) =
        Inr (p', ts', cr_addr (last rs) + cr_size (last rs), mp')" "content p' = content p1"
      using Cons.IH [OF p1(2) False, of "i + 1" ts' c te mp1] nt by auto
    then show ?thesis
      using p1(1,3) fl len by (cases "i = 0"; simp add: o a Let_def ts'_def cc del: CodeRange.equality)
  qed
qed simp

lemma seek_at:
  assumes "content p = xs @ ys" and "length xs < 2 ^ 63"
  shows "rest (seek_u64 (of_nat (length xs)) p) = ys" "content (seek_u64 (of_nat (length xs)) p) = xs @ ys"
    "pos (seek_u64 (of_nat (length xs)) p) = length xs"
proof -
  have "unat (of_nat (length xs) :: u64) = length xs" using assms(2) by (simp add: unat_of_nat_u64)
  then show "rest (seek_u64 (of_nat (length xs)) p) = ys" "content (seek_u64 (of_nat (length xs)) p) = xs @ ys"
    "pos (seek_u64 (of_nat (length xs)) p) = length xs"
    using assms by (simp_all add: seek_u64_def fseek_set_def rest_def)
qed

lemma old_of_saved:
  assumes ok: "ckpt_ok c" and s: "pending s []" and w: "saveCkptInfo rs c s = Inr (img, c', s')"
    and sys: "saveSysInfo (ck_sysinfos c) = Inr (sec, infos')" and len: "length img < 2 ^ 63"
    and tx: "ck_textrange c \<noteq> []" "\<forall>r \<in> set (ck_textrange c). near_text (cr_addr (hd (ck_textrange c))) r"
  shows "\<exists>od. initCkptSysInfo (Some img) = Some (Inr od) \<and> syssec od = buf_of sec \<and>
    ckptstartnum od = hd (slice_words rs c) \<and> ckpt_textstart od = cr_addr (hd (ck_textrange c)) \<and>
    ckpt_textend od = cr_addr (last (ck_textrange c)) + cr_size (last (ck_textrange c))"
proof -
  obtain fl where fl: "saveFLoads_comp (ck_firstloads c) s = Inr (s', fl)"
    and img: "img = ranges_bytes (ck_textrange c) @ concat (map le64 (slice_words rs c)) @
            concat (map le64 (ck_intregs c)) @ concat (map le64 (ck_fpregs c)) @ ranges_bytes (ck_memrange c) @ fl @ sec"
    using w sys by (auto simp: saveCkptInfo_def res_bind_eq_Inr)
  let ?tr = "ck_textrange c" and ?mr = "ck_memrange c"
  define A where "A = ranges_bytes ?tr"
  obtain w0 ws where sw: "slice_words rs c = w0 # ws" "length ws = 4" by (simp add: slice_words_def)
  define B where "B = concat (map le64 (slice_words rs c)) @ concat (map le64 (ck_intregs c)) @ concat (map le64 (ck_fpregs c))"
  define C where "C = concat (map range_bytes ?mr)"
  define M where "M = le64 (of_nat (length ?mr))"
  have imgs: "img = A @ B @ M @ C @ fl @ sec" by (simp add: img A_def B_def C_def M_def ranges_bytes_def)
  have lA: "length A = 8 + 16 * length ?tr" and lC: "length C = 16 * length ?mr" and lM: "length M = 8"
    using length_blocks [of ?mr range_bytes 16] by (simp_all add: A_def C_def M_def)
  have lB: "length B = 552" using ok sw by (simp add: B_def ckpt_ok_def)
  have bnd: "length A + length B + 8 + length C < 2 ^ 63" using len lM by (simp add: imgs)
  have un: "unat (of_nat (length ?tr) :: u64) = length ?tr" using bnd lA by (simp add: unat_of_nat_u64)
  have r0: "rest (fopen_rb img) = le64 (of_nat (length ?tr)) @ concat (map range_bytes ?tr) @ B @ M @ C @ fl @ sec"
    by (simp add: imgs A_def ranges_bytes_def)
  obtain p1 where p1: "fread64 0 (fopen_rb img) = (of_nat (length ?tr), p1)"
    "rest p1 = concat (map range_bytes ?tr) @ B @ M @ C @ fl @ sec" "content p1 = img"
    using fread64_app [OF r0, of 0] by (auto simp: fopen_rb_def)
  obtain p2 mp where p2: "text_loop (length ?tr) 0 \<lparr>cr_addr = 0, cr_size = 0\<rparr> p1 (0x1000000000, 0, \<lambda>_. False) =
      Inr (p2, cr_addr (hd ?tr), cr_addr (last ?tr) + cr_size (last ?tr), mp)" "content p2 = img"
    using text_loop_ranges [OF p1(2) tx(1), of 0 "0x1000000000" "\<lparr>cr_addr = 0, cr_size = 0\<rparr>" 0 "\<lambda>_. False"] tx(2) p1(3) by auto
  have o1: "8 + of_nat (length ?tr) * 16 = (of_nat (length A) :: u64)" by (simp add: lA algebra_simps)
  have s1: "rest (seek_u64 (of_nat (length A)) p2) = B @ M @ C @ fl @ sec" "content (seek_u64 (of_nat (length A)) p2) = img"
    using seek_at [of p2 A "B @ M @ C @ fl @ sec"] p2(2) bnd by (simp_all add: imgs)
  obtain p3 where p3: "fread64 0 (seek_u64 (of_nat (length A)) p2) = (w0, p3)" "content p3 = img"
    using fread64_app [of "seek_u64 (of_nat (length A)) p2" w0 _ 0] s1 by (auto simp: B_def sw)
  have o2: "of_nat (length A) + 5 * 8 + 64 * 8 = (of_nat (length (A @ B)) :: u64)" by (simp add: lA lB algebra_simps)
  have s2: "rest (seek_u64 (of_nat (length (A @ B))) p3) = le64 (of_nat (length ?mr)) @ C @ fl @ sec"
    "content (seek_u64 (of_nat (length (A @ B))) p3) = img" "pos (seek_u64 (of_nat (length (A @ B))) p3) = length (A @ B)"
    using seek_at [of p3 "A @ B" "M @ C @ fl @ sec"] p3(2) bnd by (simp_all add: imgs M_def)
  obtain p4 where p4: "fread64 0 (seek_u64 (of_nat (length (A @ B))) p3) = (of_nat (length ?mr), p4)"
    "content p4 = img" "pos p4 = length (A @ B) + 8"
    using fread64_app [OF s2(1), of 0] s2(2,3) by auto
  have o3: "of_nat (pos p4) + of_nat (length ?mr) * 16 = (of_nat (length (A @ B @ M @ C)) :: u64)"
    by (simp add: p4(3) lC lM algebra_simps)
  have s3: "rest (seek_u64 (of_nat (length (A @ B @ M @ C))) p4) = fl @ sec" "content (seek_u64 (of_nat (length (A @ B @ M @ C))) p4) = img"
    using seek_at [of p4 "A @ B @ M @ C" "fl @ sec"] p4(2) bnd lM by (simp_all add: imgs)
  have rf: "read_floads (seek_u64 (of_nat (length (A @ B @ M @ C))) p4) = Some (Inr (of_nat (length img - length sec)))"
    using read_floads_saved [OF _ s fl s3(1)] ok len s3(2) by (simp add: ckpt_ok_def)
  have "drop (length img - length sec) img = sec" by (simp add: imgs)
  moreover have "unat (of_nat (length img - length sec) :: u64) = length img - length sec"
    using len by (simp add: unat_of_nat_u64)
  ultimately show ?thesis
    unfolding initCkptSysInfo_def option.case p1(1) prod.case un p2(1) sum.case o1 p3(1) o2 p4(1) o3 rf by (simp add: sw)
qed

end
