(* ===== verification/TraceCollect.thy ===== *)
theory TraceCollect
  imports Settings
begin

unbundle bit_operations_syntax

text \<open>
  The trace collector of \<open>sim/trace_collect.cc\<close>: which instructions are written to which trace
  file, what is recorded of an instruction, and the bytes of a record.
\<close>

section \<open>What is read of an instruction\<close>

text \<open>
  The flags, operand registers and operation class of gem5's \<open>StaticInst\<close> that the collector asks
  for, and the program counters and registers of the thread after the instruction.
\<close>

datatype OpClass = IntMultOp | IntDivOp | OtherOp
datatype RegClass = IntRegClass | FloatRegClass | OtherRegClass

record StaticInst =
  isLoad :: bool
  isAtomic :: bool
  isStore :: bool
  isFloating :: bool
  isCondCtrl :: bool
  isUncondCtrl :: bool
  isDirectCtrl :: bool
  isIndirectCtrl :: bool
  isInteger :: bool
  opClass :: OpClass
  srcRegs :: "u16 list"
  destRegs :: "(RegClass \<times> u16) list"

record SimpleThread =
  th_pc :: u64
  th_npc :: u64
  th_int :: "u16 \<Rightarrow> u64"
  th_float :: "u16 \<Rightarrow> u64"

section \<open>State\<close>

record MemAddrinfo =
  mi_pc :: u64
  mi_addr :: u64

record TraceInfo =
  ti_pc :: u64
  ti_type :: u8
  ti_memaddr :: u64
  ti_memsize :: u8
  ti_isbranch :: u8
  ti_istaken :: u8
  ti_target :: u64
  ti_numSrc :: u8
  ti_sregs :: bytes
  ti_numDest :: u8
  ti_dregs :: bytes
  ti_dvalues :: "u64 list"

text \<open>
  \<open>logfp\<close>: null, an open file with what has been written to it, or a pointer to a file that
  was closed, since \<open>fclose\<close> does not reset it. \<open>tr_files\<close> are the closed files.
\<close>

datatype logfile = NoLog | OpenLog string bytes | ClosedLog

record tracer =
  tr_settings :: trace_settings
  logfp :: logfile
  traceOpen :: bool
  exeInstNum :: u64
  memInfo :: MemAddrinfo
  tr_ctrlidx :: nat
  tr_files :: "(string \<times> bytes) list"

definition tracer_init :: "trace_settings \<Rightarrow> bool \<Rightarrow> tracer" where
  "tracer_init s opened = \<lparr>tr_settings = s, logfp = NoLog, traceOpen = opened, exeInstNum = 0,
     memInfo = \<lparr>mi_pc = 0, mi_addr = 0\<rparr>, tr_ctrlidx = 0, tr_files = []\<rparr>"

section \<open>Writing a record\<close>

definition trace_bytes :: "TraceInfo \<Rightarrow> bytes" where
  "trace_bytes info =
     le64 (ti_pc info) @ [ti_type info] @
     (if ti_type info = 1 \<or> ti_type info = 2 then le64 (ti_memaddr info) @ [ti_memsize info] else []) @
     (if ti_isbranch info \<noteq> 0
      then [ti_istaken info] @ (if ti_istaken info \<noteq> 0 then le64 (ti_target info) else []) else []) @
     [ti_numSrc info] @
     (if ti_numSrc info > 0 then take (unat (ti_numSrc info)) (ti_sregs info) else []) @
     [ti_numDest info] @
     (if ti_numDest info > 0
      then take (unat (ti_numDest info)) (ti_dregs info) @ concat (map le64 (take (unat (ti_numDest info)) (ti_dvalues info)))
      else [])"

definition save_traceinfo :: "TraceInfo \<Rightarrow> tracer \<Rightarrow> tracer res" where
  "save_traceinfo info t =
     (case logfp t of
        NoLog \<Rightarrow> Inr t
      | ClosedLog \<Rightarrow> Inl ClosedFile
      | OpenLog name bs \<Rightarrow> Inr (t\<lparr>logfp := OpenLog name (bs @ trace_bytes info)\<rparr>))"

definition covertInstType :: "StaticInst \<Rightarrow> u8" where
  "covertInstType i =
     (if isLoad i then 1
      else if isAtomic i then 1
      else if isStore i then 2
      else if isFloating i then 6
      else if isCondCtrl i then 3
      else if isUncondCtrl i then (if isIndirectCtrl i then 5 else if isDirectCtrl i then 4 else 8)
      else if isInteger i then (if opClass i = IntMultOp \<or> opClass i = IntDivOp then 7 else 0)
      else 8)"

definition record_meminfo :: "u64 \<Rightarrow> u64 \<Rightarrow> tracer \<Rightarrow> tracer" where
  "record_meminfo pc addr t = t\<lparr>memInfo := \<lparr>mi_pc = pc, mi_addr = addr\<rparr>\<rparr>"

section \<open>Selecting instructions\<close>

text \<open>\<open>sprintf\<close> of a 64-bit value with \<open>%lld\<close>.\<close>

definition sdec :: "u64 \<Rightarrow> string" where
  "sdec w = (if sint w < 0 then CHR ''-'' # dec_string (nat (- sint w)) else dec_string (nat (sint w)))"

definition trace_name :: "trace_settings \<Rightarrow> TraceCtrl \<Rightarrow> string" where
  "trace_name s c = ts_logname s @ ''_start_'' @ sdec (tr_start c + ts_ckptstart s) @
     ''_len_'' @ sdec (tr_end c - tr_start c) @ ''.traces''"

text \<open>
  The answer of \<open>need_record\<close>; \<open>TracesDone\<close> is the call \<open>exit(0)\<close> after the last interval.
  \<open>can_open\<close> says which files \<open>fopen\<close> can create.
\<close>

datatype need = Record | Skip | TracesDone

definition open_log :: "(string \<Rightarrow> bool) \<Rightarrow> TraceCtrl \<Rightarrow> tracer \<Rightarrow> tracer res" where
  "open_log can_open c t =
     (let name = trace_name (tr_settings t) c in
      if 512 \<le> length name then Inl OutOfBounds
      else if can_open name then Inr (t\<lparr>logfp := OpenLog name []\<rparr>)
      else Inr (t\<lparr>logfp := NoLog, traceOpen := False\<rparr>))"

definition close_log :: "tracer \<Rightarrow> tracer res" where
  "close_log t =
     (case logfp t of
        NoLog \<Rightarrow> Inr t
      | ClosedLog \<Rightarrow> Inl ClosedFile
      | OpenLog name bs \<Rightarrow> Inr (t\<lparr>logfp := ClosedLog, tr_files := tr_files t @ [(name, bs)]\<rparr>))"

definition need_record :: "(string \<Rightarrow> bool) \<Rightarrow> u64 \<Rightarrow> tracer \<Rightarrow> (need \<times> tracer) res" where
  "need_record can_open pc t =
     (let s = tr_settings t; cs = ts_ctrls s; n = exeInstNum t in
      if ts_minpc s \<le> pc \<and> pc \<le> ts_maxpc s
      then if length cs \<le> tr_ctrlidx t then Inl OutOfBounds
           else let c = cs ! tr_ctrlidx t in
                res_bind (if n = tr_start c then open_log can_open c t else Inr t) (\<lambda>t1.
                res_bind (if n = tr_end c - 1
                          then res_bind (close_log t1) (\<lambda>t2. Inr (t2\<lparr>tr_ctrlidx := tr_ctrlidx t2 + 1\<rparr>))
                          else Inr t1) (\<lambda>t2.
                  if n = tr_end c - 1 \<and> tr_ctrlidx t2 = length cs then Inr (TracesDone, t2)
                  else let c' = cs ! tr_ctrlidx t2; t3 = t2\<lparr>exeInstNum := n + 1\<rparr>
                       in Inr (if tr_start c' \<le> n \<and> n < tr_end c' then (Record, t3) else (Skip, t3))))
      else Inr (Skip, t))"

definition fill_info :: "SimpleThread \<Rightarrow> StaticInst \<Rightarrow> MemAddrinfo \<Rightarrow> TraceInfo" where
  "fill_info th i mem =
     (let type = covertInstType i;
          taken = (if isCondCtrl i then (if th_npc th = th_pc th + 2 \<or> th_npc th = th_pc th + 4 then 0 else 1)
                   else if isUncondCtrl i then 1 else 0)
      in \<lparr>ti_pc = th_pc th, ti_type = type,
          ti_memaddr = (if mi_pc mem = th_pc th then mi_addr mem else 0), ti_memsize = 1,
          ti_isbranch = (if isCondCtrl i \<or> isUncondCtrl i then 1 else 0), ti_istaken = taken, ti_target = th_npc th,
          ti_numSrc = of_nat (min 4 (length (srcRegs i))), ti_sregs = map ucast (take 4 (srcRegs i)),
          ti_numDest = of_nat (min 4 (length (destRegs i))), ti_dregs = map (ucast \<circ> snd) (take 4 (destRegs i)),
          ti_dvalues = map (\<lambda>(cls, idx). case cls of IntRegClass \<Rightarrow> th_int th idx | FloatRegClass \<Rightarrow> th_float th idx
                             | OtherRegClass \<Rightarrow> 0) (take 4 (destRegs i))\<rparr>)"

text \<open>The result says whether the simulator goes on.\<close>

definition record_traces :: "(string \<Rightarrow> bool) \<Rightarrow> SimpleThread \<Rightarrow> StaticInst \<Rightarrow> tracer \<Rightarrow> (bool \<times> tracer) res" where
  "record_traces can_open th i t =
     res_bind (need_record can_open (th_pc th) t) (\<lambda>(need, t').
       case need of
         Skip \<Rightarrow> Inr (True, t')
       | TracesDone \<Rightarrow> Inr (False, t')
       | Record \<Rightarrow> res_bind (save_traceinfo (fill_info th i (memInfo t')) t') (\<lambda>t''. Inr (True, t'')))"

section \<open>What the trace files hold\<close>

text \<open>
  One executed instruction: the address it accessed last, if any (\<open>record_meminfo\<close>), and the state
  behind it. The run stops when the collector exits.
\<close>

type_synonym tstep = "u64 option \<times> SimpleThread \<times> StaticInst"

definition mem_of :: "tstep \<Rightarrow> MemAddrinfo \<Rightarrow> MemAddrinfo" where
  "mem_of x m = (case x of (a, th, i) \<Rightarrow> case a of None \<Rightarrow> m | Some ad \<Rightarrow> \<lparr>mi_pc = th_pc th, mi_addr = ad\<rparr>)"

fun trace_run :: "(string \<Rightarrow> bool) \<Rightarrow> tstep list \<Rightarrow> tracer \<Rightarrow> (bool \<times> tracer) res" where
  "trace_run can_open [] t = Inr (True, t)"
| "trace_run can_open ((a, th, i) # xs) t =
     res_bind (record_traces can_open th i (case a of None \<Rightarrow> t | Some ad \<Rightarrow> record_meminfo (th_pc th) ad t)) (\<lambda>(go, t').
       if go then trace_run can_open xs t' else Inr (False, t'))"

fun info_seq :: "MemAddrinfo \<Rightarrow> tstep list \<Rightarrow> TraceInfo list" where
  "info_seq m [] = []"
| "info_seq m ((a, th, i) # xs) =
     (let m' = mem_of (a, th, i) m in fill_info th i m' # info_seq m' xs)"

definition interval_start :: "TraceCtrl \<Rightarrow> nat" where "interval_start c = unat (tr_start c)"
definition interval_end :: "TraceCtrl \<Rightarrow> nat" where "interval_end c = unat (tr_end c)"

definition separate :: "TraceCtrl list \<Rightarrow> bool" where
  "separate cs \<longleftrightarrow> (\<forall>c \<in> set cs. interval_start c < interval_end c) \<and>
     sorted_wrt (\<lambda>a b. interval_end a \<le> interval_start b) cs"

definition file_of :: "trace_settings \<Rightarrow> TraceInfo list \<Rightarrow> TraceCtrl \<Rightarrow> string \<times> bytes" where
  "file_of s infos c =
     (trace_name s c, concat (map trace_bytes (take (interval_end c - 1 - interval_start c) (drop (interval_start c) infos))))"

text \<open>The state after the instructions \<open>hist\<close>, in the middle of the intervals.\<close>

definition tracing :: "trace_settings \<Rightarrow> TraceInfo list \<Rightarrow> nat \<Rightarrow> tracer \<Rightarrow> bool" where
  "tracing s hist i t \<longleftrightarrow> tr_settings t = s \<and> tr_ctrlidx t = i \<and> i < length (ts_ctrls s) \<and>
     exeInstNum t = of_nat (length hist) \<and> length hist < 2 ^ 64 \<and>
     (\<forall>c \<in> set (take i (ts_ctrls s)). interval_end c \<le> length hist) \<and>
     length hist < interval_end (ts_ctrls s ! i) \<and>
     tr_files t = map (file_of s hist) (take i (ts_ctrls s)) \<and>
     logfp t = (let c = ts_ctrls s ! i in
       if interval_start c < length hist
       then OpenLog (trace_name s c) (concat (map trace_bytes (drop (interval_start c) hist)))
       else if i = 0 then NoLog else ClosedLog)"

lemma file_of_extend: "interval_end c \<le> Suc (length hist) \<Longrightarrow> file_of s (hist @ [x]) c = file_of s hist c"
  by (simp add: file_of_def)

lemma start_iff: "n < 2 ^ 64 \<Longrightarrow> of_nat n = tr_start c \<longleftrightarrow> n = interval_start c"
  by (auto simp: interval_start_def word_unat_eq_iff unat_of_nat_u64)

lemma end_iff:
  assumes "n < interval_end c" and "n < 2 ^ 64"
  shows "of_nat n = tr_end c - 1 \<longleftrightarrow> Suc n = interval_end c"
proof -
  have "tr_end c \<noteq> 0" using assms(1) by (auto simp: interval_end_def)
  then have "unat (tr_end c - 1) = interval_end c - 1" by (simp add: interval_end_def unat_minus_one)
  then show ?thesis using assms by (auto simp: word_unat_eq_iff unat_of_nat_u64)
qed

lemma in_interval_iff:
  "n < 2 ^ 64 \<Longrightarrow> tr_start c \<le> of_nat n \<and> of_nat n < tr_end c \<longleftrightarrow> interval_start c \<le> n \<and> n < interval_end c"
  by (simp add: interval_start_def interval_end_def word_le_nat_alt word_less_nat_alt unat_of_nat_u64)

text \<open>The collector once the log of the current interval is open, if the interval begins here.\<close>

definition opened :: "trace_settings \<Rightarrow> TraceCtrl \<Rightarrow> nat \<Rightarrow> tracer \<Rightarrow> tracer" where
  "opened s c n t = (if n = interval_start c then t\<lparr>logfp := OpenLog (trace_name s c) []\<rparr> else t)"

lemma tracing_current:
  assumes tr: "tracing s hist i t"
    and pc: "ts_minpc s \<le> pc" "pc \<le> ts_maxpc s"
    and names: "\<forall>c \<in> set (ts_ctrls s). length (trace_name s c) < 512"
  defines "c \<equiv> ts_ctrls s ! i" and "n \<equiv> length hist"
  defines "t1 \<equiv> opened s c n t"
  shows "need_record (\<lambda>_. True) pc t =
    (if Suc n = interval_end c
     then res_bind (close_log t1) (\<lambda>t2.
       if Suc i = length (ts_ctrls s) then Inr (TracesDone, t2\<lparr>tr_ctrlidx := Suc i\<rparr>)
       else let c' = ts_ctrls s ! Suc i
            in Inr (if interval_start c' \<le> n \<and> n < interval_end c' then Record else Skip,
                    t2\<lparr>tr_ctrlidx := Suc i, exeInstNum := of_nat n + 1\<rparr>))
     else Inr (if interval_start c \<le> n then Record else Skip, t1\<lparr>exeInstNum := of_nat n + 1\<rparr>))"
proof -
  have t: "tr_ctrlidx t = i" "i < length (ts_ctrls s)" "exeInstNum t = of_nat n" "n < 2 ^ 64" "n < interval_end c"
    "tr_settings t = s"
    using tr by (simp_all add: tracing_def n_def c_def)
  have nm: "length (trace_name s c) < 512" using names t(2) by (simp add: c_def)
  have op: "(if of_nat n = tr_start c then open_log (\<lambda>_. True) c t else Inr t) = Inr t1"
    using nm t(4,6) by (simp add: start_iff t1_def opened_def open_log_def Let_def)
  have t1: "tr_ctrlidx t1 = i" by (simp add: t1_def opened_def t)
  have cl: "close_log t1 = Inr t2 \<Longrightarrow> tr_ctrlidx t2 = i" for t2
    using t1 by (auto simp: close_log_def split: logfile.splits)
  show ?thesis
  proof (cases "Suc n = interval_end c")
    case True
    then show ?thesis
      unfolding need_record_def Let_def t(1,3,6) c_def [symmetric] op end_iff [OF t(5,4)]
      using pc t(2) cl by (cases "close_log t1") (auto simp: in_interval_iff [OF t(4)])
  next
    case False
    then show ?thesis
      unfolding need_record_def Let_def t(1,3,6) c_def [symmetric] op end_iff [OF t(5,4)]
      using pc t(2,5) by (simp add: t1 in_interval_iff [OF t(4)] c_def [symmetric])
  qed
qed

lemma tracing_opened:
  assumes "tracing s hist i t" and "interval_start (ts_ctrls s ! i) \<le> length hist"
  shows "logfp (opened s (ts_ctrls s ! i) (length hist) t) =
    OpenLog (trace_name s (ts_ctrls s ! i)) (concat (map trace_bytes (drop (interval_start (ts_ctrls s ! i)) hist)))"
  using assms by (auto simp: opened_def tracing_def Let_def)

lemma tracing_closed:
  assumes tr: "tracing s hist i t" and "Suc (length hist) = interval_end (ts_ctrls s ! i)"
    and "interval_start (ts_ctrls s ! i) \<le> length hist"
  defines "t1 \<equiv> opened s (ts_ctrls s ! i) (length hist) t"
  shows "close_log t1 = Inr (t1\<lparr>logfp := ClosedLog, tr_files := map (file_of s hist) (take (Suc i) (ts_ctrls s))\<rparr>)"
proof -
  let ?c = "ts_ctrls s ! i"
  have "file_of s hist ?c = (trace_name s ?c, concat (map trace_bytes (drop (interval_start ?c) hist)))"
    using assms(2) by (simp add: file_of_def)
  moreover have "tr_files t1 = map (file_of s hist) (take i (ts_ctrls s))" "i < length (ts_ctrls s)"
    using tr by (simp_all add: t1_def opened_def tracing_def)
  ultimately show ?thesis
    using tracing_opened [OF tr assms(3)] by (simp add: close_log_def t1_def [symmetric] take_Suc_conv_app_nth)
qed

lemma tracing_earlier:
  assumes "tracing s hist i t"
  shows "map (file_of s (hist @ [x])) (take i (ts_ctrls s)) = map (file_of s hist) (take i (ts_ctrls s))"
  using assms by (auto simp: tracing_def intro!: file_of_extend le_SucI)

lemma tracing_next:
  assumes tr: "tracing s hist i t" and sep: "separate (ts_ctrls s)" and si: "Suc i < length (ts_ctrls s)"
    and e: "Suc (length hist) = interval_end (ts_ctrls s ! i)"
  shows "tracing s (hist @ [x]) (Suc i) ((opened s (ts_ctrls s ! i) (length hist) t)\<lparr>logfp := ClosedLog,
    tr_files := map (file_of s hist) (take (Suc i) (ts_ctrls s)), tr_ctrlidx := Suc i, exeInstNum := of_nat (length hist) + 1\<rparr>)"
proof -
  let ?c = "ts_ctrls s ! i" and ?c' = "ts_ctrls s ! Suc i"
  have "interval_end ?c \<le> interval_start ?c'" "interval_start ?c' < interval_end ?c'" "interval_end ?c < 2 ^ 64"
    using sep si by (simp_all add: separate_def sorted_wrt_iff_nth_less interval_end_def)
  moreover have "(of_nat (interval_end ?c) :: u64) = of_nat (length hist) + 1" by (simp flip: e)
  ultimately show ?thesis
    using e si tr tracing_earlier [OF tr, of x]
    by (auto simp: tracing_def opened_def take_Suc_conv_app_nth file_of_extend Let_def le_Suc_eq)
qed

lemma tracing_on:
  assumes tr: "tracing s hist i t" and sep: "separate (ts_ctrls s)"
    and e: "Suc (length hist) < interval_end (ts_ctrls s ! i)"
  defines "t1 \<equiv> opened s (ts_ctrls s ! i) (length hist) t"
  shows "\<not> interval_start (ts_ctrls s ! i) \<le> length hist \<Longrightarrow> tracing s (hist @ [x]) i (t1\<lparr>exeInstNum := of_nat (length hist) + 1\<rparr>)"
    and "interval_start (ts_ctrls s ! i) \<le> length hist \<Longrightarrow> tracing s (hist @ [x]) i (t1\<lparr>exeInstNum := of_nat (length hist) + 1,
      logfp := OpenLog (trace_name s (ts_ctrls s ! i))
        (concat (map trace_bytes (drop (interval_start (ts_ctrls s ! i)) hist)) @ trace_bytes x)\<rparr>)"
proof -
  have "i < length (ts_ctrls s)" using tr by (simp add: tracing_def)
  then have "interval_end (ts_ctrls s ! i) < 2 ^ 64" using sep by (simp add: separate_def interval_end_def)
  then show "\<not> interval_start (ts_ctrls s ! i) \<le> length hist \<Longrightarrow> tracing s (hist @ [x]) i (t1\<lparr>exeInstNum := of_nat (length hist) + 1\<rparr>)"
    and "interval_start (ts_ctrls s ! i) \<le> length hist \<Longrightarrow> tracing s (hist @ [x]) i (t1\<lparr>exeInstNum := of_nat (length hist) + 1,
      logfp := OpenLog (trace_name s (ts_ctrls s ! i))
        (concat (map trace_bytes (drop (interval_start (ts_ctrls s ! i)) hist)) @ trace_bytes x)\<rparr>)"
    using e tr tracing_earlier [OF tr, of x] by (auto simp: tracing_def t1_def opened_def Let_def le_Suc_eq)
qed

lemma tracing_step:
  assumes tr: "tracing s hist i t" and sep: "separate (ts_ctrls s)"
    and pc: "ts_minpc s \<le> th_pc th" "th_pc th \<le> ts_maxpc s"
    and names: "\<forall>c \<in> set (ts_ctrls s). length (trace_name s c) < 512"
  shows "(Suc (length hist) = interval_end (ts_ctrls s ! i) \<and> Suc i = length (ts_ctrls s) \<and>
      (\<exists>t'. record_traces (\<lambda>_. True) th inst t = Inr (False, t') \<and> tr_files t' = map (file_of s hist) (ts_ctrls s))) \<or>
    (\<exists>j t'. record_traces (\<lambda>_. True) th inst t = Inr (True, t') \<and> memInfo t' = memInfo t \<and>
       tracing s (hist @ [fill_info th inst (memInfo t)]) j t')"
proof -
  let ?cs = "ts_ctrls s" and ?c = "ts_ctrls s ! i" and ?n = "length hist"
  let ?x = "fill_info th inst (memInfo t)" and ?t1 = "opened s (ts_ctrls s ! i) (length hist) t"
  have t: "i < length ?cs" "?n < interval_end ?c" using tr by (simp_all add: tracing_def)
  have ce: "interval_start ?c < interval_end ?c" using sep t(1) by (simp add: separate_def)
  have mem: "memInfo ?t1 = memInfo t" by (simp add: opened_def)
  note need = tracing_current [OF tr pc names]
  consider (last) "Suc ?n = interval_end ?c" "Suc i = length ?cs" | (switch) "Suc ?n = interval_end ?c" "Suc i < length ?cs"
    | (on) "Suc ?n < interval_end ?c" using t by linarith
  then show ?thesis
  proof cases
    case last
    then show ?thesis using need tracing_closed [OF tr last(1)] ce by (auto simp: record_traces_def)
  next
    case switch
    have "interval_end ?c \<le> interval_start (?cs ! Suc i)"
      using sep switch(2) by (simp add: separate_def sorted_wrt_iff_nth_less)
    then show ?thesis
      using need tracing_closed [OF tr switch(1)] tracing_next [OF tr sep switch(2,1), of ?x] switch ce mem
      by (auto simp: record_traces_def)
  next
    case on
    then show ?thesis
      using need tracing_opened [OF tr] tracing_on [OF tr sep on, of ?x] mem
      by (cases "interval_start ?c \<le> ?n") (auto simp: record_traces_def save_traceinfo_def)
  qed
qed

lemma tracing_memInfo [simp]: "tracing s hist i (t\<lparr>memInfo := m\<rparr>) \<longleftrightarrow> tracing s hist i t"
  by (simp add: tracing_def)

lemma file_of_prefix: "interval_end c \<le> Suc (length hist) \<Longrightarrow> file_of s (hist @ ys) c = file_of s hist c"
  by (simp add: file_of_def)

lemma interval_end_last:
  assumes sep: "separate cs" and i: "i < length cs"
  shows "interval_end (cs ! i) \<le> interval_end (last cs)"
proof (cases "Suc i = length cs")
  case True
  then have "i = length cs - 1" and "cs \<noteq> []" using i by auto
  then show ?thesis by (simp add: last_conv_nth)
next
  case False
  have "cs \<noteq> []" using i by auto
  then have "interval_end (cs ! i) \<le> interval_start (last cs)" "interval_start (last cs) < interval_end (last cs)"
    using False i sep by (auto simp: separate_def sorted_wrt_iff_nth_less last_conv_nth)
  then show ?thesis by simp
qed

lemma tracing_all_ended:
  assumes "tracing s hist i t" and "Suc (length hist) = interval_end (ts_ctrls s ! i)" and "Suc i = length (ts_ctrls s)"
    and "c \<in> set (ts_ctrls s)"
  shows "interval_end c \<le> Suc (length hist)"
proof -
  have "ts_ctrls s = take i (ts_ctrls s) @ [ts_ctrls s ! i]"
    using assms(3) by (metis lessI order_refl take_Suc_conv_app_nth take_all)
  with assms(4) have "c \<in> set (take i (ts_ctrls s)) \<or> c = ts_ctrls s ! i"
    by (metis Un_iff empty_iff insert_iff list.simps(15) set_append empty_set)
  then show ?thesis using assms(1,2) by (auto simp: tracing_def)
qed

lemma trace_run_from:
  assumes "tracing s hist i t" and sep: "separate (ts_ctrls s)"
    and "\<forall>(a, th, inst) \<in> set xs. ts_minpc s \<le> th_pc th \<and> th_pc th \<le> ts_maxpc s"
    and names: "\<forall>c \<in> set (ts_ctrls s). length (trace_name s c) < 512"
    and "interval_end (last (ts_ctrls s)) \<le> length hist + length xs"
  shows "\<exists>t'. trace_run (\<lambda>_. True) xs t = Inr (False, t') \<and>
    tr_files t' = map (file_of s (hist @ info_seq (memInfo t) xs)) (ts_ctrls s)"
  using assms(1,3,5)
proof (induction xs arbitrary: hist i t)
  case Nil
  have "i < length (ts_ctrls s)" "length hist < interval_end (ts_ctrls s ! i)"
    using Nil.prems(1) by (simp_all add: tracing_def)
  with interval_end_last [OF sep, of i] Nil.prems(3) show ?case by simp
next
  case (Cons x xs)
  obtain a th inst where x: "x = (a, th, inst)" by (cases x)
  define m where "m = mem_of x (memInfo t)"
  define t0 where "t0 = t\<lparr>memInfo := m\<rparr>"
  have t0: "(case a of None \<Rightarrow> t | Some ad \<Rightarrow> record_meminfo (th_pc th) ad t) = t0"
    by (auto simp: t0_def m_def x mem_of_def record_meminfo_def split: option.splits)
  let ?y = "fill_info th inst m"
  have seq: "hist @ info_seq (memInfo t) (x # xs) = (hist @ [?y]) @ info_seq m xs"
    by (simp add: x m_def Let_def)
  have tr0: "tracing s hist i t0" using Cons.prems(1) by (simp add: t0_def)
  have pc: "ts_minpc s \<le> th_pc th" "th_pc th \<le> ts_maxpc s" using Cons.prems(2) by (simp_all add: x)
  consider t' where "Suc (length hist) = interval_end (ts_ctrls s ! i)" "Suc i = length (ts_ctrls s)"
      "record_traces (\<lambda>_. True) th inst t0 = Inr (False, t')" "tr_files t' = map (file_of s hist) (ts_ctrls s)"
    | j t' where "record_traces (\<lambda>_. True) th inst t0 = Inr (True, t')" "memInfo t' = m" "tracing s (hist @ [?y]) j t'"
    using tracing_step [OF tr0 sep pc names, of inst] by (auto simp: t0_def)
  then show ?case
  proof cases
    case 1
    then show ?thesis using tracing_all_ended [OF tr0 1(1,2)] by (auto simp: x t0 file_of_prefix)
  next
    case 2
    then show ?thesis
      using Cons.IH [OF 2(3)] Cons.prems(2,3) unfolding seq by (simp add: x t0)
  qed
qed

lemma trace_run_files:
  assumes "ts_ctrls s \<noteq> []" and "separate (ts_ctrls s)"
    and "\<forall>(a, th, inst) \<in> set xs. ts_minpc s \<le> th_pc th \<and> th_pc th \<le> ts_maxpc s"
    and "\<forall>c \<in> set (ts_ctrls s). length (trace_name s c) < 512"
    and "interval_end (last (ts_ctrls s)) \<le> length xs"
  shows "\<exists>t'. trace_run (\<lambda>_. True) xs (tracer_init s True) = Inr (False, t') \<and>
    tr_files t' = map (file_of s (info_seq \<lparr>mi_pc = 0, mi_addr = 0\<rparr> xs)) (ts_ctrls s)"
proof -
  have "0 < interval_end (ts_ctrls s ! 0)" using assms(1,2) by (cases "ts_ctrls s") (auto simp: separate_def)
  then have "tracing s [] 0 (tracer_init s True)"
    using assms(1) by (simp add: tracing_def tracer_init_def)
  from trace_run_from [OF this assms(2-4)] assms(5) show ?thesis by (simp add: tracer_init_def)
qed

section \<open>The format can be read back\<close>

text \<open>
  A reader of the documented format: a memory class is followed by address and size, a branch class
  by the taken flag and, if set, the target; then the registers and the values, eight bytes each.
\<close>

definition read_regs_u8 :: "rfile \<Rightarrow> bytes \<times> rfile" where
  "read_regs_u8 p = (case fread 1 p of (n, p1) \<Rightarrow> fread (unat (hd n)) p1)"

fun read_values :: "nat \<Rightarrow> rfile \<Rightarrow> u64 list \<times> rfile" where
  "read_values 0 p = ([], p)"
| "read_values (Suc n) p = (case fread64 0 p of (v, p1) \<Rightarrow> case read_values n p1 of (vs, p2) \<Rightarrow> (v # vs, p2))"

definition parse_trace :: "rfile \<Rightarrow> TraceInfo \<times> rfile" where
  "parse_trace p =
     (case fread64 0 p of (pc, p1) \<Rightarrow> case fread 1 p1 of (ty, p2) \<Rightarrow>
      case (if hd ty = 1 \<or> hd ty = 2
            then case fread64 0 p2 of (a, q) \<Rightarrow> case fread 1 q of (b, q') \<Rightarrow> (a, hd b, q') else (0, 0, p2)) of (addr, sz, p3) \<Rightarrow>
      case (if hd ty \<in> {3, 4, 5}
            then case fread 1 p3 of (tk, q) \<Rightarrow>
                 if hd tk \<noteq> 0 then case fread64 0 q of (tg, q') \<Rightarrow> (1, hd tk, tg, q') else (1, 0, 0, q)
            else (0, 0, 0, p3)) of (br, taken, target, p4) \<Rightarrow>
      case read_regs_u8 p4 of (sregs, p5) \<Rightarrow> case read_regs_u8 p5 of (dregs, p6) \<Rightarrow>
      case read_values (length dregs) p6 of (vals, p7) \<Rightarrow>
        (\<lparr>ti_pc = pc, ti_type = hd ty, ti_memaddr = addr, ti_memsize = sz, ti_isbranch = br, ti_istaken = taken,
          ti_target = target, ti_numSrc = of_nat (length sregs), ti_sregs = sregs, ti_numDest = of_nat (length dregs),
          ti_dregs = dregs, ti_dvalues = vals\<rparr>, p7))"

text \<open>What the format says of an instruction: fields that are not written read as 0.\<close>

definition written :: "TraceInfo \<Rightarrow> TraceInfo" where
  "written info =
     (let mem = (ti_type info = 1 \<or> ti_type info = 2)
      in info\<lparr>ti_memaddr := (if mem then ti_memaddr info else 0), ti_memsize := (if mem then ti_memsize info else 0),
              ti_target := (if ti_istaken info \<noteq> 0 then ti_target info else 0)\<rparr>)"

definition readable :: "TraceInfo \<Rightarrow> bool" where
  "readable info \<longleftrightarrow> ti_isbranch info = (if ti_type info \<in> {3, 4, 5} then 1 else 0) \<and>
     (ti_isbranch info = 0 \<longrightarrow> ti_istaken info = 0) \<and>
     length (ti_sregs info) = unat (ti_numSrc info) \<and> length (ti_dregs info) = unat (ti_numDest info) \<and>
     length (ti_dvalues info) = unat (ti_numDest info)"

lemma fread1_app: "rest f = [b] @ ys \<Longrightarrow> \<exists>f'. fread 1 f = ([b], f') \<and> rest f' = ys"
  using fread_app [of f "[b]" ys 1] by auto

lemma read_regs_u8_app:
  assumes "rest p = [n] @ rs @ after" and "length rs = unat n"
  shows "\<exists>p'. read_regs_u8 p = (rs, p') \<and> rest p' = after"
proof -
  obtain p1 where p1: "fread 1 p = ([n], p1)" "rest p1 = rs @ after" using fread1_app [OF assms(1)] by auto
  then show ?thesis using fread_app [OF p1(2) assms(2)] by (auto simp: read_regs_u8_def)
qed

lemma read_values_app:
  "rest p = concat (map le64 vs) @ after \<Longrightarrow> \<exists>p'. read_values (length vs) p = (vs, p') \<and> rest p' = after"
proof (induction vs arbitrary: p)
  case (Cons v vs)
  obtain p1 where "fread64 0 p = (v, p1)" "rest p1 = concat (map le64 vs) @ after"
    using fread64_app [of p v "concat (map le64 vs) @ after" 0] Cons.prems by auto
  then show ?case using Cons.IH [of p1] by auto
qed simp

lemma trace_bytes_readable:
  assumes "readable info"
  shows "trace_bytes info =
     le64 (ti_pc info) @ [ti_type info] @
     (if ti_type info = 1 \<or> ti_type info = 2 then le64 (ti_memaddr info) @ [ti_memsize info] else []) @
     (if ti_type info \<in> {3, 4, 5}
      then [ti_istaken info] @ (if ti_istaken info \<noteq> 0 then le64 (ti_target info) else []) else []) @
     [ti_numSrc info] @ ti_sregs info @ [ti_numDest info] @ ti_dregs info @ concat (map le64 (ti_dvalues info))"
proof -
  have z: "(n :: u8) > 0 \<or> xs = []" if "length xs = unat n" for n and xs :: "'b list"
    using that by (cases "n = 0") (simp_all add: word_gt_0)
  have s: "(if ti_numSrc info > 0 then take (unat (ti_numSrc info)) (ti_sregs info) else []) = ti_sregs info"
    using assms z [of "ti_sregs info" "ti_numSrc info"] by (auto simp: readable_def)
  have d: "(if ti_numDest info > 0 then take (unat (ti_numDest info)) (ti_dregs info) @
      concat (map le64 (take (unat (ti_numDest info)) (ti_dvalues info))) else []) =
      ti_dregs info @ concat (map le64 (ti_dvalues info))"
    using assms z [of "ti_dregs info" "ti_numDest info"] z [of "ti_dvalues info" "ti_numDest info"]
    by (auto simp: readable_def)
  have b: "(ti_isbranch info \<noteq> 0) = (ti_type info \<in> {3, 4, 5})" using assms by (simp add: readable_def)
  show ?thesis unfolding trace_bytes_def s d b by simp
qed

definition mem_bytes :: "TraceInfo \<Rightarrow> bytes" where
  "mem_bytes info = (if ti_type info = 1 \<or> ti_type info = 2 then le64 (ti_memaddr info) @ [ti_memsize info] else [])"

definition branch_bytes :: "TraceInfo \<Rightarrow> bytes" where
  "branch_bytes info = (if ti_type info \<in> {3, 4, 5}
     then [ti_istaken info] @ (if ti_istaken info \<noteq> 0 then le64 (ti_target info) else []) else [])"

lemma parse_mem_ok:
  assumes "rest p = mem_bytes info @ ys"
  shows "\<exists>p'. (if ti_type info = 1 \<or> ti_type info = 2
      then case fread64 0 p of (a, q) \<Rightarrow> case fread 1 q of (b, q') \<Rightarrow> (a, hd b, q') else (0, 0, p)) =
      (ti_memaddr (written info), ti_memsize (written info), p') \<and> rest p' = ys"
proof (cases "ti_type info = 1 \<or> ti_type info = 2")
  case True
  obtain q where q: "fread64 0 p = (ti_memaddr info, q)" "rest q = [ti_memsize info] @ ys"
    using fread64_app [of p "ti_memaddr info" "[ti_memsize info] @ ys" 0] assms True by (auto simp: mem_bytes_def)
  then show ?thesis using fread1_app [OF q(2)] True by (auto simp: written_def Let_def)
next
  case False
  then show ?thesis using assms by (auto simp: mem_bytes_def written_def Let_def)
qed

lemma parse_branch_ok:
  assumes "rest p = branch_bytes info @ ys" and "readable info"
  shows "\<exists>p'. (if ti_type info \<in> {3, 4, 5}
      then case fread 1 p of (tk, q) \<Rightarrow>
           if hd tk \<noteq> 0 then case fread64 0 q of (tg, q') \<Rightarrow> (1, hd tk, tg, q') else (1, 0, 0, q)
      else (0, 0, 0, p)) = (ti_isbranch info, ti_istaken info, ti_target (written info), p') \<and> rest p' = ys"
proof (cases "ti_type info \<in> {3, 4, 5}")
  case True
  let ?t = "if ti_istaken info \<noteq> 0 then le64 (ti_target info) else []"
  obtain q where q: "fread 1 p = ([ti_istaken info], q)" "rest q = ?t @ ys"
    using fread1_app [of p "ti_istaken info" "?t @ ys"] assms(1) True by (auto simp: branch_bytes_def)
  then show ?thesis
    using True assms(2) fread64_app [of q "ti_target info" ys 0]
    by (cases "ti_istaken info = 0") (auto simp: written_def Let_def readable_def)
next
  case False
  then show ?thesis using assms by (auto simp: branch_bytes_def written_def Let_def readable_def)
qed

lemma parse_trace_ok:
  assumes ok: "readable info" and p: "rest p = trace_bytes info @ after"
  shows "\<exists>p'. parse_trace p = (written info, p') \<and> rest p' = after"
proof -
  define tail where "tail = [ti_numSrc info] @ ti_sregs info @ [ti_numDest info] @ ti_dregs info @ concat (map le64 (ti_dvalues info)) @ after"
  have r: "rest p = le64 (ti_pc info) @ [ti_type info] @ mem_bytes info @ branch_bytes info @ tail"
    using p by (simp add: trace_bytes_readable [OF ok] tail_def mem_bytes_def branch_bytes_def)
  obtain p1 where p1: "fread64 0 p = (ti_pc info, p1)" "rest p1 = [ti_type info] @ mem_bytes info @ branch_bytes info @ tail"
    using fread64_app [OF r, of 0] by auto
  obtain p2 where p2: "fread 1 p1 = ([ti_type info], p2)" "rest p2 = mem_bytes info @ branch_bytes info @ tail"
    using fread1_app [OF p1(2)] by auto
  note parse_mem_ok [OF p2(2)]
  then obtain p3 where p3: "(if ti_type info = 1 \<or> ti_type info = 2
      then case fread64 0 p2 of (a, q) \<Rightarrow> case fread 1 q of (b, q') \<Rightarrow> (a, hd b, q') else (0, 0, p2)) =
      (ti_memaddr (written info), ti_memsize (written info), p3)" "rest p3 = branch_bytes info @ tail" by blast
  note parse_branch_ok [OF p3(2) ok]
  then obtain p4 where p4: "(if ti_type info \<in> {3, 4, 5}
      then case fread 1 p3 of (tk, q) \<Rightarrow>
           if hd tk \<noteq> 0 then case fread64 0 q of (tg, q') \<Rightarrow> (1, hd tk, tg, q') else (1, 0, 0, q)
      else (0, 0, 0, p3)) = (ti_isbranch info, ti_istaken info, ti_target (written info), p4)" "rest p4 = tail" by blast
  have len: "length (ti_sregs info) = unat (ti_numSrc info)" "length (ti_dregs info) = unat (ti_numDest info)"
    "length (ti_dvalues info) = length (ti_dregs info)" using ok by (simp_all add: readable_def)
  obtain p5 where p5: "read_regs_u8 p4 = (ti_sregs info, p5)"
    "rest p5 = [ti_numDest info] @ ti_dregs info @ concat (map le64 (ti_dvalues info)) @ after"
    using read_regs_u8_app [OF _ len(1)] p4(2) unfolding tail_def by blast
  obtain p6 where p6: "read_regs_u8 p5 = (ti_dregs info, p6)" "rest p6 = concat (map le64 (ti_dvalues info)) @ after"
    using read_regs_u8_app [OF p5(2) len(2)] by auto
  obtain p7 where p7: "read_values (length (ti_dregs info)) p6 = (ti_dvalues info, p7)" "rest p7 = after"
    using read_values_app [OF p6(2)] len(3) by auto
  have "parse_trace p = (written info, p7)"
    unfolding parse_trace_def p1(1) p2(1) prod.case list.sel p3(1) p4(1) p5(1) p6(1) p7(1)
    by (simp add: written_def Let_def len)
  then show ?thesis using p7(2) by blast
qed

text \<open>A RISC-V instruction is a branch of one of the three classes or no branch; then its record is readable.\<close>

lemma fill_info_readable:
  assumes "isCondCtrl i \<or> isUncondCtrl i \<longrightarrow>
      \<not> isLoad i \<and> \<not> isAtomic i \<and> \<not> isStore i \<and> \<not> isFloating i \<and> (isCondCtrl i \<or> isDirectCtrl i \<or> isIndirectCtrl i)"
  shows "readable (fill_info th i m)"
  using assms by (auto simp: readable_def fill_info_def covertInstType_def Let_def unsigned_of_nat take_bit_eq_mod)

end
