(* ===== verification/SliceEnd.thy ===== *)
theory SliceEnd
  imports CkptLoad
begin

text \<open>
  From the accesses of a slice to the memory of the loader: the end of a slice
  (\<open>finish_slice\<close>) keeps every accessed byte inside the written ranges, so that after loading the
  bytes that the slice reads first are there.
\<close>

section \<open>Marking pages\<close>

definition user_map :: "access_map \<Rightarrow> bool" where
  "user_map t \<longleftrightarrow> wf_access t \<and> (\<forall>b \<in> dom (RBT.lookup t). unat b < 2 ^ 62)"

definition grows :: "access_map \<times> exist \<Rightarrow> access_map \<times> exist \<Rightarrow> bool" where
  "grows st st' \<longleftrightarrow> user_map (fst st') \<and> length (snd st') = 8 \<and> touched (fst st) \<subseteq> touched (fst st')"

lemma grows_trans: "grows a b \<Longrightarrow> grows b c \<Longrightarrow> grows a c"
  by (auto simp: grows_def)

lemma addAddrInfo_grows:
  assumes "user_map (fst st)" "length (snd st) = 8" "unat addr < 2 ^ 62" "0 < unat sz" "unat sz \<le> 8"
    and "unat addr mod 8192 + unat sz \<le> 8192"
  shows "\<exists>st'. addAddrInfo addr sz st = Inr st' \<and> grows st st'"
proof -
  obtain t ex where st: "st = (t, ex)" by (cases st)
  have t: "wf_access t" "length ex = 8" "unat addr < 2 ^ 63" using assms by (simp_all add: st user_map_def)
  have cb: "unat (chunk_base addr) < 2 ^ 62"
    using assms(3) chunk_base_le [of addr] by (simp add: word_le_nat_alt)
  let ?t = "RBT.insert (chunk_base addr) (marked (flags t (chunk_base addr)) (unat addr mod 8192) (unat sz)) t"
  have "addAddrInfo addr sz (t, ex) = Inr (?t, map (\<lambda>k. Some (flags t (chunk_base addr) (unat addr mod 8192 + k))) [0..<unat sz]
           @ drop (unat sz) ex)"
    using assms t by (intro addAddrInfo_within) simp_all
  moreover have "user_map ?t"
    using assms(1) cb t(1) by (auto simp: st user_map_def intro: wf_access_insert)
  moreover have "touched t \<subseteq> touched ?t" using assms(6) by (subst touched_insert) auto
  ultimately show ?thesis using t(2) assms(5) by (auto simp: st grows_def)
qed

lemma mark_one:
  assumes "user_map (fst st)" "length (snd st) = 8" "unat addr < 2 ^ 62"
  shows "\<exists>st'. addAddrInfo addr 1 st = Inr st' \<and> grows st st'"
proof -
  have "unat addr mod 8192 + unat (1 :: u8) \<le> 8192" using mod_less_divisor [of 8192 "unat addr"] by simp
  then show ?thesis using assms by (intro addAddrInfo_grows) simp_all
qed

lemma mark_pages_grows:
  assumes "user_map (fst st)" "length (snd st) = 8" "unat addr < 2 ^ 61"
  shows "\<exists>st'. mark_pages base addr st = Inr st' \<and> grows st st'"
  using assms
proof (induction base addr st rule: mark_pages.induct)
  case (1 base addr st)
  show ?case
  proof (cases "base \<le> addr")
    case True
    then have b: "unat base < 2 ^ 62" "unat base + 4096 < 2 ^ 64" using "1.prems"(3) by (simp_all add: word_le_nat_alt)
    obtain st1 where s1: "addAddrInfo base 1 st = Inr st1" "grows st st1"
      using mark_one [OF "1.prems"(1,2) b(1)] by blast
    obtain st2 where "mark_pages (base + 4096) addr st1 = Inr st2" "grows st1 st2"
      using "1.IH" [OF True s1(1) b(2)] "1.prems"(3) s1(2) by (auto simp: grows_def)
    then show ?thesis using True s1 b(2) grows_trans by (subst mark_pages.simps) auto
  next
    case False
    then show ?thesis using "1.prems" by (subst mark_pages.simps) (auto simp: grows_def)
  qed
qed

lemma grows_refl: "user_map (fst st) \<Longrightarrow> length (snd st) = 8 \<Longrightarrow> grows st st"
  by (simp add: grows_def)

definition buffer_ok :: "SyscallInfo \<Rightarrow> bool" where
  "buffer_ok s \<longleftrightarrow> unat (si_bufaddr s) + length (si_data s) + 4096 < 2 ^ 61"

lemma mark_syscall_grows:
  assumes "user_map (fst st)" "length (snd st) = 8" "buffer_ok s"
  shows "\<exists>st'. mark_syscall s st = Inr st' \<and> grows st st'"
proof -
  have "unat (si_bufaddr s + of_nat (length (si_data s)) + 4096) < 2 ^ 61"
    using assms(3) unat_add_less [of "si_bufaddr s" "length (si_data s) + 4096"] by (simp add: buffer_ok_def add.assoc)
  then show ?thesis
    using mark_pages_grows [OF assms(1,2)] grows_refl [OF assms(1,2)] by (simp add: mark_syscall_def del: split_paired_Ex)
qed

lemma mark_first_grows:
  assumes "user_map (fst st)" "length (snd st) = 8" "unat (fl_addr f) < 2 ^ 61"
  shows "\<exists>st'. mark_first f st = Inr st' \<and> grows st st'"
proof -
  let ?t = "page_of (fl_addr f)"
  have u: "unat ?t < 2 ^ 62" "unat (?t + 4096) < 2 ^ 62"
    using page_of_bounds(1) [of "fl_addr f"] assms(3) unat_add_less [of ?t 4096] by simp_all
  obtain st1 where s1: "addAddrInfo ?t 1 st = Inr st1" "grows st st1" using mark_one [OF assms(1,2) u(1)] by blast
  obtain st2 where s2: "addAddrInfo (?t + 4096) 1 st1 = Inr st2" "grows st1 st2"
    using mark_one [OF _ _ u(2), of st1] s1(2) by (auto simp: grows_def)
  show ?thesis using s1 s2 grows_trans [OF s1(2) s2(2)] by (simp add: mark_first_def Let_def del: split_paired_Ex)
qed

lemma fold_grows:
  assumes "\<And>x st. x \<in> set xs \<Longrightarrow> user_map (fst st) \<Longrightarrow> length (snd st) = 8 \<Longrightarrow> \<exists>st'. f x st = Inr st' \<and> grows st st'"
    and "user_map (fst st)" "length (snd st) = 8"
  shows "\<exists>st'. res_fold f xs st = Inr st' \<and> grows st st'"
proof (rule res_fold_total [where P = "grows st"])
  fix x t assume x: "x \<in> set xs" and g: "grows st t"
  then obtain t' where "f x t = Inr t'" "grows t t'" using assms(1) [OF x, of t] by (auto simp: grows_def)
  then show "\<exists>t'. f x t = Inr t' \<and> grows st t'" using grows_trans [OF g] by blast
qed (rule grows_refl [OF assms(2,3)])

section \<open>The recorded slice\<close>

lemma do_access_user:
  assumes "user_map (fst st)" and "plain_access acc" and "do_access acc st = Inr st'"
  shows "user_map (fst st')"
proof -
  obtain t loads where st: "st = (t, loads)" by (cases st)
  have sz: "0 < acc_size acc" "acc_size acc \<le> 8" "unat (acc_addr acc) < 2 ^ 62"
    "unat (acc_addr acc) mod 8192 + acc_size acc \<le> 8192" using assms(2) by (simp_all add: plain_access_def)
  have u: "unat (of_nat (acc_size acc) :: u8) = acc_size acc" using sz by (simp add: unsigned_of_nat take_bit_eq_mod)
  obtain r where r: "addAddrInfo (acc_addr acc) (of_nat (acc_size acc)) (t, exist_uninit) = Inr r" "user_map (fst r)"
    using addAddrInfo_grows [of "(t, exist_uninit)" "acc_addr acc" "of_nat (acc_size acc)"] assms(1) sz u
    by (auto simp: st exist_uninit_def grows_def)
  show ?thesis
  proof (cases acc)
    case (LoadAcc a bs)
    then show ?thesis using assms(3) r by (auto simp: st addload_def res_bind_eq_Inr split: prod.splits if_splits)
  next
    case (StoreAcc a n)
    then show ?thesis using assms(3) r by (auto simp: st addstore_def res_bind_eq_Inr split: prod.splits)
  qed
qed

lemma run_user:
  assumes "user_map (fst st)" and "\<forall>acc \<in> set accs. plain_access acc" and "res_fold do_access accs st = Inr st'"
  shows "user_map (fst st')"
  using assms(3) by (rule res_fold_invariant [where P = "\<lambda>s. user_map (fst s)"]) (use assms(1,2) in \<open>auto intro: do_access_user\<close>)

lemma user_map_empty: "user_map RBT.empty"
  by (simp add: user_map_def wf_access_empty)

theorem finish_slice_ok:
  assumes pre: "user_map (ck_preAccess c)" "touched (ck_preAccess c) \<noteq> {}"
    and sys: "\<forall>s \<in> set (ck_sysinfos c). buffer_ok s"
    and fls: "getFistloads (ck_loads c) (ck_firstloads c) = Inr fls" "\<forall>f \<in> set fls. unat (fl_addr f) < 2 ^ 61"
    and new: "ck_textrange c = []" "ck_memrange c = []"
    and code: "finite (ck_textAccess c)" "ck_textAccess c \<noteq> {}" "\<forall>a \<in> ck_textAccess c. unat a < 2 ^ 62"
  shows "\<exists>tr n. getRange_set (ck_textAccess c) [] = Inr (tr, n) \<and> tr \<noteq> [] \<and> (\<forall>a \<in> ck_textAccess c. covers tr a) \<and>
    (range_end (last tr) < 2 ^ 31 \<longrightarrow>
      (\<exists>c'. finish_slice c = Inr c' \<and> ck_firstloads c' = fls \<and> ck_textrange c' = tr \<and>
         ck_sysinfos c' = ck_sysinfos c \<and> ck_npc c' = ck_npc c \<and> ck_exit_pc c' = ck_exit_pc c \<and>
         ck_intregs c' = ck_intregs c \<and> ck_fpregs c' = ck_fpregs c \<and>
         (\<forall>x \<in> touched (ck_preAccess c). range_end (last tr) \<le> unat x \<longrightarrow> covers (ck_memrange c') x) \<and>
         (\<forall>m \<in> set (ck_memrange c'). unat (cr_size m) < 2 ^ 63)))"
proof -
  obtain st1 where m1: "res_fold mark_syscall (ck_sysinfos c) (ck_preAccess c, exist_uninit) = Inr st1"
    "grows (ck_preAccess c, exist_uninit) st1"
    using fold_grows [of "ck_sysinfos c" mark_syscall "(ck_preAccess c, exist_uninit)"] mark_syscall_grows sys pre(1)
    by (auto simp: exist_uninit_def)
  obtain st2 where m2: "res_fold mark_first fls st1 = Inr st2" "grows st1 st2"
    using fold_grows [of fls mark_first st1] mark_first_grows fls(2) m1(2) by (auto simp: grows_def)
  have g: "user_map (fst st2)" "touched (ck_preAccess c) \<subseteq> touched (fst st2)"
    using grows_trans [OF m1(2) m2(2)] by (auto simp: grows_def)
  obtain tr n where tr: "getRange_set (ck_textAccess c) [] = Inr (tr, n)" "\<forall>a \<in> ck_textAccess c. covers tr a"
    using getRange_set_ok [OF code] by blast
  have ne: "tr \<noteq> []" using tr(2) code(2) by (auto simp: covers_def)
  obtain mr k where mr: "getRange_map (fst st2) [] = Inr (mr, k)" "wf_ranges 8192 mr" "\<forall>x \<in> touched (fst st2). covers mr x"
    using getRange_map_ok [of "fst st2"] g pre(2) by (auto simp: user_map_def)
  have "\<exists>c'. finish_slice c = Inr c' \<and> ck_firstloads c' = fls \<and> ck_textrange c' = tr \<and>
         ck_sysinfos c' = ck_sysinfos c \<and> ck_npc c' = ck_npc c \<and> ck_exit_pc c' = ck_exit_pc c \<and>
         ck_intregs c' = ck_intregs c \<and> ck_fpregs c' = ck_fpregs c \<and>
         (\<forall>x \<in> touched (ck_preAccess c). range_end (last tr) \<le> unat x \<longrightarrow> covers (ck_memrange c') x) \<and>
         (\<forall>m \<in> set (ck_memrange c'). unat (cr_size m) < 2 ^ 63)"
    if e: "range_end (last tr) < 2 ^ 31"
  proof -
    obtain ms where ms: "trim_memrange tr mr = Inr ms" "\<forall>x. covers ms x \<longleftrightarrow> covers mr x \<and> range_end (last tr) \<le> unat x"
      using trim_memrange_ok [OF ne e mr(2)] by blast
    have "finish_slice c = Inr (c\<lparr>ck_loads := [], ck_firstloads := fls, ck_preAccess := fst st2, ck_textrange := tr,
              ck_textsize := n, ck_memrange := ms, ck_memsize := k\<rparr>)"
      using m1(1) m2(1) tr(1) mr(1) ms(1) new fls(1) by (simp add: finish_slice_def case_prod_beta)
    then show ?thesis using g(2) mr(3) ms(2) trim_memrange_sizes [OF mr(2) ms(1)] by auto
  qed
  then show ?thesis using tr ne by blast
qed

section \<open>From the recorded slice to the loaded memory\<close>

lemma mmap_zero_keeps: "m x = 0 \<Longrightarrow> mmap_zero a n m x = 0"
  by (simp add: mmap_zero_def)

lemma zero_range_keeps: "m x = 0 \<Longrightarrow> fold zero_range rs m x = 0"
  by (induction rs arbitrary: m) (simp_all add: zero_range_def mmap_zero_keeps)

lemma zero_range_covers:
  assumes "in_code_range x r" and "unat (cr_size r) < 2 ^ 63"
  shows "zero_range r m x = 0"
proof -
  have s: "0 < unat (cr_size r)" "unat x - unat (cr_addr r) < unat (cr_size r)" "unat (cr_addr r) \<le> unat x"
    using assms(1) by (auto simp: in_code_range_def range_end_def)
  have d: "unat (x - cr_addr r) = unat x - unat (cr_addr r)" using s(3) by (simp add: unat_diff_le word_le_nat_alt)
  have "unat (cr_size r + 4096) = unat (cr_size r) + 4096"
    using assms(2) unat_add_less [of "cr_size r" 4096] by simp
  moreover have "k \<le> (k + 4095) div 4096 * 4096" for k :: nat
    using div_mult_mod_eq [of "k + 4095" 4096] mod_less_divisor [of 4096 "k + 4095"] by linarith
  ultimately have "unat (cr_size r) \<le> page_up (cr_size r + 4096)"
    unfolding page_up_def by (metis add_leD1)
  then have "in_range x (cr_addr r) (page_up (cr_size r + 4096))" using s(2) d by (simp add: in_range_def)
  moreover have "cr_size r \<noteq> 0" using s(1) by auto
  ultimately show ?thesis by (simp add: zero_range_def mmap_zero_def)
qed

lemma covers_zeroed:
  assumes "covers rs x" and "\<forall>r \<in> set rs. unat (cr_size r) < 2 ^ 63"
  shows "fold zero_range rs m x = 0"
  using assms
proof (induction rs arbitrary: m)
  case (Cons r rs)
  show ?case
  proof (cases "in_code_range x r")
    case True
    then have "zero_range r m x = 0" using Cons.prems(2) by (intro zero_range_covers) simp_all
    then show ?thesis by (simp add: zero_range_keeps)
  next
    case False
    then show ?thesis using Cons by (simp add: covers_def)
  qed
qed (simp add: covers_def)

text \<open>
  What a pending checkpoint is after a run of accesses; the remaining fields are arbitrary.
\<close>

definition recorded_run :: "access list \<Rightarrow> CkptInfo \<Rightarrow> bool" where
  "recorded_run accs c \<longleftrightarrow>
     res_fold do_access accs (RBT.empty, []) = Inr (ck_preAccess c, ck_loads c) \<and> ck_firstloads c = [] \<and>
     ck_textrange c = [] \<and> ck_memrange c = []"

lemma spec_touched_mono: "fst sp \<subseteq> fst (fold spec_access accs sp)"
proof (induction accs arbitrary: sp)
  case (Cons acc accs)
  obtain T F where sp: "sp = (T, F)" by (cases sp)
  have "T \<subseteq> fst (spec_access acc (T, F))" by (cases acc) auto
  then show ?case using Cons [of "spec_access acc (T, F)"] sp by auto
qed simp

lemma spec_touched_nonempty:
  assumes "accs \<noteq> []" "\<forall>acc \<in> set accs. plain_access acc"
  shows "fst (fold spec_access accs ({}, Map.empty)) \<noteq> {}"
proof -
  obtain acc acs where a: "accs = acc # acs" using assms(1) by (cases accs) auto
  have "0 < acc_size acc" using assms(2) by (simp add: a plain_access_def)
  then have "acc_addr acc \<in> fst (spec_access acc ({}, Map.empty))" by (cases acc) (simp_all add: in_range_def)
  then show ?thesis using spec_touched_mono [of "spec_access acc ({}, Map.empty)" acs] by (auto simp: a)
qed

text \<open>A run on its own: its first loads are those of the specification, and each is of a touched byte.\<close>

lemma recorded_run_loads:
  assumes run: "recorded_run accs c" "\<forall>acc \<in> set accs. plain_access acc" "accs \<noteq> []"
    and fls: "getFistloads (ck_loads c) [] = Inr fls"
  defines "T \<equiv> fst (fold spec_access accs ({}, Map.empty))" and "F \<equiv> snd (fold spec_access accs ({}, Map.empty))"
  shows "user_map (ck_preAccess c)" and "touched (ck_preAccess c) = T" and "T \<noteq> {}" and "F x = Some b \<Longrightarrow> x \<in> T"
    and "spaced fls" and "fl_image fls = byte_image F"
proof -
  have rec: "records (ck_preAccess c, ck_loads c) (T, F)"
    using records_run [OF records_init run(2)] run(1) by (auto simp: recorded_run_def T_def F_def)
  show "user_map (ck_preAccess c)"
    using run_user [of "(RBT.empty, [])" accs] run user_map_empty by (simp add: recorded_run_def)
  show "touched (ck_preAccess c) = T" "T \<noteq> {}"
    using rec spec_touched_nonempty [OF run(3,2)] by (simp_all add: records_def T_def)
  obtain ts where ts: "map_of ts = F" "\<forall>t \<in> set ts. fst t \<in> T" using rec by (auto simp: records_def)
  show "x \<in> T" if "F x = Some b"
  proof -
    have "(x, b) \<in> set ts" using that ts(1) by (intro map_of_SomeD) simp
    then show ?thesis using ts(2) by fastforce
  qed
  show "spaced fls" "fl_image fls = byte_image F" using records_first_loads [OF rec] fls by auto
qed

lemma loaded_first_load:
  assumes ld: "loaded_as c sec va l l'" and x: "\<not> in_range x va (length sec + 4096)"
    and cov: "covers (ck_memrange c) x" "\<forall>m \<in> set (ck_memrange c). unat (cr_size m) < 2 ^ 63"
  shows "lmem l' x = fl_image (ck_firstloads c) x"
proof -
  obtain m where m: "recovered (ck_firstloads c) (fold zero_range (ck_memrange c) (lmem l)) m" "lmem l' x = m x"
    using ld x by (auto simp: loaded_as_def)
  moreover have "fold zero_range (ck_memrange c) (lmem l) x = 0" using cov by (rule covers_zeroed)
  ultimately show ?thesis by (simp add: recovered_def)
qed

theorem slice_restored:
  assumes run: "recorded_run accs c" "\<forall>acc \<in> set accs. plain_access acc" "accs \<noteq> []"
    and sys: "\<forall>s \<in> set (ck_sysinfos c). buffer_ok s \<and> si_params s \<noteq> []"
    and code: "finite (ck_textAccess c)" "ck_textAccess c \<noteq> {}" "\<forall>a \<in> ck_textAccess c. unat a < 2 ^ 62"
    and regs: "length (ck_intregs c) = 32" "length (ck_fpregs c) = 32"
    and fls: "getFistloads (ck_loads c) [] = Inr fls" "\<forall>f \<in> set fls. 0 < unat (fl_addr f) \<and> unat (fl_addr f) < 2 ^ 61" "blocks_fit fls"
    and tr: "getRange_set (ck_textAccess c) [] = Inr (tr, n)" "range_end (last tr) < 2 ^ 31"
    and s: "pending s []"
  defines "F \<equiv> snd (fold spec_access accs ({}, Map.empty))"
  shows "\<exists>c' img sec c'' s'. finish_slice c = Inr c' \<and> saveCkptInfo rs c' s = Inr (img, c'', s') \<and>
    saveSysInfo (ck_sysinfos c) = Inr (sec, ck_sysinfos c'') \<and>
    (length img < 2 ^ 63 \<longrightarrow> (\<forall>l va. \<exists>l'. load_sections va img l = Inr (ck_npc c, l') \<and>
       (\<forall>r < 32. program_intregs l' r = ck_intregs c ! unat r) \<and>
       (\<forall>x b. F x = Some b \<longrightarrow> range_end (last tr) \<le> unat x \<longrightarrow> \<not> in_range x va (length sec + 4096) \<longrightarrow> lmem l' x = b)))"
proof -
  define T where "T = fst (fold spec_access accs ({}, Map.empty))"
  note r = recorded_run_loads [OF run fls(1), folded T_def F_def]
  have new: "ck_firstloads c = []" "ck_textrange c = []" "ck_memrange c = []" using run(1) by (simp_all add: recorded_run_def)
  have sys1: "\<forall>s \<in> set (ck_sysinfos c). buffer_ok s" and fl61: "\<forall>f \<in> set fls. unat (fl_addr f) < 2 ^ 61"
    using sys fls(2) by simp_all
  obtain c' where c': "finish_slice c = Inr c'" "ck_firstloads c' = fls" "ck_sysinfos c' = ck_sysinfos c" "ck_npc c' = ck_npc c"
    "ck_intregs c' = ck_intregs c" "ck_fpregs c' = ck_fpregs c"
    "\<forall>x \<in> T. range_end (last tr) \<le> unat x \<longrightarrow> covers (ck_memrange c') x"
    "\<forall>m \<in> set (ck_memrange c'). unat (cr_size m) < 2 ^ 63"
    using finish_slice_ok [OF r(1) _ sys1 _ fl61 new(2,3) code] r(2,3) fls(1) tr by (auto simp: new)
  have "savable fls" using r(5) fls(2) by (auto simp: savable_def)
  then have "ckpt_ok c'" using fls(3) regs sys c' by (simp add: ckpt_ok_def)
  from ckpt_file_roundtrip [OF this s, of rs, unfolded c'(3,4)]
  obtain img0 sec c'' s' where w: "saveCkptInfo rs c' s = Inr (img0, c'', s')"
    "saveSysInfo (ck_sysinfos c) = Inr (sec, ck_sysinfos c'')"
    "length img0 < 2 ^ 63 \<Longrightarrow> \<exists>l'. load_sections va img0 l = Inr (ck_npc c, l') \<and> loaded_as c' sec va l l'" for l va
    by blast
  have "lmem l' x = b" if ld: "loaded_as c' sec va l l'" and x: "F x = Some b" "range_end (last tr) \<le> unat x"
    "\<not> in_range x va (length sec + 4096)" for l l' va x b
    using loaded_first_load [OF ld x(3) _ c'(8)] c'(2,7) r(4) [OF x(1)] r(6) x by (simp add: byte_image_def)
  moreover have "\<forall>r < 32. program_intregs l' r = ck_intregs c ! unat r" if "loaded_as c' sec va l l'" for l l' va
    using that by (simp add: loaded_as_def c'(5))
  ultimately have "\<exists>l'. load_sections va img0 l = Inr (ck_npc c, l') \<and>
       (\<forall>r < 32. program_intregs l' r = ck_intregs c ! unat r) \<and>
       (\<forall>x b. F x = Some b \<longrightarrow> range_end (last tr) \<le> unat x \<longrightarrow> \<not> in_range x va (length sec + 4096) \<longrightarrow> lmem l' x = b)"
    if "length img0 < 2 ^ 63" for l va
    using w(3) [OF that, of va l] by meson
  then show ?thesis
    by - (rule exI [of _ c'], rule exI [of _ img0], rule exI [of _ sec], rule exI [of _ c''], rule exI [of _ s'],
      use c'(1) w(1,2) in simp)
qed

end
