(* ===== verification/AtomicTick.thy ===== *)
theory AtomicTick
  imports CollectProps TraceCollect SliceEnd
begin

unbundle bit_operations_syntax

text \<open>
  The recorder inside the atomic CPU (\<open>cpu/simple/atomic.cc\<close>): the fragment loops of memory
  accesses with the calls that record them, the system call hooks (\<open>arch/riscv/linux/se_workload.cc\<close>,
  \<open>sim/syscall_desc.cc\<close>), and the part of \<open>tick\<close> that runs one instruction, drives the collectors and
  chooses the instruction a slice ends with.
\<close>

section \<open>State\<close>

text \<open>
  The instruction flags \<open>tick\<close> asks for besides those of the trace collector; \<open>isLastUop\<close> is false for
  a micro-operation that is not the last one of its instruction.
\<close>

record CpuInst = StaticInst +
  isControl :: bool
  isCall :: bool
  isReturn :: bool
  isSyscall :: bool
  isCompressed :: bool
  isLastUop :: bool

record cpu =
  benchinsts :: u64
  takeSysNum :: u64
  last_isBenchInst :: bool
  startlog :: bool
  needCreateCkpt :: bool
  preinsts :: "u64 set"
  instnums :: "u64 list"
  numInst :: u64
  strictLength :: bool
  old :: "oldckpt option"
  coll :: collector
  trc :: tracer

definition cpu_init :: "collector \<Rightarrow> tracer \<Rightarrow> oldckpt option \<Rightarrow> bool \<Rightarrow> cpu" where
  "cpu_init k t od strict =
     \<lparr>benchinsts = 0, takeSysNum = 0, last_isBenchInst = False, startlog = False, needCreateCkpt = False, preinsts = {},
      instnums = replicate 10 0, numInst = 0, strictLength = strict, old = od, coll = k, trc = t\<rparr>"

definition bump :: "nat \<Rightarrow> bool \<Rightarrow> u64 list \<Rightarrow> u64 list" where
  "bump i b ns = (if b then ns[i := ns ! i + 1] else ns)"

definition recordinst :: "CpuInst \<Rightarrow> u64 list \<Rightarrow> u64 list" where
  "recordinst i ns =
     bump 8 (isIndirectCtrl i) (bump 7 (isUncondCtrl i) (bump 6 (isCondCtrl i) (bump 5 (isReturn i) (bump 4 (isCall i)
       (bump 3 (isControl i) (bump 2 (isAtomic i) (bump 1 (\<not> isLoad i \<and> isStore i) (bump 0 (isLoad i) ns))))))))"

section \<open>Memory accesses\<close>

text \<open>
  What the recorder does when the loops below reach it: \<open>needCreateCkpt\<close> and \<open>startlog\<close> were set by
  \<open>tick\<close> for the running instruction.
\<close>

definition rec_mem :: "u64 \<Rightarrow> u64 \<Rightarrow> cpu \<Rightarrow> cpu" where
  "rec_mem pc addr u = (if traceOpen (trc u) then u\<lparr>trc := record_meminfo pc addr (trc u)\<rparr> else u)"

definition rec_load :: "u64 \<Rightarrow> bytes \<Rightarrow> nat \<Rightarrow> cpu \<Rightarrow> cpu res" where
  "rec_load addr data sz u =
     (if needCreateCkpt u \<and> startlog u
      then res_bind (ckpt_addload addr data (of_nat sz) (coll u)) (\<lambda>k. Inr (u\<lparr>coll := k\<rparr>)) else Inr u)"

definition rec_store :: "u64 \<Rightarrow> nat \<Rightarrow> cpu \<Rightarrow> cpu res" where
  "rec_store addr sz u =
     (if needCreateCkpt u \<and> startlog u
      then res_bind (ckpt_addstore addr (of_nat sz) (coll u)) (\<lambda>k. Inr (u\<lparr>coll := k\<rparr>)) else Inr u)"

text \<open>
  The next fragment of an access of \<open>sz\<close> bytes: it ends at the end of the cache line or of the access.
  The result is whether a byte of it is enabled, its size and the bytes left behind it.
\<close>

definition genMemFragmentRequest :: "nat \<Rightarrow> u64 \<Rightarrow> nat \<Rightarrow> bool list \<Rightarrow> nat \<Rightarrow> bool \<times> nat \<times> nat" where
  "genMemFragmentRequest line frag_addr sz byte_enable size_left =
     (let frag_size = min (line - unat (frag_addr AND (of_nat line - 1))) size_left;
          left' = size_left - frag_size
      in (list_ex id (take frag_size (drop (sz - (frag_size + left')) byte_enable)), frag_size, left'))"

lemma fragment_sizes:
  "genMemFragmentRequest line a sz be left = (p, frag, left') \<Longrightarrow> left' + frag = left \<and> left' \<le> left"
  by (auto simp: genMemFragmentRequest_def Let_def)

text \<open>
  The memory system: whether a fragment's translation faults, the memory, and the flags of the request.
  A cache line of no bytes would never end the loops.
\<close>

record memsys =
  line :: nat
  translate_fault :: "u64 \<Rightarrow> nat \<Rightarrow> bool"
  no_access :: bool
  prefetch :: bool
  locked_write :: bool

text \<open>The read loop: whether it faulted, the destination buffer and how far the data pointer was moved.\<close>

function read_frags :: "memsys \<Rightarrow> memory \<Rightarrow> bool list \<Rightarrow> nat \<Rightarrow> u64 \<Rightarrow> nat \<Rightarrow> nat \<Rightarrow> cbuf \<Rightarrow> (bool \<times> cbuf \<times> nat) res" where
  "read_frags ms mem be sz frag_addr left dptr buf =
     (case genMemFragmentRequest (line ms) frag_addr sz be left of (predicate, frag, left') \<Rightarrow>
      let flt = (predicate \<and> translate_fault ms frag_addr frag) in
      res_bind (if predicate \<and> \<not> flt \<and> \<not> no_access ms then poke buf dptr (mem_read mem frag_addr frag) else Inr buf) (\<lambda>buf'.
        if flt then Inr (True, buf', dptr)
        else if left' = 0 then Inr (False, buf', dptr)
        else if frag = 0 then Inl Endless
        else read_frags ms mem be sz (frag_addr + of_nat frag) left' (dptr + frag) buf'))"
  by pat_completeness auto
termination
  by (relation "measure (\<lambda>(ms, mem, be, sz, fa, left, d, b). left)") (auto dest!: fragment_sizes [OF sym])

declare read_frags.simps [simp del]

definition readMem :: "memsys \<Rightarrow> memory \<Rightarrow> u64 \<Rightarrow> u64 \<Rightarrow> cbuf \<Rightarrow> nat \<Rightarrow> bool list \<Rightarrow> cpu \<Rightarrow> (bool \<times> cbuf \<times> cpu) res" where
  "readMem ms mem pc addr buf sz be u =
     res_bind (read_frags ms mem be sz addr sz 0 buf) (\<lambda>(flt, buf', dptr).
       if flt then Inr (\<not> prefetch ms, buf', u)
       else res_bind (rec_load addr (drop dptr (slice buf' 0 (blen buf'))) sz (rec_mem pc addr u)) (\<lambda>u'. Inr (False, buf', u')))"

text \<open>
  The write loop; a conditional store that lost its reservation (\<open>locked_write\<close> is what
  \<open>handleLockedWrite\<close> answers) changes no memory.
\<close>

function write_frags :: "memsys \<Rightarrow> bytes \<Rightarrow> bool list \<Rightarrow> nat \<Rightarrow> u64 \<Rightarrow> nat \<Rightarrow> nat \<Rightarrow> memory \<Rightarrow> (bool \<times> memory) res" where
  "write_frags ms data be sz frag_addr left dptr mem =
     (case genMemFragmentRequest (line ms) frag_addr sz be left of (predicate, frag, left') \<Rightarrow>
      let flt = (predicate \<and> translate_fault ms frag_addr frag);
          mem' = (if predicate \<and> \<not> flt \<and> locked_write ms \<and> \<not> no_access ms
                  then mem_write mem frag_addr (take frag (drop dptr data)) else mem)
      in if flt \<or> left' = 0 then Inr (flt, mem')
         else if frag = 0 then Inl Endless
         else write_frags ms data be sz (frag_addr + of_nat frag) left' (dptr + frag) mem')"
  by pat_completeness auto
termination
  by (relation "measure (\<lambda>(ms, data, be, sz, fa, left, d, m). left)") (auto dest!: fragment_sizes [OF sym])

declare write_frags.simps [simp del]

definition writeMem :: "memsys \<Rightarrow> bytes \<Rightarrow> u64 \<Rightarrow> u64 \<Rightarrow> nat \<Rightarrow> bool list \<Rightarrow> memory \<times> cpu \<Rightarrow> (bool \<times> memory \<times> cpu) res" where
  "writeMem ms data pc addr sz be st =
     (case st of (mem, u) \<Rightarrow>
      res_bind (rec_store addr sz u) (\<lambda>u1.
      res_bind (write_frags ms data be sz addr sz 0 mem) (\<lambda>(flt, mem').
        Inr (flt \<and> \<not> prefetch ms, mem', rec_mem pc addr u1))))"

text \<open>
  An atomic access; \<open>op\<close> is the operation applied to the old bytes. It may not cross a cache line
  (\<open>panic\<close> otherwise). The recorded load is what the data buffer holds afterwards.
\<close>

definition amoMem :: "memsys \<Rightarrow> (bytes \<Rightarrow> bytes) \<Rightarrow> u64 \<Rightarrow> u64 \<Rightarrow> bytes \<Rightarrow> nat \<Rightarrow> memory \<times> cpu \<Rightarrow> (bool \<times> bytes \<times> memory \<times> cpu) res" where
  "amoMem ms op pc addr data sz st =
     (case st of (mem, u) \<Rightarrow>
      if (addr + of_nat sz - 1) AND NOT (of_nat (line ms) - 1) > addr then Inl (ExitProg 1)
      else let flt = translate_fault ms addr sz;
               acc = (\<not> flt \<and> \<not> no_access ms);
               data' = (if acc then mem_read mem addr sz else data);
               mem' = (if acc then mem_write mem addr (op (mem_read mem addr sz)) else mem)
           in if flt \<and> prefetch ms then Inr (False, data', mem', u)
              else res_bind (rec_load addr data' sz u) (\<lambda>u'. Inr (flt, data', mem', rec_mem pc addr u')))"

section \<open>System calls\<close>

text \<open>
  \<open>EmuLinux::syscall\<close> and \<open>SyscallDesc::doSyscall\<close>: the entry is recorded with the five argument
  registers, the buffers the call wrote are recorded while it runs (\<open>exec\<close>, the emulation of the call,
  is given as the buffers it reports), and the result is recorded whatever it is, also when the call has to be retried.
\<close>

record sysret =
  sv_name :: string
  sv_suppressed :: bool
  sv_retry :: bool
  sv_value :: u64
  sv_buffers :: "(u64 \<times> u64 \<times> bytes) list"

definition on_coll :: "(collector \<Rightarrow> collector res) \<Rightarrow> cpu \<Rightarrow> cpu res" where
  "on_coll f u = (if needCreateCkpt u then res_bind (f (coll u)) (\<lambda>k. Inr (u\<lparr>coll := k\<rparr>)) else Inr u)"

definition doSyscall :: "u64 \<Rightarrow> sysret \<Rightarrow> cpu \<Rightarrow> cpu res" where
  "doSyscall pc r u =
     res_bind (res_fold (\<lambda>(ret, addr, data). on_coll (ckpt_add_sysexe pc ret addr (of_nat (length data)) data)) (sv_buffers r) u)
       (on_coll (ckpt_add_sysret pc (sv_name r) (\<not> sv_suppressed r) (sv_value r)))"

definition emu_syscall :: "u64 \<Rightarrow> (u16 \<Rightarrow> u64) \<Rightarrow> sysret \<Rightarrow> cpu \<Rightarrow> cpu res" where
  "emu_syscall pc regs r u =
     res_bind (on_coll (ckpt_add_sysenter pc (ucast (regs 17)) (map regs [10, 11, 12, 13, 14])) u) (doSyscall pc r)"

section \<open>One instruction\<close>

text \<open>
  What \<open>curStaticInst->execute\<close> does to the recorder: loads that were read, stores, atomic accesses and a system
  call, in order. \<open>step_fault\<close> says that it returned a fault.
\<close>

datatype event = LoadEv u64 bytes | StoreEv u64 nat | AmoEv u64 bytes | SysEv "u16 \<Rightarrow> u64" sysret

fun do_event :: "u64 \<Rightarrow> event \<Rightarrow> cpu \<Rightarrow> cpu res" where
  "do_event pc (LoadEv a bs) u = rec_load a bs (length bs) (rec_mem pc a u)"
| "do_event pc (StoreEv a n) u = res_bind (rec_store a n u) (\<lambda>u'. Inr (rec_mem pc a u'))"
| "do_event pc (AmoEv a bs) u = res_bind (rec_load a bs (length bs) u) (\<lambda>u'. Inr (rec_mem pc a u'))"
| "do_event pc (SysEv regs r) u = emu_syscall pc regs r u"

record step =
  step_inst :: CpuInst
  step_thread :: SimpleThread
  step_events :: "event list"
  step_fault :: bool

abbreviation step_pc :: "step \<Rightarrow> u64" where "step_pc x \<equiv> th_pc (step_thread x)"

text \<open>Before execution: whether the instruction is recorded.\<close>

definition tick_begin :: "step \<Rightarrow> cpu \<Rightarrow> (bool \<times> cpu) res" where
  "tick_begin x u =
     (let u1 = (if isSyscall (step_inst x) then u\<lparr>preinsts := {}\<rparr> else u);
          valid = hasValidCkpt (coll u1);
          u2 = u1\<lparr>startlog := valid, needCreateCkpt := valid\<rparr>
      in case old u of
           None \<Rightarrow> Inr (False, u2)
         | Some od \<Rightarrow> res_bind (isCkptInst (step_pc x) od) (\<lambda>bench.
             Inr (bench, if bench then u2 else u2\<lparr>startlog := False, needCreateCkpt := False\<rparr>)))"

text \<open>A restored run: instructions of the benchmark are counted, and the first one outside it is a call.\<close>

definition tick_restored :: "bool \<Rightarrow> oldckpt \<Rightarrow> cpu \<Rightarrow> cpu res" where
  "tick_restored bench od u =
     (let u1 = (if bench then u\<lparr>benchinsts := benchinsts u + 1\<rparr> else u)
      in res_bind (if \<not> bench \<and> last_isBenchInst u1
                   then res_bind (ckpt_insert_syscall od (ucast (takeSysNum u1)) (coll u1)) (\<lambda>k.
                          Inr (u1\<lparr>coll := k, takeSysNum := takeSysNum u1 + 1, preinsts := {}\<rparr>))
                   else Inr u1) (\<lambda>u2. Inr (u2\<lparr>last_isBenchInst := bench\<rparr>)))"

definition tick_start :: "step \<Rightarrow> u64 \<Rightarrow> cpu \<Rightarrow> cpu res" where
  "tick_start x n u =
     (case isCkptStart n (coll u) of
        (None, k) \<Rightarrow> Inr (u\<lparr>coll := k\<rparr>)
      | (Some len, k) \<Rightarrow>
          let th = step_thread x in
          res_bind (addCkpt n len (map (th_int th) (map of_nat [0..<32])) (map (th_float th) (map of_nat [0..<32]))
                      (th_pc th) (th_npc th) (instnums u) k) (\<lambda>k'. Inr (u\<lparr>coll := k'\<rparr>)))"

text \<open>
  The end of a slice. Without \<open>strictLength\<close> the slice goes on until an uncompressed instruction that is no system
  call and whose address was not executed since the last call: the loader replaces it by a jump. The first
  component of the result is false when the collector exits.
\<close>

definition tick_end :: "step \<Rightarrow> u64 \<Rightarrow> cpu \<Rightarrow> (bool \<times> cpu) res" where
  "tick_end x n u =
     (let i = step_inst x; pc = step_pc x in
      case pendingCkpts (coll u) of
        [] \<Rightarrow> Inl OutOfBounds
      | c # _ \<Rightarrow>
          res_bind (if n \<ge> ck_startnum c + ck_length c
                    then if strictLength u
                         then res_bind (ckpt_detectOver n 0 (instnums u) (coll u)) (\<lambda>(done, k). Inr (\<not> done, u\<lparr>coll := k\<rparr>))
                         else if \<not> isCompressed i \<and> \<not> isSyscall i \<and> pc \<notin> preinsts u
                         then res_bind (ckpt_detectOver n pc (instnums u) (coll u)) (\<lambda>(done, k). Inr (\<not> done, u\<lparr>coll := k\<rparr>))
                         else Inr (True, u)
                    else Inr (True, u)) (\<lambda>(go, u').
            Inr (go, if go \<and> \<not> isCompressed i \<and> \<not> strictLength u' then u'\<lparr>preinsts := insert pc (preinsts u')\<rparr> else u')))"

definition tick_commit :: "step \<Rightarrow> u64 \<Rightarrow> bool \<Rightarrow> cpu \<Rightarrow> (bool \<times> cpu) res" where
  "tick_commit x n0 bench u =
     res_bind (if traceOpen (trc u)
               then res_bind (record_traces (\<lambda>_. True) (step_thread x) (StaticInst.truncate (step_inst x)) (trc u))
                      (\<lambda>(go, t). Inr (go, u\<lparr>trc := t\<rparr>))
               else Inr (True, u)) (\<lambda>(go, u1).
     if \<not> go then Inr (False, u1)
     else res_bind (case old u1 of None \<Rightarrow> Inr u1 | Some od \<Rightarrow> tick_restored bench od u1) (\<lambda>u2.
          let n = (if old u2 \<noteq> None \<and> bench then benchinsts u2 else n0) in
          res_bind (if startlog u2
                    then res_bind (ckpt_addinst (step_pc x) (coll u2)) (\<lambda>k.
                           Inr (u2\<lparr>instnums := recordinst (step_inst x) (instnums u2), coll := k\<rparr>))
                    else Inr u2) (\<lambda>u3.
          res_bind (if old u3 = None \<or> bench then tick_start x n u3 else Inr u3) (\<lambda>u4.
            if startlog u4 then tick_end x n u4 else Inr (True, u4)))))"

text \<open>
  The body of \<open>tick\<close> from the decoded instruction on: \<open>numInst\<close> is read before the instruction is
  counted. A faulting instruction is neither counted nor traced.
\<close>

definition tick :: "step \<Rightarrow> cpu \<Rightarrow> (bool \<times> cpu) res" where
  "tick x u =
     res_bind (tick_begin x u) (\<lambda>(bench, u1).
     res_bind (res_fold (do_event (step_pc x)) (step_events x) u1) (\<lambda>u2.
       if step_fault x then Inr (True, u2)
       else tick_commit x (numInst u1) bench
              (if isLastUop (step_inst x) then u2\<lparr>numInst := numInst u2 + 1\<rparr> else u2)))"

section \<open>Memory layout of the simulated process\<close>

text \<open>
  The constructor of \<open>RiscvProcess64\<close> (\<open>arch/riscv/process.cc\<close>): stack, mmap and break addresses come from the settings where they are
  set, and are written to the settings where they are not. \<open>maxAddr\<close> is the end of the program image.
\<close>

definition roundUp :: "u64 \<Rightarrow> u64" where
  "roundUp a = (a + 4095) AND NOT 4095"

definition process_layout :: "u64 \<Rightarrow> u64 \<Rightarrow> u64 \<Rightarrow> CkptSettings \<Rightarrow> (u64 \<times> u64 \<times> u64) \<times> CkptSettings" where
  "process_layout stackbase mmapend0 maxAddr s =
     (let stack = (if stack_base s \<noteq> 0 then stack_base s else stackbase);
          s1 = (if stack_base s \<noteq> 0 then s else s\<lparr>stack_base := stackbase\<rparr>);
          mmap = (if mmapend s1 \<noteq> 0 then mmapend s1 else mmapend0);
          s2 = (if mmapend s1 \<noteq> 0 then s1 else s1\<lparr>mmapend := mmapend0\<rparr>);
          raw = roundUp maxAddr
      in if brk_point s2 \<noteq> 0
         then ((stack, mmap, if brk_point s2 < raw then raw else roundUp (brk_point s2)), s2)
         else ((stack, mmap, raw), s2\<lparr>brk_point := raw\<rparr>))"

end
