(* ===== verification/SliceRun.thy ===== *)
theory SliceRun
  imports AtomicTick
begin

unbundle bit_operations_syntax

text \<open>
  Runs of the recorder: what \<open>tick\<close> leaves alone, which instruction a slice may end with, and that a pending slice
  holds exactly what the instructions since its start did.
\<close>

section \<open>Frames\<close>

text \<open>The recorder's hooks change the two collectors only, and of the collector only the pending slices.\<close>

definition same_cpu :: "cpu \<Rightarrow> cpu \<Rightarrow> bool" where
  "same_cpu u u' \<longleftrightarrow> (\<exists>cs t. u' = u\<lparr>coll := (coll u)\<lparr>pendingCkpts := cs\<rparr>, trc := t\<rparr>)"

lemma same_cpu_refl [simp]: "same_cpu u u"
  unfolding same_cpu_def by (rule exI [of _ "pendingCkpts (coll u)"], rule exI [of _ "trc u"]) simp

lemma same_cpu_trans: "same_cpu u v \<Longrightarrow> same_cpu v w \<Longrightarrow> same_cpu u w"
  unfolding same_cpu_def by (elim exE, rule exI, rule exI) (simp (no_asm_simp))

lemma same_cpuD:
  assumes "same_cpu u u'"
  shows "preinsts u' = preinsts u" "startlog u' = startlog u" "needCreateCkpt u' = needCreateCkpt u" "old u' = old u"
    "strictLength u' = strictLength u" "numInst u' = numInst u" "instnums u' = instnums u"
    "files (coll u') = files (coll u)" "ckptidx (coll u') = ckptidx (coll u)" "ckptsettings (coll u') = ckptsettings (coll u)"
    "compst (coll u') = compst (coll u)" "oldstart (coll u') = oldstart (coll u)"
  using assms unfolding same_cpu_def by (elim exE, simp (no_asm_simp))+

section \<open>What an instruction does to a slice\<close>

definition ck_load :: "u64 \<Rightarrow> bytes \<Rightarrow> u8 \<Rightarrow> CkptInfo \<Rightarrow> CkptInfo res" where
  "ck_load addr data sz c = res_bind (addload addr data sz (ck_preAccess c, ck_loads c))
     (\<lambda>(pre, loads). Inr (c\<lparr>ck_preAccess := pre, ck_loads := loads\<rparr>))"

definition ck_store :: "u64 \<Rightarrow> u8 \<Rightarrow> CkptInfo \<Rightarrow> CkptInfo res" where
  "ck_store addr sz c = res_bind (addstore addr sz (ck_preAccess c, ck_loads c))
     (\<lambda>(pre, loads). Inr (c\<lparr>ck_preAccess := pre, ck_loads := loads\<rparr>))"

definition ck_sysexe :: "u64 \<Rightarrow> u64 \<times> u64 \<times> bytes \<Rightarrow> CkptInfo \<Rightarrow> CkptInfo res" where
  "ck_sysexe pc b c = (case b of (ret, addr, data) \<Rightarrow>
     res_bind (add_sysexe pc ret addr (of_nat (length data)) data (ck_sysinfos c)) (\<lambda>infos. Inr (c\<lparr>ck_sysinfos := infos\<rparr>)))"

definition ck_sysenter :: "u64 \<Rightarrow> (u16 \<Rightarrow> u64) \<Rightarrow> CkptInfo \<Rightarrow> CkptInfo res" where
  "ck_sysenter pc regs c =
     Inr (c\<lparr>ck_sysinfos := add_sysenter pc (ucast (regs 17)) (map regs [10, 11, 12, 13, 14]) (ck_sysinfos c)\<rparr>)"

definition ck_sysret :: "u64 \<Rightarrow> sysret \<Rightarrow> CkptInfo \<Rightarrow> CkptInfo res" where
  "ck_sysret pc r c = Inr (c\<lparr>ck_sysinfos := add_sysret pc (sv_name r) (\<not> sv_suppressed r) (sv_value r) (ck_sysinfos c)\<rparr>)"

fun ck_event :: "u64 \<Rightarrow> event \<Rightarrow> CkptInfo \<Rightarrow> CkptInfo res" where
  "ck_event pc (LoadEv a bs) c = ck_load a bs (of_nat (length bs)) c"
| "ck_event pc (StoreEv a n) c = ck_store a (of_nat n) c"
| "ck_event pc (AmoEv a bs) c = ck_load a bs (of_nat (length bs)) c"
| "ck_event pc (SysEv regs r) c =
     res_bind (ck_sysenter pc regs c) (\<lambda>c1. res_bind (res_fold (ck_sysexe pc) (sv_buffers r) c1) (ck_sysret pc r))"

lemma ck_event_funs:
  "ck_event pc (LoadEv a bs) = ck_load a bs (of_nat (length bs))"
  "ck_event pc (StoreEv a n) = ck_store a (of_nat n)"
  "ck_event pc (AmoEv a bs) = ck_load a bs (of_nat (length bs))"
  "ck_event pc (SysEv regs r) =
     (\<lambda>c. res_bind (ck_sysenter pc regs c) (\<lambda>c1. res_bind (res_fold (ck_sysexe pc) (sv_buffers r) c1) (ck_sysret pc r)))"
  by (rule ext, simp)+

definition ck_step :: "step \<Rightarrow> CkptInfo \<Rightarrow> CkptInfo res" where
  "ck_step x c = res_bind (res_fold (ck_event (step_pc x)) (step_events x) c) (\<lambda>c'.
     Inr (if step_fault x then c' else c'\<lparr>ck_textAccess := addinst (step_pc x) (ck_textAccess c')\<rparr>))"

text \<open>A hook that runs on every pending slice.\<close>

definition hooked :: "(CkptInfo \<Rightarrow> CkptInfo res) \<Rightarrow> cpu \<Rightarrow> cpu \<Rightarrow> bool" where
  "hooked f u u' \<longleftrightarrow> same_cpu u u' \<and> list_all2 (\<lambda>c c'. f c = Inr c') (pendingCkpts (coll u)) (pendingCkpts (coll u'))"

lemma hooked_bind:
  assumes "hooked f u v" and "hooked g v w"
  shows "hooked (\<lambda>c. res_bind (f c) g) u w"
proof -
  have "list_all2 (\<lambda>c c'. res_bind (f c) g = Inr c') (pendingCkpts (coll u)) (pendingCkpts (coll w))"
    by (rule list_all2_trans [where ?P1.0 = "\<lambda>c c'. f c = Inr c'" and ?P2.0 = "\<lambda>c c'. g c = Inr c'"
          and bs = "pendingCkpts (coll v)"]) (use assms in \<open>simp_all add: hooked_def\<close>)
  then show ?thesis using assms same_cpu_trans by (auto simp: hooked_def)
qed

lemma hooked_none: "hooked Inr u u"
  by (simp add: hooked_def list_all2_same)

lemma hooked_fold:
  assumes "res_fold f xs u = Inr u'" and "\<And>x v v'. P v \<Longrightarrow> f x v = Inr v' \<Longrightarrow> hooked (g x) v v' \<and> P v'" and "P u"
  shows "hooked (res_fold g xs) u u' \<and> P u'"
  using assms(1,3)
proof (induction xs arbitrary: u)
  case (Cons x xs)
  then obtain v where v: "f x u = Inr v" "res_fold f xs v = Inr u'" by (auto simp: res_bind_eq_Inr)
  then have "hooked (g x) u v" "P v" using assms(2) Cons.prems(2) by blast+
  then show ?case using hooked_bind [of "g x" u v "res_fold g xs" u'] Cons.IH [OF v(2)] by simp
qed (simp add: hooked_def list.rel_eq)

definition recording :: "cpu \<Rightarrow> bool" where
  "recording u \<longleftrightarrow> needCreateCkpt u \<and> startlog u"

definition idle :: "cpu \<Rightarrow> bool" where
  "idle u \<longleftrightarrow> \<not> needCreateCkpt u \<and> \<not> startlog u"

lemma same_cpu_flags:
  "same_cpu u u' \<Longrightarrow> recording u' = recording u \<and> idle u' = idle u"
  by (simp add: recording_def idle_def same_cpuD)

lemma hooked_flags: "hooked f u u' \<Longrightarrow> recording u' = recording u \<and> idle u' = idle u"
  using same_cpu_flags by (simp add: hooked_def)

lemma hooked_on_pending:
  assumes "on_pending f (coll u) = Inr k"
  shows "hooked f u (u\<lparr>coll := k\<rparr>)"
proof -
  obtain cs where cs: "list_all2 (\<lambda>c c'. f c = Inr c') (pendingCkpts (coll u)) cs" "k = (coll u)\<lparr>pendingCkpts := cs\<rparr>"
    using assms by (auto simp: on_pending_Inr)
  have "same_cpu u (u\<lparr>coll := k\<rparr>)" unfolding same_cpu_def cs(2)
    by (rule exI [of _ cs], rule exI [of _ "trc u"]) simp
  with cs show ?thesis by (simp add: hooked_def)
qed

lemma hooked_rec_mem: "hooked Inr u (rec_mem pc a u)"
proof -
  have "same_cpu u (u\<lparr>trc := t\<rparr>)" for t
    unfolding same_cpu_def by (rule exI [of _ "pendingCkpts (coll u)"], rule exI [of _ t]) simp
  then show ?thesis by (simp add: hooked_def rec_mem_def list.rel_eq)
qed

lemma res_bind_Inr [simp]: "res_bind r Inr = r"
  by (cases r) simp_all

lemma hooked_rec_load:
  assumes "recording u" and "rec_load a data n u = Inr u'"
  shows "hooked (ck_load a data (of_nat n)) u u'"
proof -
  have "ckpt_addload a data (of_nat n) = on_pending (ck_load a data (of_nat n))"
    unfolding ckpt_addload_def ck_load_def ..
  then show ?thesis using assms by (auto simp: recording_def rec_load_def res_bind_eq_Inr intro: hooked_on_pending)
qed

lemma hooked_rec_store:
  assumes "recording u" and "rec_store a n u = Inr u'"
  shows "hooked (ck_store a (of_nat n)) u u'"
proof -
  have "ckpt_addstore a (of_nat n) = on_pending (ck_store a (of_nat n))"
    unfolding ckpt_addstore_def ck_store_def ..
  then show ?thesis using assms by (auto simp: recording_def rec_store_def res_bind_eq_Inr intro: hooked_on_pending)
qed

lemma hooked_on_coll:
  assumes "recording u" and "on_coll (on_pending f) u = Inr u'"
  shows "hooked f u u'"
  using assms by (auto simp: recording_def on_coll_def res_bind_eq_Inr intro: hooked_on_pending)

lemma hooked_syscall:
  assumes "recording u" and "emu_syscall pc regs r u = Inr u'"
  shows "hooked (ck_event pc (SysEv regs r)) u u'"
proof -
  have enter: "ckpt_add_sysenter pc (ucast (regs 17)) (map regs [10, 11, 12, 13, 14]) = on_pending (ck_sysenter pc regs)"
    unfolding ckpt_add_sysenter_def ck_sysenter_def ..
  have ret: "ckpt_add_sysret pc (sv_name r) (\<not> sv_suppressed r) (sv_value r) = on_pending (ck_sysret pc r)"
    unfolding ckpt_add_sysret_def ck_sysret_def ..
  have exe: "(\<lambda>(ret, addr, data). on_coll (ckpt_add_sysexe pc ret addr (of_nat (length data)) data)) = (\<lambda>b. on_coll (on_pending (ck_sysexe pc b)))"
    unfolding ckpt_add_sysexe_def ck_sysexe_def by (auto simp: fun_eq_iff)
  obtain v w where v: "on_coll (on_pending (ck_sysenter pc regs)) u = Inr v"
    and w: "res_fold (\<lambda>b. on_coll (on_pending (ck_sysexe pc b))) (sv_buffers r) v = Inr w"
    and u': "on_coll (on_pending (ck_sysret pc r)) w = Inr u'"
    using assms(2) unfolding emu_syscall_def doSyscall_def enter ret exe by (auto simp: res_bind_eq_Inr)
  have hv: "hooked (ck_sysenter pc regs) u v" using hooked_on_coll [OF assms(1) v] .
  then have rv: "recording v" using assms(1) hooked_flags by blast
  have "hooked (res_fold (ck_sysexe pc) (sv_buffers r)) v w \<and> recording w"
    by (rule hooked_fold [where P = recording, OF w _ rv]) (use hooked_on_coll hooked_flags in blast)
  moreover from this have "hooked (ck_sysret pc r) w u'" using hooked_on_coll [OF _ u'] by blast
  ultimately have "hooked (\<lambda>c. res_bind (ck_sysenter pc regs c) (\<lambda>c1. res_bind (res_fold (ck_sysexe pc) (sv_buffers r) c1) (ck_sysret pc r))) u u'"
    using hv by (intro hooked_bind) auto
  then show ?thesis by (simp only: ck_event_funs)
qed

lemma hooked_event:
  assumes "recording u" and "do_event pc e u = Inr u'"
  shows "hooked (ck_event pc e) u u' \<and> recording u'"
proof -
  have "hooked (ck_event pc e) u u'"
  proof (cases e)
    case (LoadEv a bs)
    have "recording (rec_mem pc a u)" using assms(1) hooked_flags [OF hooked_rec_mem] by blast
    then show ?thesis
      using hooked_bind [OF hooked_rec_mem hooked_rec_load] assms(2) LoadEv by (auto simp: ck_event_funs)
  next
    case (StoreEv a n)
    then obtain v where "rec_store a n u = Inr v" "u' = rec_mem pc a v" using assms(2) by (auto simp: res_bind_eq_Inr)
    then show ?thesis using hooked_bind [OF hooked_rec_store [OF assms(1)] hooked_rec_mem] StoreEv by (auto simp: ck_event_funs)
  next
    case (AmoEv a bs)
    then obtain v where "rec_load a bs (length bs) u = Inr v" "u' = rec_mem pc a v" using assms(2) by (auto simp: res_bind_eq_Inr)
    then show ?thesis using hooked_bind [OF hooked_rec_load [OF assms(1)] hooked_rec_mem] AmoEv by (auto simp: ck_event_funs)
  next
    case (SysEv regs r)
    then show ?thesis using hooked_syscall assms by simp
  qed
  then show ?thesis using assms(1) hooked_flags by blast
qed

lemma idle_event:
  assumes "idle u" and "do_event pc e u = Inr u'"
  shows "hooked Inr u u' \<and> idle u'"
proof -
  have fold: "res_fold (\<lambda>b. on_coll (f b)) bs v = Inr v' \<Longrightarrow> idle v \<Longrightarrow> v' = v" for f bs v v'
    by (induction bs) (auto simp: on_coll_def idle_def)
  have "u' = u \<or> (\<exists>a. u' = rec_mem pc a u)"
  proof (cases e)
    case (SysEv regs r)
    have "(\<lambda>(ret, addr, data). on_coll (ckpt_add_sysexe pc ret addr (of_nat (length data)) data)) =
        (\<lambda>b. on_coll (case b of (ret, addr, data) \<Rightarrow> ckpt_add_sysexe pc ret addr (of_nat (length data)) data))"
      by (auto simp: fun_eq_iff)
    then show ?thesis
      using assms SysEv fold by (auto simp: emu_syscall_def doSyscall_def on_coll_def [of _ u] idle_def res_bind_eq_Inr on_coll_def split: if_splits)
  qed (use assms in \<open>auto simp: idle_def rec_load_def rec_store_def rec_mem_def\<close>)
  then have "hooked Inr u u'" using hooked_rec_mem hooked_none by auto
  then show ?thesis using assms(1) hooked_flags by blast
qed

section \<open>One tick\<close>

text \<open>The object a slice starts with: made behind instruction number \<open>n\<close>, the one of step \<open>x\<close>.\<close>

definition slice_begun :: "step \<Rightarrow> u64 \<Rightarrow> CkptInfo \<Rightarrow> bool" where
  "slice_begun x n c \<longleftrightarrow> (\<exists>len warmup bench ns. c = CkptInfo_new n len warmup
     (map (th_int (step_thread x)) (map of_nat [0..<32])) (map (th_float (step_thread x)) (map of_nat [0..<32]))
     (step_pc x) (th_npc (step_thread x)) bench ns)"

lemma tick_start_effect:
  assumes "tick_start x n u = Inr u'"
  shows "\<exists>news idx. u' = u\<lparr>coll := (coll u)\<lparr>pendingCkpts := pendingCkpts (coll u) @ news, ckptidx := idx\<rparr>\<rparr> \<and>
    (news = [] \<or> (\<exists>c. news = [c] \<and> slice_begun x n c))"
proof (cases "isCkptStart n (coll u)")
  case (Pair r k)
  then obtain idx where k: "k = (coll u)\<lparr>ckptidx := idx\<rparr>"
    by (auto simp: isCkptStart_def Let_def split: if_splits intro: that [of "ckptidx (coll u)"] that)
  show ?thesis
  proof (cases r)
    case None
    then show ?thesis using assms Pair k by (intro exI [of _ "[]"] exI [of _ idx]) (simp add: tick_start_def)
  next
    case (Some len)
    let ?th = "step_thread x"
    define new where "new = (\<lambda>w b. CkptInfo_new n len w (map (th_int ?th) (map of_nat [0..<32]))
        (map (th_float ?th) (map of_nat [0..<32])) (th_pc ?th) (th_npc ?th) b (instnums u))"
    obtain w b where "u' = u\<lparr>coll := k\<lparr>pendingCkpts := pendingCkpts k @ [new w b]\<rparr>\<rparr>"
      using assms Pair Some unfolding tick_start_def addCkpt_def new_def
      by (auto simp: Let_def res_bind_eq_Inr simp del: upt_rec_numeral split: if_splits)
    moreover have "slice_begun x n (new w b)" unfolding slice_begun_def new_def by blast
    ultimately show ?thesis by (intro exI [of _ "[new w b]"] exI [of _ idx]) (simp add: k)
  qed
qed

definition may_end :: "step \<Rightarrow> cpu \<Rightarrow> bool" where
  "may_end x u \<longleftrightarrow> strictLength u \<or> (\<not> isCompressed (step_inst x) \<and> \<not> isSyscall (step_inst x) \<and> step_pc x \<notin> preinsts u)"

definition exit_addr :: "step \<Rightarrow> cpu \<Rightarrow> u64" where
  "exit_addr x u = (if strictLength u then 0 else step_pc x)"

lemma tick_end_effect:
  assumes "tick_end x n u = Inr (go, u')"
  shows "(go \<longrightarrow> preinsts u' = preinsts u \<union> (if isCompressed (step_inst x) \<or> strictLength u then {} else {step_pc x})) \<and>
    old u' = old u \<and> strictLength u' = strictLength u \<and> numInst u' = numInst u \<and>
    (coll u' = coll u \<and> go \<or>
     may_end x u \<and> (\<exists>cs fs s. over_loop (oldstart (coll u)) n (exit_addr x u) (instnums u) (pendingCkpts (coll u)) (compst (coll u)) = Inr (cs, fs, s) \<and>
       coll u' = (coll u)\<lparr>pendingCkpts := cs, files := files (coll u) @ fs, compst := s\<rparr>))"
proof -
  obtain c cs where p: "pendingCkpts (coll u) = c # cs" using assms by (cases "pendingCkpts (coll u)") (auto simp: tick_end_def)
  show ?thesis
  proof (cases "ck_startnum c + ck_length c \<le> n \<and> may_end x u")
    case True
    then obtain d k where d: "ckpt_detectOver n (exit_addr x u) (instnums u) (coll u) = Inr (d, k)"
      "go = (\<not> d)" "u' = (if go \<and> \<not> isCompressed (step_inst x) \<and> \<not> strictLength u then u\<lparr>coll := k, preinsts := insert (step_pc x) (preinsts u)\<rparr> else u\<lparr>coll := k\<rparr>)"
      using assms by (cases "strictLength u") (auto simp: tick_end_def p may_end_def exit_addr_def res_bind_eq_Inr Let_def)
    then show ?thesis using True by (auto simp: ckpt_detectOver_def res_bind_eq_Inr Let_def)
  next
    case False
    then have "go \<and> u' = (if \<not> isCompressed (step_inst x) \<and> \<not> strictLength u then u\<lparr>preinsts := insert (step_pc x) (preinsts u)\<rparr> else u)"
      using assms by (auto simp: tick_end_def p may_end_def not_le res_bind_eq_Inr Let_def split: if_splits)
    then show ?thesis by auto
  qed
qed

text \<open>The slices behind the instruction, before it is decided whether they end.\<close>

definition stepped :: "step \<Rightarrow> cpu \<Rightarrow> CkptInfo list \<Rightarrow> bool" where
  "stepped x u cs \<longleftrightarrow> (\<exists>old_cs news. list_all2 (\<lambda>c c'. ck_step x c = Inr c') (pendingCkpts (coll u)) old_cs \<and>
     cs = old_cs @ news \<and> (news = [] \<or> (\<exists>c. news = [c] \<and> slice_begun x (numInst u) c \<and> \<not> step_fault x)))"

text \<open>The state of the execution proper: the events have been recorded.\<close>

lemma tick_events:
  assumes "old u = None" and "tick x u = Inr (go, u')"
  obtains u2 where "same_cpu (u\<lparr>preinsts := (if isSyscall (step_inst x) then {} else preinsts u),
        startlog := hasValidCkpt (coll u), needCreateCkpt := hasValidCkpt (coll u)\<rparr>) u2"
    "list_all2 (\<lambda>c c'. res_fold (ck_event (step_pc x)) (step_events x) c = Inr c') (pendingCkpts (coll u)) (pendingCkpts (coll u2))"
    "(if step_fault x then Inr (True, u2) else tick_commit x (numInst u) False
       (if isLastUop (step_inst x) then u2\<lparr>numInst := numInst u2 + 1\<rparr> else u2)) = Inr (go, u')"
proof -
  define u1 where "u1 = u\<lparr>preinsts := (if isSyscall (step_inst x) then {} else preinsts u),
    startlog := hasValidCkpt (coll u), needCreateCkpt := hasValidCkpt (coll u)\<rparr>"
  have b: "tick_begin x u = Inr (False, u1)" using assms(1) by (simp add: tick_begin_def u1_def Let_def)
  have n1: "numInst u1 = numInst u" by (simp add: u1_def)
  obtain u2 where u2: "res_fold (do_event (step_pc x)) (step_events x) u1 = Inr u2"
    "(if step_fault x then Inr (True, u2) else tick_commit x (numInst u) False
       (if isLastUop (step_inst x) then u2\<lparr>numInst := numInst u2 + 1\<rparr> else u2)) = Inr (go, u')"
    using assms(2) b n1 by (auto simp: tick_def res_bind_eq_Inr cong: if_cong)
  have "same_cpu u1 u2 \<and> list_all2 (\<lambda>c c'. res_fold (ck_event (step_pc x)) (step_events x) c = Inr c')
      (pendingCkpts (coll u)) (pendingCkpts (coll u2))"
  proof (cases "hasValidCkpt (coll u)")
    case True
    then have "recording u1" by (simp add: recording_def u1_def)
    then have "hooked (res_fold (ck_event (step_pc x)) (step_events x)) u1 u2"
      using hooked_fold [where P = recording, OF u2(1)] hooked_event by blast
    then show ?thesis by (simp add: hooked_def u1_def)
  next
    case False
    then have "idle u1" by (simp add: idle_def u1_def)
    then have "hooked (res_fold (\<lambda>_. Inr) (step_events x)) u1 u2"
      using hooked_fold [where P = idle and g = "\<lambda>_. Inr", OF u2(1)] idle_event by blast
    then show ?thesis using False by (simp add: hooked_def u1_def hasValidCkpt_def)
  qed
  then show ?thesis using that [OF _ _ u2(2)] unfolding u1_def by blast
qed

lemma commit_parts:
  assumes "tick_commit x n False u = Inr (go, u')" and "old u = None"
  obtains (trace_end) t where "\<not> go" "u' = u\<lparr>trc := t\<rparr>"
  | (commit) u3 u4 where "old u3 = None" "preinsts u3 = preinsts u" "strictLength u3 = strictLength u" "numInst u3 = numInst u"
      "startlog u3 = startlog u" "tick_start x n u3 = Inr u4"
      "coll u3 = (coll u)\<lparr>pendingCkpts := (if startlog u then map (\<lambda>c. c\<lparr>ck_textAccess := addinst (step_pc x) (ck_textAccess c)\<rparr>) (pendingCkpts (coll u))
         else pendingCkpts (coll u))\<rparr>"
      "(if startlog u4 then tick_end x n u4 else Inr (True, u4)) = Inr (go, u')"
proof -
  obtain go1 t where t: "(if traceOpen (trc u) then res_bind (record_traces (\<lambda>_. True) (step_thread x) (StaticInst.truncate (step_inst x)) (trc u))
      (\<lambda>(go, t). Inr (go, u\<lparr>trc := t\<rparr>)) else Inr (True, u)) = Inr (go1, u\<lparr>trc := t\<rparr>)"
    using assms(1) by (cases "traceOpen (trc u)") (auto simp: tick_commit_def res_bind_eq_Inr intro: that [of True "trc u"])
  show ?thesis
  proof (cases go1)
    case False
    then show ?thesis using assms(1) trace_end [of t] unfolding tick_commit_def t by simp
  next
    case True
    define u3 where "u3 = (if startlog u
      then u\<lparr>trc := t, instnums := recordinst (step_inst x) (instnums u),
             coll := (coll u)\<lparr>pendingCkpts := map (\<lambda>c. c\<lparr>ck_textAccess := addinst (step_pc x) (ck_textAccess c)\<rparr>) (pendingCkpts (coll u))\<rparr>\<rparr>
      else u\<lparr>trc := t\<rparr>)"
    have ai: "ckpt_addinst (step_pc x) (coll u) =
        Inr ((coll u)\<lparr>pendingCkpts := map (\<lambda>c. c\<lparr>ck_textAccess := addinst (step_pc x) (ck_textAccess c)\<rparr>) (pendingCkpts (coll u))\<rparr>)"
      by (simp add: ckpt_addinst_def on_pending_def res_map_pure)
    have "old u3 = None" using assms(2) by (simp add: u3_def)
    then obtain u4 where "tick_start x n u3 = Inr u4" "(if startlog u4 then tick_end x n u4 else Inr (True, u4)) = Inr (go, u')"
      using assms(1) True unfolding tick_commit_def t
      by (cases "startlog u") (auto simp: assms(2) Let_def u3_def ai res_bind_eq_Inr)
    then show ?thesis using commit [of u3 u4] assms(2) by (simp add: u3_def)
  qed
qed

lemma stepped_commit:
  assumes events: "list_all2 (\<lambda>c c'. res_fold (ck_event (step_pc x)) (step_events x) c = Inr c') (pendingCkpts (coll u)) cs"
    and "\<not> step_fault x" and "news = [] \<or> (\<exists>c. news = [c] \<and> slice_begun x (numInst u) c)"
  shows "stepped x u (map (\<lambda>c. c\<lparr>ck_textAccess := addinst (step_pc x) (ck_textAccess c)\<rparr>) cs @ news)"
proof -
  have "list_all2 (\<lambda>c c'. ck_step x c = Inr c') (pendingCkpts (coll u)) (map (\<lambda>c. c\<lparr>ck_textAccess := addinst (step_pc x) (ck_textAccess c)\<rparr>) cs)"
    unfolding list_all2_map2 by (rule list_all2_mono [OF events]) (simp add: ck_step_def assms(2))
  then show ?thesis unfolding stepped_def using assms(2,3) by blast
qed

lemma stepped_fault:
  assumes "list_all2 (\<lambda>c c'. res_fold (ck_event (step_pc x)) (step_events x) c = Inr c') (pendingCkpts (coll u)) cs" and "step_fault x"
  shows "stepped x u cs"
  unfolding stepped_def using list_all2_mono [OF assms(1), of "\<lambda>c c'. ck_step x c = Inr c'"] assms(2)
  by (intro exI [of _ cs] exI [of _ "[]"]) (simp add: ck_step_def)

definition counted :: "step \<Rightarrow> u64" where
  "counted x = (if \<not> step_fault x \<and> isLastUop (step_inst x) then 1 else 0)"

definition marks :: "step \<Rightarrow> cpu \<Rightarrow> u64 set" where
  "marks x u = (if hasValidCkpt (coll u) \<and> \<not> step_fault x \<and> \<not> isCompressed (step_inst x) \<and> \<not> strictLength u then {step_pc x} else {})"

definition kept :: "step \<Rightarrow> cpu \<Rightarrow> u64 set" where
  "kept x u = (if isSyscall (step_inst x) then {} else preinsts u)"

definition went_on :: "step \<Rightarrow> cpu \<Rightarrow> cpu \<Rightarrow> bool" where
  "went_on x u u' \<longleftrightarrow> old u' = None \<and> strictLength u' = strictLength u \<and> numInst u' = numInst u + counted x \<and>
     preinsts u' = kept x u \<union> marks x u"

definition ended :: "step \<Rightarrow> cpu \<Rightarrow> cpu \<Rightarrow> bool" where
  "ended x u u' \<longleftrightarrow> \<not> step_fault x \<and> hasValidCkpt (coll u) \<and> may_end x u \<and> (\<exists>cs ns fs. stepped x u cs \<and>
     over_loop (oldstart (coll u)) (numInst u) (exit_addr x u) ns cs (compst (coll u)) = Inr (pendingCkpts (coll u'), fs, compst (coll u')) \<and>
     files (coll u') = files (coll u) @ fs)"

definition quiet :: "cpu \<Rightarrow> cpu \<Rightarrow> bool" where
  "quiet u u' \<longleftrightarrow> files (coll u') = files (coll u) \<and> compst (coll u') = compst (coll u)"

text \<open>The processor when the instruction is committed and it remains to be seen whether slices end.\<close>

definition committed :: "step \<Rightarrow> cpu \<Rightarrow> cpu \<Rightarrow> bool" where
  "committed x u v \<longleftrightarrow> files (coll v) = files (coll u) \<and> compst (coll v) = compst (coll u) \<and> oldstart (coll v) = oldstart (coll u) \<and>
     startlog v = hasValidCkpt (coll u) \<and> preinsts v = kept x u \<and> strictLength v = strictLength u \<and> old v = None \<and>
     numInst v = numInst u + counted x \<and> stepped x u (pendingCkpts (coll v))"

definition effect :: "step \<Rightarrow> bool \<Rightarrow> cpu \<Rightarrow> cpu \<Rightarrow> bool" where
  "effect x go u u' \<longleftrightarrow> (go \<longrightarrow> went_on x u u') \<and> oldstart (coll u') = oldstart (coll u) \<and>
     (quiet u u' \<and> (go \<longrightarrow> stepped x u (pendingCkpts (coll u'))) \<or> ended x u u')"

lemma committed_effect:
  assumes c: "committed x u v" and nf: "\<not> step_fault x"
    and e: "(if startlog v then tick_end x (numInst u) v else Inr (True, v)) = Inr (go, u')"
  shows "effect x go u u'"
proof (cases "hasValidCkpt (coll u)")
  case False
  then have "go" "u' = v" using e c by (simp_all add: committed_def)
  then show ?thesis using c False by (simp add: committed_def effect_def went_on_def quiet_def marks_def)
next
  case True
  then have te: "tick_end x (numInst u) v = Inr (go, u')" using e c by (simp add: committed_def)
  have me: "may_end x v \<longrightarrow> may_end x u" using c by (auto simp: committed_def may_end_def kept_def split: if_splits)
  have "went_on x u u'" if go
    using tick_end_effect [OF te] that c True nf by (auto simp: committed_def went_on_def marks_def)
  moreover have "quiet u u' \<and> stepped x u (pendingCkpts (coll u')) \<or> ended x u u'"
    using tick_end_effect [OF te] c True nf me
    by (auto simp: committed_def quiet_def ended_def exit_addr_def split del: if_split)
  moreover have "oldstart (coll u') = oldstart (coll u)" using tick_end_effect [OF te] c by (auto simp: committed_def)
  ultimately show ?thesis by (auto simp: effect_def)
qed

lemma tick_effect:
  assumes "old u = None" and "tick x u = Inr (go, u')"
  shows "effect x go u u'"
proof -
  let ?u1 = "u\<lparr>preinsts := kept x u, startlog := hasValidCkpt (coll u), needCreateCkpt := hasValidCkpt (coll u)\<rparr>"
  obtain u2 where u2: "same_cpu ?u1 u2"
    "list_all2 (\<lambda>c c'. res_fold (ck_event (step_pc x)) (step_events x) c = Inr c') (pendingCkpts (coll u)) (pendingCkpts (coll u2))"
    "(if step_fault x then Inr (True, u2) else tick_commit x (numInst u) False
       (if isLastUop (step_inst x) then u2\<lparr>numInst := numInst u2 + 1\<rparr> else u2)) = Inr (go, u')"
    using tick_events [OF assms] unfolding kept_def by blast
  note f2 = same_cpuD [OF u2(1), simplified]
  show ?thesis
  proof (cases "step_fault x")
    case True
    then show ?thesis using u2(3) f2 stepped_fault [OF u2(2) True] assms(1)
      by (simp add: effect_def went_on_def quiet_def counted_def marks_def)
  next
    case False
    define u2' where "u2' = (if isLastUop (step_inst x) then u2\<lparr>numInst := numInst u2 + 1\<rparr> else u2)"
    have g2: "old u2' = None" "preinsts u2' = kept x u" "strictLength u2' = strictLength u" "startlog u2' = hasValidCkpt (coll u)"
      "coll u2' = coll u2" "numInst u2' = numInst u + counted x"
      using f2 assms(1) False by (simp_all add: u2'_def counted_def)
    have "tick_commit x (numInst u) False u2' = Inr (go, u')" using u2(3) False by (simp add: u2'_def)
    then show ?thesis using g2(1)
    proof (cases rule: commit_parts)
      case (trace_end t)
      then show ?thesis using g2 f2 by (simp add: effect_def quiet_def)
    next
      case (commit u3 u4)
      obtain news idx where u4: "u4 = u3\<lparr>coll := (coll u3)\<lparr>pendingCkpts := pendingCkpts (coll u3) @ news, ckptidx := idx\<rparr>\<rparr>"
        "news = [] \<or> (\<exists>c. news = [c] \<and> slice_begun x (numInst u) c)"
        using tick_start_effect [OF commit(6)] by auto
      have "pendingCkpts (coll u2) = []" if "\<not> hasValidCkpt (coll u)" using that u2(2) by (simp add: hasValidCkpt_def)
      then have "pendingCkpts (coll u3) = map (\<lambda>c. c\<lparr>ck_textAccess := addinst (step_pc x) (ck_textAccess c)\<rparr>) (pendingCkpts (coll u2))"
        using commit(7) g2 by auto
      then have "stepped x u (pendingCkpts (coll u4))"
        using stepped_commit [OF u2(2) False u4(2)] by (simp add: u4(1))
      then have "committed x u u4" using commit(1-5,7) g2 f2 by (simp add: u4(1) committed_def)
      then show ?thesis using False commit(8) by (rule committed_effect)
    qed
  qed
qed

lemmas tick_effects = tick_effect [unfolded effect_def]

section \<open>Runs\<close>

fun ticks :: "step list \<Rightarrow> cpu \<Rightarrow> cpu res" where
  "ticks [] u = Inr u"
| "ticks (x # xs) u = res_bind (tick x u) (\<lambda>(go, u'). if go then ticks xs u' else Inl (ExitProg 0))"

lemma ticks_append: "ticks (xs @ ys) u = res_bind (ticks xs u) (ticks ys)"
proof (induction xs arbitrary: u)
  case (Cons x xs)
  then show ?case by (cases "tick x u") auto
qed simp

lemma ticks_snocE:
  assumes "ticks (xs @ [x]) u = Inr u'"
  obtains v where "ticks xs u = Inr v" "tick x v = Inr (True, u')"
  using assms by (auto simp: ticks_append res_bind_eq_Inr split: if_splits)

lemma ticks_keep:
  assumes "ticks zs u = Inr u'" and "old u = None"
  shows "old u' = None \<and> strictLength u' = strictLength u \<and> oldstart (coll u') = oldstart (coll u) \<and>
    ((\<forall>z \<in> set zs. \<not> isSyscall (step_inst z)) \<longrightarrow> preinsts u \<subseteq> preinsts u')"
  using assms
proof (induction zs arbitrary: u' rule: rev_induct)
  case (snoc z zs)
  then obtain v where v: "ticks zs u = Inr v" "tick z v = Inr (True, u')" by (auto elim: ticks_snocE)
  have ih: "old v = None \<and> strictLength v = strictLength u \<and> oldstart (coll v) = oldstart (coll u) \<and>
    ((\<forall>z \<in> set zs. \<not> isSyscall (step_inst z)) \<longrightarrow> preinsts u \<subseteq> preinsts v)"
    using snoc.IH [OF v(1) snoc.prems(2)] .
  have "went_on z v u'" "oldstart (coll u') = oldstart (coll v)" using tick_effects [OF _ v(2)] ih by simp_all
  then show ?case using ih by (auto simp: went_on_def kept_def)
qed simp

section \<open>The instruction a slice ends with\<close>

definition slice_closed :: "CkptInfo \<Rightarrow> u64 \<Rightarrow> u64 \<Rightarrow> u64 list \<Rightarrow> CkptInfo" where
  "slice_closed c place pc ns = c\<lparr>ck_exit_pc := pc, ck_simNums := place - ck_startnum c, ck_instinfo := map2 (-) ns (ck_instinfo c)\<rparr>"

lemma over_loop_files:
  assumes "over_loop od place pc ns cs s = Inr (cs', fs, s')" and "f \<in> set fs"
  shows "\<exists>c \<in> set cs. \<exists>c1 s1 c2 s2. ck_startnum c + ck_length c \<le> place \<and> finish_slice (slice_closed c place pc ns) = Inr c1 \<and>
    saveCkptInfo od c1 s1 = Inr (f, c2, s2)"
  using assms
proof (induction cs arbitrary: s cs' fs s')
  case (Cons c cs)
  then obtain out c' s1 cs1 fs1 where d: "detectOver od place pc ns (c, s) = Inr (out, c', s1)"
    "over_loop od place pc ns cs s1 = Inr (cs1, fs1, s')"
    "(cs', fs) = (case out of Some f \<Rightarrow> (cs1, f # fs1) | None \<Rightarrow> (c' # cs1, fs1))"
    by (auto simp: res_bind_eq_Inr split: option.splits)
  show ?case
  proof (cases "f \<in> set fs1")
    case True
    then show ?thesis using Cons.IH [OF d(2)] by auto
  next
    case False
    then have "out = Some f" using d(3) Cons.prems(2) by (auto split: option.splits)
    then show ?thesis using d(1)
      by (auto simp: detectOver_def slice_closed_def res_bind_eq_Inr Let_def split: if_splits)
  qed
qed simp

lemma finish_slice_keeps:
  assumes "finish_slice c = Inr c'"
  shows "ck_exit_pc c' = ck_exit_pc c" "ck_npc c' = ck_npc c" "ck_intregs c' = ck_intregs c"
  using assms by (auto simp: finish_slice_def res_bind_eq_Inr)

lemma exit_pc_fresh:
  assumes start: "old u = None" "\<not> strictLength u" "hasValidCkpt (coll u)"
    and y: "tick y u = Inr (True, u1)" "\<not> step_fault y" "\<not> isCompressed (step_inst y)"
    and zs: "ticks zs u1 = Inr u2" "\<forall>z \<in> set zs. \<not> isSyscall (step_inst z)"
    and x: "tick x u2 = Inr (go, u3)" "files (coll u3) \<noteq> files (coll u2)"
  shows "\<not> isCompressed (step_inst x) \<and> \<not> isSyscall (step_inst x) \<and> \<not> step_fault x \<and> step_pc x \<noteq> step_pc y \<and>
    (\<exists>fs. files (coll u3) = files (coll u2) @ fs \<and>
       (\<forall>f \<in> set fs. \<exists>c s c' s'. saveCkptInfo (oldstart (coll u)) c s = Inr (f, c', s') \<and> ck_exit_pc c = step_pc x))"
proof -
  have w: "went_on y u u1" "oldstart (coll u1) = oldstart (coll u)" using tick_effects [OF start(1) y(1)] by simp_all
  then have "step_pc y \<in> preinsts u1" using start y by (simp add: went_on_def marks_def)
  moreover have k: "old u2 = None \<and> strictLength u2 = strictLength u1 \<and> oldstart (coll u2) = oldstart (coll u1) \<and> preinsts u1 \<subseteq> preinsts u2"
    using ticks_keep [OF zs(1)] zs(2) w(1) by (auto simp: went_on_def)
  ultimately have in2: "step_pc y \<in> preinsts u2" by blast
  have ns: "\<not> strictLength u2" using k w(1) start(2) by (simp add: went_on_def)
  have e: "ended x u2 u3" using tick_effects [OF _ x(1)] k x(2) by (auto simp: quiet_def)
  then obtain cs ns fs where fs: "over_loop (oldstart (coll u2)) (numInst u2) (exit_addr x u2) ns cs (compst (coll u2)) =
      Inr (pendingCkpts (coll u3), fs, compst (coll u3))" "files (coll u3) = files (coll u2) @ fs"
    by (auto simp: ended_def)
  have "\<exists>c s c' s'. saveCkptInfo (oldstart (coll u)) c s = Inr (f, c', s') \<and> ck_exit_pc c = step_pc x" if f: "f \<in> set fs" for f
  proof -
    obtain c c1 s1 c2 s2 where "finish_slice (slice_closed c (numInst u2) (exit_addr x u2) ns) = Inr c1"
      "saveCkptInfo (oldstart (coll u2)) c1 s1 = Inr (f, c2, s2)"
      using over_loop_files [OF fs(1) f] by blast
    moreover from this have "ck_exit_pc c1 = step_pc x"
      using finish_slice_keeps(1) \<open>\<not> strictLength u2\<close> by (fastforce simp: slice_closed_def exit_addr_def)
    ultimately show ?thesis using k w(2) by auto
  qed
  then show ?thesis using e ns in2 fs(2) by (auto simp: ended_def may_end_def)
qed

section \<open>A slice holds what happened since its start\<close>

definition since_start :: "step list \<Rightarrow> CkptInfo \<Rightarrow> bool" where
  "since_start hist c \<longleftrightarrow> (\<exists>ys x zs c0. hist = ys @ x # zs \<and> slice_begun x (sum_list (map counted ys)) c0 \<and> res_fold ck_step zs c0 = Inr c)"

lemma since_start_stepped:
  assumes "\<forall>c \<in> set (pendingCkpts (coll u)). since_start hist c" and "numInst u = sum_list (map counted hist)"
    and "stepped x u cs" and "c \<in> set cs"
  shows "since_start (hist @ [x]) c"
proof -
  obtain old_cs news where o: "list_all2 (\<lambda>c c'. ck_step x c = Inr c') (pendingCkpts (coll u)) old_cs" "cs = old_cs @ news"
    "news = [] \<or> (\<exists>c. news = [c] \<and> slice_begun x (numInst u) c)"
    using assms(3) by (auto simp: stepped_def)
  show ?thesis
  proof (cases "c \<in> set old_cs")
    case True
    then obtain i where i: "i < length old_cs" "c = old_cs ! i" by (auto simp: in_set_conv_nth)
    define d where "d = pendingCkpts (coll u) ! i"
    have d: "d \<in> set (pendingCkpts (coll u))" "ck_step x d = Inr c"
      using o(1) i by (simp_all add: d_def list_all2_conv_all_nth)
    then obtain ys x0 zs c0 where "hist = ys @ x0 # zs" "slice_begun x0 (sum_list (map counted ys)) c0" "res_fold ck_step zs c0 = Inr d"
      using assms(1) by (auto simp: since_start_def)
    then show ?thesis unfolding since_start_def using d(2)
      by (intro exI [of _ ys] exI [of _ x0] exI [of _ "zs @ [x]"] exI [of _ c0]) (simp add: res_fold_append)
  next
    case False
    then have "slice_begun x (sum_list (map counted hist)) c" using assms(2,4) o by auto
    then show ?thesis unfolding since_start_def by (intro exI [of _ hist] exI [of _ x] exI [of _ "[]"] exI [of _ c]) simp
  qed
qed

lemma pending_since_start:
  assumes "ticks hist u0 = Inr u" and "old u0 = None" and "pendingCkpts (coll u0) = []" and "numInst u0 = 0"
  shows "numInst u = sum_list (map counted hist) \<and> (\<forall>c \<in> set (pendingCkpts (coll u)). since_start hist c)"
  using assms
proof (induction hist arbitrary: u rule: rev_induct)
  case (snoc x hist)
  then obtain v where v: "ticks hist u0 = Inr v" "tick x v = Inr (True, u)" by (auto elim: ticks_snocE)
  have ih: "numInst v = sum_list (map counted hist)" "\<forall>c \<in> set (pendingCkpts (coll v)). since_start hist c"
    using snoc.IH [OF v(1) snoc.prems(2-4)] by simp_all
  have ov: "old v = None" using ticks_keep [OF v(1) snoc.prems(2)] by blast
  note eff = tick_effects [OF ov v(2)]
  have "\<exists>cs. stepped x v cs \<and> set (pendingCkpts (coll u)) \<subseteq> set cs"
    using eff over_loop_keeps by (fastforce simp: ended_def)
  then have "\<forall>c \<in> set (pendingCkpts (coll u)). since_start (hist @ [x]) c"
    using since_start_stepped [OF ih(2,1)] by blast
  moreover have "numInst u = sum_list (map counted (hist @ [x]))" using eff ih(1) by (simp add: went_on_def)
  ultimately show ?case by blast
qed simp

text \<open>Every file comes from a slice, and the instruction that ended it belongs to it.\<close>

lemma file_since_start:
  assumes run: "ticks hist u0 = Inr u" "old u0 = None" "pendingCkpts (coll u0) = []" "numInst u0 = 0"
    and x: "tick x u = Inr (go, u')"
  shows "\<exists>fs. files (coll u') = files (coll u) @ fs \<and> (\<forall>f \<in> set fs. \<exists>c ns c1 s1 c2 s2. since_start (hist @ [x]) c \<and>
    ck_startnum c + ck_length c \<le> sum_list (map counted hist) \<and>
    finish_slice (slice_closed c (sum_list (map counted hist)) (exit_addr x u) ns) = Inr c1 \<and>
    saveCkptInfo (oldstart (coll u0)) c1 s1 = Inr (f, c2, s2))"
proof -
  have u: "numInst u = sum_list (map counted hist)" "\<forall>c \<in> set (pendingCkpts (coll u)). since_start hist c"
    using pending_since_start [OF run] by simp_all
  have ou: "old u = None" "oldstart (coll u) = oldstart (coll u0)" using ticks_keep [OF run(1,2)] by simp_all
  show ?thesis
  proof (cases "quiet u u'")
    case True
    then show ?thesis by (intro exI [of _ "[]"]) (simp add: quiet_def)
  next
    case False
    then have "ended x u u'" using tick_effects [OF ou(1) x] by blast
    then obtain cs ns fs where e: "stepped x u cs" "files (coll u') = files (coll u) @ fs"
      "over_loop (oldstart (coll u)) (numInst u) (exit_addr x u) ns cs (compst (coll u)) = Inr (pendingCkpts (coll u'), fs, compst (coll u'))"
      by (auto simp: ended_def)
    have "\<exists>c ns c1 s1 c2 s2. since_start (hist @ [x]) c \<and> ck_startnum c + ck_length c \<le> sum_list (map counted hist) \<and>
        finish_slice (slice_closed c (sum_list (map counted hist)) (exit_addr x u) ns) = Inr c1 \<and>
        saveCkptInfo (oldstart (coll u0)) c1 s1 = Inr (f, c2, s2)" if "f \<in> set fs" for f
      using over_loop_files [OF e(3) that] since_start_stepped [OF u(2,1) e(1)] unfolding ou u(1) by metis
    then show ?thesis using e(2) by blast
  qed
qed

section \<open>What a slice holds\<close>

fun event_access :: "event \<Rightarrow> access list" where
  "event_access (LoadEv a bs) = [LoadAcc a bs]"
| "event_access (StoreEv a n) = [StoreAcc a n]"
| "event_access (AmoEv a bs) = [LoadAcc a bs]"
| "event_access (SysEv regs r) = []"

definition step_accesses :: "step \<Rightarrow> access list" where
  "step_accesses x = concat (map event_access (step_events x))"

text \<open>The parts of a slice an instruction does not touch.\<close>

definition slice_frame :: "CkptInfo \<Rightarrow> CkptInfo \<Rightarrow> bool" where
  "slice_frame c c' \<longleftrightarrow> ck_firstloads c' = ck_firstloads c \<and> ck_textrange c' = ck_textrange c \<and> ck_memrange c' = ck_memrange c \<and>
     ck_intregs c' = ck_intregs c \<and> ck_fpregs c' = ck_fpregs c \<and> ck_npc c' = ck_npc c \<and> ck_startnum c' = ck_startnum c \<and>
     ck_length c' = ck_length c"

definition slice_acc :: "CkptInfo \<Rightarrow> access_map \<times> LoadInfo list" where
  "slice_acc c = (ck_preAccess c, ck_loads c)"

lemma slice_frame_trans: "slice_frame c d \<Longrightarrow> slice_frame d e \<Longrightarrow> slice_frame c e"
  by (simp add: slice_frame_def)

lemma sysexe_frame:
  assumes "res_fold (ck_sysexe pc) bs c = Inr c'"
  shows "slice_frame c c' \<and> slice_acc c' = slice_acc c"
  using assms
proof (induction bs arbitrary: c)
  case (Cons b bs)
  then obtain d where d: "ck_sysexe pc b c = Inr d" "res_fold (ck_sysexe pc) bs d = Inr c'" by (auto simp: res_bind_eq_Inr)
  have "slice_frame c d \<and> slice_acc d = slice_acc c"
    using d(1) by (auto simp: ck_sysexe_def slice_frame_def slice_acc_def res_bind_eq_Inr split: prod.splits)
  with Cons.IH [OF d(2)] show ?case by (auto intro: slice_frame_trans)
qed (simp add: slice_frame_def)

lemma ck_event_accesses:
  assumes "ck_event pc e c = Inr c'"
  shows "slice_frame c c' \<and> res_fold do_access (event_access e) (slice_acc c) = Inr (slice_acc c')"
proof (cases e)
  case (SysEv regs r)
  then obtain d where d: "res_fold (ck_sysexe pc) (sv_buffers r) (c\<lparr>ck_sysinfos := add_sysenter pc (ucast (regs 17)) (map regs [10, 11, 12, 13, 14]) (ck_sysinfos c)\<rparr>) = Inr d"
    "c' = d\<lparr>ck_sysinfos := add_sysret pc (sv_name r) (\<not> sv_suppressed r) (sv_value r) (ck_sysinfos d)\<rparr>"
    using assms by (auto simp: ck_sysenter_def ck_sysret_def res_bind_eq_Inr)
  then show ?thesis using sysexe_frame [OF d(1)] SysEv by (simp add: slice_frame_def slice_acc_def)
qed (use assms in \<open>auto simp: ck_load_def ck_store_def slice_frame_def slice_acc_def res_bind_eq_Inr\<close>)

lemma fold_accesses:
  assumes "res_fold f xs c = Inr c'"
    and "\<And>x d d'. f x d = Inr d' \<Longrightarrow> slice_frame d d' \<and> res_fold do_access (g x) (slice_acc d) = Inr (slice_acc d')"
  shows "slice_frame c c' \<and> res_fold do_access (concat (map g xs)) (slice_acc c) = Inr (slice_acc c')"
  using assms(1)
proof (induction xs arbitrary: c)
  case (Cons x xs)
  then obtain d where d: "f x c = Inr d" "res_fold f xs d = Inr c'" by (auto simp: res_bind_eq_Inr)
  with Cons.IH [OF d(2)] assms(2) [OF d(1)] show ?case by (auto simp: res_fold_append intro: slice_frame_trans)
qed (simp add: slice_frame_def)

lemma ck_step_accesses:
  assumes "ck_step x c = Inr c'"
  shows "slice_frame c c' \<and> res_fold do_access (step_accesses x) (slice_acc c) = Inr (slice_acc c')"
proof -
  obtain d where d: "res_fold (ck_event (step_pc x)) (step_events x) c = Inr d"
    "c' = (if step_fault x then d else d\<lparr>ck_textAccess := addinst (step_pc x) (ck_textAccess d)\<rparr>)"
    using assms by (auto simp: ck_step_def res_bind_eq_Inr)
  then show ?thesis using fold_accesses [OF d(1) ck_event_accesses]
    by (auto simp: step_accesses_def slice_frame_def slice_acc_def)
qed

lemma since_start_recorded:
  assumes "since_start hist c"
  shows "\<exists>ys x zs. hist = ys @ x # zs \<and> ck_startnum c = sum_list (map counted ys) \<and> recorded_run (concat (map step_accesses zs)) c \<and>
    ck_intregs c = map (th_int (step_thread x)) (map of_nat [0..<32]) \<and> ck_fpregs c = map (th_float (step_thread x)) (map of_nat [0..<32]) \<and>
    ck_npc c = th_npc (step_thread x)"
proof -
  obtain ys x zs c0 where h: "hist = ys @ x # zs" "slice_begun x (sum_list (map counted ys)) c0" "res_fold ck_step zs c0 = Inr c"
    using assms by (auto simp: since_start_def)
  have f: "slice_frame c0 c" "res_fold do_access (concat (map step_accesses zs)) (slice_acc c0) = Inr (slice_acc c)"
    using fold_accesses [OF h(3) ck_step_accesses] by simp_all
  have c0: "slice_acc c0 = (RBT.empty, [])" "ck_firstloads c0 = []" "ck_textrange c0 = []" "ck_memrange c0 = []"
    "ck_startnum c0 = sum_list (map counted ys)" "ck_npc c0 = th_npc (step_thread x)"
    "ck_intregs c0 = map (th_int (step_thread x)) (map of_nat [0..<32])" "ck_fpregs c0 = map (th_float (step_thread x)) (map of_nat [0..<32])"
    using h(2) by (auto simp: slice_begun_def CkptInfo_new_def slice_acc_def simp del: upt_rec_numeral)
  have "recorded_run (concat (map step_accesses zs)) c"
    using f c0 by (simp add: recorded_run_def slice_frame_def slice_acc_def)
  then show ?thesis using h(1) f(1) c0
    by (intro exI [of _ ys] exI [of _ x] exI [of _ zs]) (simp add: slice_frame_def del: upt_rec_numeral)
qed

end
