(* ===== verification/Restored.thy ===== *)
theory Restored
  imports SliceRun
begin

unbundle bit_operations_syntax

text \<open>
  The end of a slice inside a run: when the instruction qualifies and the slice is one the formats
  can hold, \<open>tick\<close> writes a file, and the loader restores from it the state at the start of the slice.
\<close>

section \<open>Slices that can be restored\<close>

definition text_top :: "CkptInfo \<Rightarrow> nat" where
  "text_top c = (case getRange_set (ck_textAccess c) [] of Inr (tr, _) \<Rightarrow> range_end (last tr) | Inl _ \<Rightarrow> 0)"

definition restorable :: "access list \<Rightarrow> CkptInfo \<Rightarrow> bool" where
  "restorable accs c \<longleftrightarrow> recorded_run accs c \<and> (\<forall>acc \<in> set accs. plain_access acc) \<and> accs \<noteq> [] \<and>
     (\<forall>s \<in> set (ck_sysinfos c). buffer_ok s \<and> si_params s \<noteq> []) \<and>
     finite (ck_textAccess c) \<and> ck_textAccess c \<noteq> {} \<and> (\<forall>a \<in> ck_textAccess c. unat a < 2 ^ 62) \<and>
     length (ck_intregs c) = 32 \<and> length (ck_fpregs c) = 32 \<and>
     (\<exists>fls. getFistloads (ck_loads c) [] = Inr fls \<and> (\<forall>f \<in> set fls. 0 < unat (fl_addr f) \<and> unat (fl_addr f) < 2 ^ 61) \<and> blocks_fit fls) \<and>
     (\<exists>tr n. getRange_set (ck_textAccess c) [] = Inr (tr, n)) \<and> text_top c < 2 ^ 31"

text \<open>
  What loading a file gives: the program counter behind the first instruction, the registers, and every byte whose first access
  in the slice was a load, unless it belongs to the program text (which the loader reads from the program itself) or to the
  loader's own section.
\<close>

definition restores :: "access list \<Rightarrow> CkptInfo \<Rightarrow> bytes \<Rightarrow> bool" where
  "restores accs c img \<longleftrightarrow> (length img < 2 ^ 63 \<longrightarrow> (\<forall>l va. \<exists>l'. load_sections va img l = Inr (ck_npc c, l') \<and>
     (\<forall>r < 32. program_intregs l' r = ck_intregs c ! unat r) \<and>
     (\<forall>x b. snd (fold spec_access accs ({}, Map.empty)) x = Some b \<longrightarrow> text_top c \<le> unat x \<longrightarrow> \<not> in_range x va (length img + 4096) \<longrightarrow> lmem l' x = b)))"

lemma restorable_saved:
  assumes r: "restorable accs c" and s: "pending s []"
  shows "\<exists>c' img c'' s'. finish_slice c = Inr c' \<and> saveCkptInfo rs c' s = Inr (img, c'', s') \<and> restores accs c img"
proof -
  obtain fls where fls: "getFistloads (ck_loads c) [] = Inr fls" "\<forall>f \<in> set fls. 0 < unat (fl_addr f) \<and> unat (fl_addr f) < 2 ^ 61" "blocks_fit fls"
    using r by (auto simp: restorable_def)
  obtain tr n where tr: "getRange_set (ck_textAccess c) [] = Inr (tr, n)" using r by (auto simp: restorable_def)
  have top: "text_top c = range_end (last tr)" "range_end (last tr) < 2 ^ 31"
    using r tr by (simp_all add: text_top_def restorable_def)
  have p: "recorded_run accs c" "\<forall>acc \<in> set accs. plain_access acc" "accs \<noteq> []" "\<forall>s \<in> set (ck_sysinfos c). buffer_ok s \<and> si_params s \<noteq> []"
    "finite (ck_textAccess c)" "ck_textAccess c \<noteq> {}" "\<forall>a \<in> ck_textAccess c. unat a < 2 ^ 62"
    "length (ck_intregs c) = 32" "length (ck_fpregs c) = 32"
    using r by (simp_all add: restorable_def)
  let ?F = "snd (fold spec_access accs ({}, Map.empty))"
  obtain c' img sec c'' s' where w: "finish_slice c = Inr c'" "saveCkptInfo rs c' s = Inr (img, c'', s')"
    "saveSysInfo (ck_sysinfos c) = Inr (sec, ck_sysinfos c'')"
    "length img < 2 ^ 63 \<Longrightarrow> \<exists>l'. load_sections va img l = Inr (ck_npc c, l') \<and>
       (\<forall>r < 32. program_intregs l' r = ck_intregs c ! unat r) \<and>
       (\<forall>x b. ?F x = Some b \<longrightarrow> range_end (last tr) \<le> unat x \<longrightarrow> \<not> in_range x va (length sec + 4096) \<longrightarrow> lmem l' x = b)" for l va
    using slice_restored [OF p fls tr top(2) s, of rs] by (elim exE conjE) (rule that, assumption+, blast)
  have "ck_sysinfos c' = ck_sysinfos c" using w(1) by (auto simp: finish_slice_def res_bind_eq_Inr)
  then have "length sec \<le> length img" using w(2,3) by (auto simp: saveCkptInfo_def res_bind_eq_Inr)
  then have inr: "in_range x va (length sec + 4096) \<Longrightarrow> in_range x va (length img + 4096)" for x va
    by (simp add: in_range_def)
  have "restores accs c img"
    unfolding restores_def top(1)
  proof (intro impI allI)
    fix l va assume "length img < 2 ^ 63"
    from w(4) [OF this, of va l] inr
    show "\<exists>l'. load_sections va img l = Inr (ck_npc c, l') \<and> (\<forall>r < 32. program_intregs l' r = ck_intregs c ! unat r) \<and>
       (\<forall>x b. ?F x = Some b \<longrightarrow> range_end (last tr) \<le> unat x \<longrightarrow> \<not> in_range x va (length img + 4096) \<longrightarrow> lmem l' x = b)"
      by blast
  qed
  with w(1,2) show ?thesis by blast
qed

lemma restorable_closed [simp]: "restorable accs (slice_closed c place pc ns) = restorable accs c"
  by (simp add: restorable_def slice_closed_def recorded_run_def text_top_def)

lemma restores_closed [simp]: "restores accs (slice_closed c place pc ns) img = restores accs c img"
  by (simp add: restores_def slice_closed_def text_top_def)

lemma detectOver_restores:
  assumes "restorable accs c" and "pending s []" and "ck_startnum c + ck_length c \<le> place"
  shows "\<exists>img c' s'. detectOver od place pc ns (c, s) = Inr (Some img, c', s') \<and> restores accs c img"
proof -
  obtain c1 img c2 s' where "finish_slice (slice_closed c place pc ns) = Inr c1" "saveCkptInfo od c1 s = Inr (img, c2, s')" "restores accs c img"
    using restorable_saved [of accs "slice_closed c place pc ns" s od] assms by auto
  then show ?thesis using assms(3) by (simp add: detectOver_def slice_closed_def)
qed

section \<open>The tick that ends a slice\<close>

lemma tick_writes:
  assumes u: "old u = None" "\<not> traceOpen (trc u)" "pendingCkpts (coll u) = [c]" "pending (compst (coll u)) []"
      "\<not> strictLength u" "isCkptStart (numInst u) (coll u) = (None, coll u)"
    and x: "step_events x = []" "\<not> step_fault x" "\<not> isCompressed (step_inst x)" "\<not> isSyscall (step_inst x)"
      "step_pc x \<notin> preinsts u"
    and c: "restorable accs (c\<lparr>ck_textAccess := addinst (step_pc x) (ck_textAccess c)\<rparr>)"
      "ck_startnum c + ck_length c \<le> numInst u"
  shows "\<exists>go u' img. tick x u = Inr (go, u') \<and> files (coll u') = files (coll u) @ [img] \<and>
    restores accs (c\<lparr>ck_textAccess := addinst (step_pc x) (ck_textAccess c)\<rparr>) img"
proof -
  let ?c = "c\<lparr>ck_textAccess := addinst (step_pc x) (ck_textAccess c)\<rparr>"
  obtain img c' s' where d: "detectOver (oldstart (coll u)) (numInst u) (step_pc x) (recordinst (step_inst x) (instnums u)) (?c, compst (coll u)) =
      Inr (Some img, c', s')" "restores accs ?c img"
    using detectOver_restores [OF c(1) u(4)] c(2) by fastforce
  have st: "isCkptStart (numInst u) ((coll u)\<lparr>pendingCkpts := cs\<rparr>) = (None, (coll u)\<lparr>pendingCkpts := cs\<rparr>)" for cs
    using u(6) by (auto simp: isCkptStart_def Let_def split: if_splits)
  have "\<exists>go u'. tick x u = Inr (go, u') \<and> files (coll u') = files (coll u) @ [img]"
    using u(1,2,3,5) x c(2) d(1) st
    by (simp add: tick_def tick_begin_def tick_commit_def tick_start_def tick_end_def hasValidCkpt_def ckpt_addinst_def
        on_pending_def ckpt_detectOver_def Let_def)
  with d(2) show ?thesis by blast
qed

section \<open>An example run\<close>

text \<open>
  Three instructions of four bytes at \<open>0x10000\<close>: a slice of length 2 starts behind the first one, the second one loads the
  eight bytes at \<open>0x20000\<close>, the third one ends the slice.
\<close>

definition ex_inst :: CpuInst where
  "ex_inst = \<lparr>isLoad = False, isAtomic = False, isStore = False, isFloating = False, isCondCtrl = False, isUncondCtrl = False,
     isDirectCtrl = False, isIndirectCtrl = False, isInteger = True, opClass = OtherOp, srcRegs = [], destRegs = [],
     isControl = False, isCall = False, isReturn = False, isSyscall = False, isCompressed = False, isLastUop = True\<rparr>"

definition ex_step :: "u64 \<Rightarrow> event list \<Rightarrow> step" where
  "ex_step pc evs = \<lparr>step_inst = ex_inst, step_thread = \<lparr>th_pc = pc, th_npc = pc + 4, th_int = (\<lambda>_. 7), th_float = (\<lambda>_. 0)\<rparr>,
     step_events = evs, step_fault = False\<rparr>"

definition ex_load :: access where
  "ex_load = LoadAcc 0x20000 [1, 2, 3, 4, 5, 6, 7, 8]"

definition ex_cpu :: cpu where
  "ex_cpu = cpu_init (collector_init (CkptSettings_new\<lparr>ctrls := [\<lparr>ctrl_start = 0, ctrl_end = 2, ctrl_warmup = 0\<rparr>]\<rparr>) None)
     (tracer_init trace_settings_init False) None False"

definition ex0 :: step where "ex0 = ex_step 0x10000 []"
definition ex1 :: step where "ex1 = ex_step 0x10004 [LoadEv 0x20000 [1, 2, 3, 4, 5, 6, 7, 8]]"
definition ex2 :: step where "ex2 = ex_step 0x10008 []"

definition ex_begun :: CkptInfo where
  "ex_begun = CkptInfo_new 0 2 0 (map (\<lambda>_. 7) [0..<32]) (map (\<lambda>_. 0) [0..<32]) 0x10000 0x10004 [] (replicate 10 0)"

definition ex_cpu1 :: cpu where
  "ex_cpu1 = ex_cpu\<lparr>numInst := 1, coll := (coll ex_cpu)\<lparr>pendingCkpts := [ex_begun], ckptidx := 1\<rparr>\<rparr>"

lemma ex_tick0: "tick ex0 ex_cpu = Inr (True, ex_cpu1)"
  by (simp add: tick_def tick_begin_def tick_commit_def tick_start_def addCkpt_def isCkptStart_def hasValidCkpt_def Let_def
      ex0_def ex_step_def ex_inst_def ex_cpu_def ex_cpu1_def ex_begun_def cpu_init_def collector_init_def tracer_init_def CkptSettings_new_def map_replicate_const
      comp_def del: upt_rec_numeral)

definition ex_chunk :: chunk where
  "ex_chunk = (\<lambda>_. 0)(0 := 1, 1 := 1, 2 := 1, 3 := 1, 4 := 1, 5 := 1, 6 := 1, 7 := 1)"

definition ex_loads :: "LoadInfo list" where
  "ex_loads = [\<lparr>li_addr = 0x20000, li_data = map Some [1, 2, 3, 4, 5, 6, 7, 8], li_first = 255, li_size = 8\<rparr>]"

lemma mark_new_numeral:
  "mark_new (numeral k) e idx (data, exist) =
     (if e < length exist \<and> idx < AccessRange
      then mark_new (pred_numeral k) (Suc e) (Suc idx) (data(idx := 1), exist[e := Some 0]) else Inl OutOfBounds)"
  by (simp add: numeral_eq_Suc)

lemma first_bits_numeral:
  "first_bits (numeral k) exist data (isFirst, d) =
     (let i = pred_numeral k in
      if length exist \<le> i \<or> length d \<le> i \<or> length data \<le> i then Inl OutOfBounds
      else case exist ! i of
             None \<Rightarrow> Inl UninitRead
           | Some e \<Rightarrow>
               (let isFirst' = push_bit 1 isFirst
                in if e = 0 then first_bits i exist data (isFirst' + 1, d[i := Some (data ! i)])
                   else first_bits i exist data (isFirst', d)))"
  by (simp add: numeral_eq_Suc Let_def)

lemma ex_mark: "mark_new 8 0 0 ((\<lambda>_. 0), [None, None, None, None, None, None, None, None]) =
    Inr (ex_chunk, [Some 0, Some 0, Some 0, Some 0, Some 0, Some 0, Some 0, Some 0])"
  by (simp add: mark_new_numeral ex_chunk_def AccessRange_def) (simp add: numeral_eq_Suc)

lemma ex_bits: "first_bits 8 [Some 0, Some 0, Some 0, Some 0, Some 0, Some 0, Some 0, Some 0] [1, 2, 3, 4, 5, 6, 7, 8]
    (0, [None, None, None, None, None, None, None, None]) = Inr (255, map Some [1, 2, 3, 4, 5, 6, 7, 8])"
  by (simp add: first_bits_numeral)

lemma ex_addload:
  "addload 0x20000 [1, 2, 3, 4, 5, 6, 7, 8] 8 (RBT.empty, []) = Inr (RBT.insert 0x20000 ex_chunk RBT.empty, ex_loads)"
proof -
  have none: "exist_uninit = [None, None, None, None, None, None, None, None]" by (simp add: exist_uninit_def numeral_eq_Suc)
  have "addAddrInfo 0x20000 8 (RBT.empty, exist_uninit) =
      Inr (RBT.insert 0x20000 ex_chunk RBT.empty, [Some 0, Some 0, Some 0, Some 0, Some 0, Some 0, Some 0, Some 0])"
    by (simp add: addAddrInfo_def chunk_base_def AccessRangeBits_def AccessRange_def none ex_mark Let_def)
  moreover have "replicate 8 None = [None, None, None, None, None, None, None, None :: u8 option]" by (simp add: numeral_eq_Suc)
  ultimately show ?thesis by (simp add: addload_def ex_bits ex_loads_def)
qed

definition ex_slice :: CkptInfo where
  "ex_slice = ex_begun\<lparr>ck_preAccess := RBT.insert 0x20000 ex_chunk RBT.empty, ck_loads := ex_loads,
     ck_textAccess := addinst 0x10004 {}\<rparr>"

definition ex_cpu2 :: cpu where
  "ex_cpu2 = ex_cpu1\<lparr>numInst := 2, startlog := True, needCreateCkpt := True, preinsts := {0x10004},
     coll := (coll ex_cpu1)\<lparr>pendingCkpts := [ex_slice]\<rparr>\<rparr>"

lemma not_2_le_1: "\<not> (2 :: u64) \<le> 1"
  by (simp add: word_le_nat_alt)

lemma ex_tick1: "tick ex1 ex_cpu1 = Inr (True, ex_cpu2)"
  by (simp add: tick_def tick_begin_def tick_commit_def tick_start_def tick_end_def isCkptStart_def hasValidCkpt_def Let_def
      not_2_le_1 ckpt_addload_def ckpt_addinst_def on_pending_def rec_load_def rec_mem_def recordinst_def bump_def ex_addload ex_slice_def
      ex1_def ex_step_def ex_inst_def ex_cpu_def ex_cpu1_def ex_cpu2_def ex_begun_def cpu_init_def collector_init_def tracer_init_def
      CkptSettings_new_def CkptInfo_new_def del: upt_rec_numeral)

definition ex_end :: CkptInfo where
  "ex_end = ex_slice\<lparr>ck_textAccess := addinst (step_pc ex2) (ck_textAccess ex_slice)\<rparr>"

lemma ex_text: "ck_textAccess ex_end = {0x10004, 0x10008}"
  by (simp add: ex_end_def ex_slice_def addinst_def page_of_def Let_def ex2_def ex_step_def) auto

lemma ex_fls: "getFistloads ex_loads [] = Inr [\<lparr>fl_addr = 0x20000, fl_data = [1, 2, 3, 4, 5, 6, 7, 8]\<rparr>]"
  by code_simp

lemma ex_ranges: "getRange_set {0x10004, 0x10008} [] = Inr ([\<lparr>cr_addr = 0x10000, cr_size = 4096\<rparr>], 4096)"
  by code_simp

lemma ex_restorable: "restorable [ex_load] ex_end"
proof -
  have run: "recorded_run [ex_load] ex_end"
    by (simp add: recorded_run_def ex_end_def ex_slice_def ex_begun_def CkptInfo_new_def ex_load_def ex_addload)
  have "ck_loads ex_end = ex_loads" "ck_sysinfos ex_end = []" "length (ck_intregs ex_end) = 32" "length (ck_fpregs ex_end) = 32"
    by (simp_all add: ex_end_def ex_slice_def ex_begun_def CkptInfo_new_def)
  then show ?thesis
    unfolding restorable_def
    by (simp add: run [unfolded ex_load_def] ex_text ex_ranges ex_fls text_top_def range_end_def ex_load_def plain_access_def blocks_fit_few)
qed

lemma ex_ends: "\<exists>go u' img. tick ex2 ex_cpu2 = Inr (go, u') \<and> files (coll u') = files (coll ex_cpu2) @ [img] \<and> restores [ex_load] ex_end img"
  unfolding ex_end_def
proof (rule tick_writes)
  show "restorable [ex_load] (ex_slice\<lparr>ck_textAccess := addinst (step_pc ex2) (ck_textAccess ex_slice)\<rparr>)"
    using ex_restorable by (simp add: ex_end_def)
qed (simp_all add: ex_cpu2_def ex_cpu1_def ex_cpu_def cpu_init_def collector_init_def tracer_init_def isCkptStart_def CkptSettings_new_def
      pending_init ex2_def ex_step_def ex_inst_def ex_slice_def ex_begun_def CkptInfo_new_def)

end
