(* ===== verification/MemAccess.thy ===== *)
theory MemAccess
  imports Restored
begin

unbundle bit_operations_syntax

text \<open>
  Which accesses of the CPU reach the recorder as the events the slices are described with: a load, store
  or atomic access inside one cache line does; a load that crosses a line hands over a pointer behind its data.
\<close>

section \<open>Accesses inside a cache line\<close>

definition in_line :: "memsys \<Rightarrow> u64 \<Rightarrow> nat \<Rightarrow> bool" where
  "in_line ms addr sz \<longleftrightarrow> 0 < sz \<and> unat (addr AND (of_nat (line ms) - 1)) + sz \<le> line ms"

lemma one_fragment:
  assumes "in_line ms addr sz"
  shows "genMemFragmentRequest (line ms) addr sz (replicate sz True) sz = (True, sz, 0)"
proof -
  have "min (line ms - unat (addr AND (of_nat (line ms) - 1))) sz = sz" "0 < sz" using assms by (auto simp: in_line_def min_def)
  then show ?thesis by (cases sz) (simp_all add: genMemFragmentRequest_def Let_def)
qed

lemma readMem_in_line:
  assumes "in_line ms addr sz" and "\<not> translate_fault ms addr sz" and "\<not> no_access ms" and "blen buf = sz"
  shows "readMem ms mem pc addr buf sz (replicate sz True) u =
    res_bind (do_event pc (LoadEv addr (mem_read mem addr sz)) u) (\<lambda>u'. Inr (False, poked buf 0 (mem_read mem addr sz), u'))"
proof -
  let ?d = "mem_read mem addr sz"
  have p: "poke buf 0 ?d = Inr (poked buf 0 ?d)" using assms(4) by (simp add: poke_def)
  have l: "blen (poked buf 0 ?d) = sz" using assms(4) by (simp add: poked_def)
  have s: "slice (poked buf 0 ?d) 0 sz = ?d"
    by (rule nth_equalityI) (simp_all add: slice_def poked_def)
  show ?thesis
    unfolding readMem_def by (subst read_frags.simps) (simp add: one_fragment [OF assms(1)] assms(2-4) p l s)
qed

lemma writeMem_in_line:
  assumes "in_line ms addr sz" and "\<not> translate_fault ms addr sz" and "\<not> no_access ms" and "length data = sz"
  shows "writeMem ms data pc addr sz (replicate sz True) (mem, u) =
    res_bind (do_event pc (StoreEv addr sz) u) (\<lambda>u'. Inr (False, if locked_write ms then mem_write mem addr data else mem, u'))"
proof -
  have "write_frags ms data (replicate sz True) sz addr sz 0 mem = Inr (False, if locked_write ms then mem_write mem addr data else mem)"
    by (subst write_frags.simps) (simp add: one_fragment [OF assms(1)] assms(2-4))
  then show ?thesis by (simp add: writeMem_def res_bind_assoc)
qed

lemma amoMem_in_line:
  assumes "\<not> (addr + of_nat sz - 1) AND NOT (of_nat (line ms) - 1) > addr" and "\<not> translate_fault ms addr sz" and "\<not> no_access ms"
  shows "amoMem ms op pc addr data sz (mem, u) =
    res_bind (do_event pc (AmoEv addr (mem_read mem addr sz)) u) (\<lambda>u'. Inr (False, mem_read mem addr sz, mem_write mem addr (op (mem_read mem addr sz)), u'))"
  using assms by (simp add: amoMem_def Let_def res_bind_assoc)

section \<open>A load that crosses a line\<close>

definition ex_memsys :: memsys where
  "ex_memsys = \<lparr>line = 64, translate_fault = (\<lambda>_ _. False), no_access = False, prefetch = False, locked_write = True\<rparr>"

definition ex_recording :: cpu where
  "ex_recording = ex_cpu1\<lparr>startlog := True, needCreateCkpt := True\<rparr>"

lemma split_marks:
  "\<exists>t. addAddrInfo 0x2003c 8 (RBT.empty, exist_uninit) = Inr (t, [Some 0, Some 0, Some 0, Some 0, Some 0, Some 0, Some 0, Some 0])"
proof -
  have none: "exist_uninit = [None, None, None, None, None, None, None, None]" by (simp add: exist_uninit_def numeral_eq_Suc)
  have "\<exists>d. mark_new 8 0 60 ((\<lambda>_. 0), [None, None, None, None, None, None, None, None]) =
      Inr (d, [Some 0, Some 0, Some 0, Some 0, Some 0, Some 0, Some 0, Some 0])"
    by (simp add: mark_new_numeral AccessRange_def)
  then show ?thesis
    by (auto simp: addAddrInfo_def chunk_base_def AccessRangeBits_def AccessRange_def none Let_def)
qed

lemma split_addload: "length d = 4 \<Longrightarrow> addload 0x2003c d 8 (RBT.empty, []) = Inl OutOfBounds"
  using split_marks by (auto simp: addload_def first_bits_numeral Let_def)

lemma readMem_split:
  "readMem ex_memsys mem pc 0x2003c (zero_buf 8) 8 (replicate 8 True) ex_recording = Inl OutOfBounds"
proof -
  let ?a = "mem_read mem 0x2003c 4" and ?b = "mem_read mem 0x20040 4"
  define b1 where "b1 = poked (zero_buf 8) 0 ?a"
  define b2 where "b2 = poked b1 4 ?b"
  have p: "poke (zero_buf 8) 0 ?a = Inr b1" "poke b1 4 ?b = Inr b2" "blen b2 = 8"
    by (simp_all add: poke_def b1_def b2_def poked_def zero_buf_def)
  have f1: "genMemFragmentRequest 64 0x2003c 8 (replicate 8 True) 8 = (True, 4, 4)"
    and f2: "genMemFragmentRequest 64 0x20040 8 (replicate 8 True) 4 = (True, 4, 0)"
    by code_simp+
  have "read_frags ex_memsys mem (replicate 8 True) 8 0x2003c 8 0 (zero_buf 8) = Inr (False, b2, 4)"
    by (subst read_frags.simps, simp add: ex_memsys_def f1 p(1), subst read_frags.simps, simp add: f2 p(2))
  then show ?thesis
    by (simp add: readMem_def p(3) rec_load_def rec_mem_def ex_recording_def ckpt_addload_def on_pending_def ex_cpu1_def ex_cpu_def
        cpu_init_def collector_init_def tracer_init_def ex_begun_def CkptInfo_new_def split_addload)
qed

end
