(* ===== verification/JumpLayout.thy ===== *)
theory JumpLayout
  imports Loader "HOL-Library.Multiset"
begin

unbundle bit_operations_syntax

text \<open>
  The jumps that \<open>processJmp\<close> prepares: a midpoint lies in a free range and within reach of the
  patched instruction in both directions, the table of return jumps is in the order of the
  records, and it has an entry for every recorded call.
\<close>

section \<open>Midpoints are within reach\<close>

text \<open>A free range that is far below 2 GiB away from \<open>pc\<close>, does not contain it and has room for the code.\<close>

definition gap_near :: "u64 \<Rightarrow> MemRangeInfo \<Rightarrow> bool" where
  "gap_near pc fr \<longleftrightarrow>
     64 \<le> unat (mr_size fr) \<and> unat (mr_addr fr) + unat (mr_size fr) < 2 ^ 63 \<and> unat pc < 2 ^ 63 \<and>
     (unat pc < unat (mr_addr fr) \<or> unat (mr_addr fr) + unat (mr_size fr) \<le> unat pc) \<and>
     unat (mr_addr fr) < unat pc + 2 ^ 30 \<and> unat pc < unat (mr_addr fr) + unat (mr_size fr) + 2 ^ 30 \<and>
     even (unat pc) \<and> even (unat (mr_addr fr)) \<and> even (unat (mr_size fr))"

definition mid_ok :: "u64 \<Rightarrow> MemRangeInfo list \<Rightarrow> u64 \<Rightarrow> bool" where
  "mid_ok pc frs mid \<longleftrightarrow>
     (\<exists>fr \<in> set frs. unat (mr_addr fr) \<le> unat mid \<and> unat mid + 64 \<le> unat (mr_addr fr) + unat (mr_size fr)) \<and>
     jal_reach pc mid \<and> jal_reach (mid + 44) pc \<and> jal_reach (mid + 44) (pc + 4)"

lemma sint_diff_u64:
  assumes "unat (a :: u64) = x" "unat b = y" and "x < 2 ^ 63" "y < 2 ^ 63"
  shows "sint (a - b) = int x - int y"
proof -
  have "a = of_nat x" "b = of_nat y" using assms(1,2) by auto
  then have e: "a - b = word_of_int (int x - int y)" by simp
  have "(int x - int y + 9223372036854775808) mod 18446744073709551616 = int x - int y + 9223372036854775808"
    using assms(3,4) by (intro mod_pos_pos_trivial) simp_all
  then show ?thesis
    unfolding e using int_word_sint [of "int x - int y", where 'a = 64] by simp
qed

lemma even_diff_u64: "even (unat (a :: u64)) \<Longrightarrow> even (unat b) \<Longrightarrow> even (unat (a - b))"
  by (auto simp: unat_sub_if_size word_size)

lemma jal_reachI:
  assumes "unat b = x" "unat t = y" and "x < 2 ^ 63" "y < 2 ^ 63" "even x" "even y"
    and "x \<le> y + 2 ^ 20" "y < x + 2 ^ 20"
  shows "jal_reach b t"
proof -
  have "even (unat (t - b))" using assms(1,2,5,6) by (intro even_diff_u64) simp_all
  moreover have "- (2 ^ 20) \<le> int y - int x" "int y - int x < 2 ^ 20" using assms(7,8) by simp_all
  ultimately show ?thesis
    by (simp only: jal_reach_def sint_diff_u64 [OF assms(2,1,4,3)] simp_thms)
qed

text \<open>For a distance below \<open>2 ^ 31\<close> the \<open>int\<close> of the code is the distance.\<close>

lemma int_dist_small:
  assumes "unat d = n" and "n < 2 ^ 31"
  shows "int_dist d = int n"
proof -
  have "d = of_nat n" using assms(1) by auto
  then have "(ucast d :: u32) = word_of_int (int n)"
    using assms(2) by (simp add: word_unat_eq_iff unsigned_ucast_eq unsigned_of_nat take_bit_eq_mod)
  moreover have "(int n + 2147483648) mod 4294967296 = int n + 2147483648"
    using assms(2) by (intro mod_pos_pos_trivial) simp_all
  ultimately show ?thesis
    unfolding int_dist_def using int_word_sint [of "int n", where 'a = 32] by simp
qed

lemma mid_reach:
  assumes "unat mid = x" "unat pc = p" and "even x" "even p" and "x + 44 < 2 ^ 63" "p + 4 < 2 ^ 63"
    and "x + 44 \<le> p + 0xFFFF0" "p \<le> x + 0xFFFF0"
  shows "jal_reach pc mid" and "jal_reach (mid + 44) pc" and "jal_reach (mid + 44) (pc + 4)"
proof -
  have u: "unat (mid + 44) = x + 44" "unat (pc + 4) = p + 4"
    using assms(1,2,5,6) unat_add_less [of mid 44] unat_add_less [of pc 4] by simp_all
  show "jal_reach pc mid" using assms(3-8) by (intro jal_reachI [OF assms(2,1)]) simp_all
  show "jal_reach (mid + 44) pc" using assms(3-8) by (intro jal_reachI [OF u(1) assms(2)]) simp_all
  show "jal_reach (mid + 44) (pc + 4)" using assms(3-8) by (intro jal_reachI [OF u]) simp_all
qed

lemma find_mid_ok:
  assumes "find_mid pc frs = Inr (mid, frs')" and "\<forall>fr \<in> set frs. gap_near pc fr" and "unat pc + 4 < 2 ^ 63"
  shows "mid_ok pc frs mid \<and> set frs' \<subseteq> set frs"
  using assms
proof (induction pc frs rule: find_mid.induct)
  case (2 pc fr frs)
  define A S P where "A = unat (mr_addr fr)" and "S = unat (mr_size fr)" and "P = unat pc"
  have g: "64 \<le> S" "A + S < 2 ^ 63" "P < A \<or> A + S \<le> P" "A < P + 2 ^ 30" "P < A + S + 2 ^ 30" "P + 4 < 2 ^ 63"
    "even P" "even A" "even S"
    using "2.prems"(2,3) by (simp_all add: gap_near_def A_def S_def P_def)
  show ?case
  proof (cases "pc < mr_addr fr")
    case True
    then have lt: "P < A" by (simp add: word_less_nat_alt A_def P_def)
    have "unat (mr_addr fr + 64) = A + 64" using g(1,2) unat_add_less [of "mr_addr fr" 64] by (simp add: A_def)
    then have d: "unat (mr_addr fr + freemem - pc) = A + 64 - P"
      using lt by (simp add: freemem_def unat_sub_if_size word_size P_def [symmetric])
    then have "int_dist (mr_addr fr + freemem - pc) = int (A + 64 - P)"
      using g(4) by (intro int_dist_small [OF d]) simp
    then have m: "mid = mr_addr fr" "frs' = fr # frs" "A + 64 - P \<le> 0xFFFF0"
      using "2.prems"(1) True lt by (auto simp: MaxJALOffset_def split: if_splits)
    have "jal_reach pc mid" "jal_reach (mid + 44) pc" "jal_reach (mid + 44) (pc + 4)"
      using mid_reach [of mid A pc P] g lt m by (simp_all add: A_def P_def)
    then show ?thesis using g m by (auto simp: mid_ok_def simp flip: A_def S_def)
  next
    case False
    then have ge: "A + S \<le> P" using g(3) by (simp add: word_less_nat_alt A_def P_def)
    define mp where "mp = mr_addr fr + mr_size fr - freemem"
    have "unat (mr_addr fr + mr_size fr) = A + S" using g(2) by (simp add: unat_word_ariths A_def S_def)
    then have mp: "unat mp = A + S - 64" using g(1) by (simp add: mp_def freemem_def unat_sub_if_size word_size)
    have d: "unat (pc - mp) = P - (A + S - 64)" using ge mp by (simp add: unat_sub_if_size word_size P_def)
    show ?thesis
    proof (cases "int_dist (pc - mp) \<le> MaxJALOffset")
      case True
      then have m: "mid = mp" "frs' = fr # frs" using "2.prems"(1) False by (auto simp: mp_def)
      have near: "P - (A + S - 64) \<le> 0xFFFF0"
        using True int_dist_small [OF d] g ge by (simp add: MaxJALOffset_def)
      have "jal_reach pc mid" "jal_reach (mid + 44) pc" "jal_reach (mid + 44) (pc + 4)"
        using mid_reach [of mid "A + S - 64" pc P] g ge near mp m by (simp_all add: P_def)
      then show ?thesis using g m mp by (auto simp: mid_ok_def simp flip: A_def S_def intro!: bexI [of _ fr])
    next
      case far: False
      then have "find_mid pc frs = Inr (mid, frs')" using "2.prems"(1) False by (simp add: mp_def Let_def)
      then have "mid_ok pc frs mid \<and> set frs' \<subseteq> set frs"
        using "2.IH" [OF False mp_def far] "2.prems" by simp
      then show ?thesis by (auto simp: mid_ok_def)
    qed
  qed
qed simp

section \<open>The table of return jumps\<close>

definition pc_key :: "PCs \<Rightarrow> u64 \<times> u64" where
  "pc_key p = (pc_label p, pc_pc p)"

definition pcs_near :: "MemRangeInfo list \<Rightarrow> PCs list \<Rightarrow> bool" where
  "pcs_near frs ps \<longleftrightarrow> (\<forall>p \<in> set ps. unat (pc_pc p) + 4 < 2 ^ 63 \<and> (\<forall>fr \<in> set frs. gap_near (pc_pc p) fr))"

lemma find_mids_ok:
  assumes "find_mids ps frs = Inr ps'"
  shows "map pc_key ps' = map pc_key ps"
    and "set frs \<subseteq> set frs0 \<Longrightarrow> pcs_near frs0 ps \<Longrightarrow> \<forall>p \<in> set ps'. mid_ok (pc_pc p) frs0 (pc_midpoint p)"
  using assms
proof (induction ps arbitrary: frs ps')
  case (Cons p ps)
  {
    case 1
    then show ?case using Cons.IH(1) by (auto simp: res_bind_eq_Inr pc_key_def)
  next
    case 2
    then obtain m frs' ps1 where r: "find_mid (pc_pc p) frs = Inr (m, frs')" "find_mids ps frs' = Inr ps1"
      "ps' = p\<lparr>pc_midpoint := m\<rparr> # ps1" by (auto simp: res_bind_eq_Inr)
    have "\<forall>fr \<in> set frs. gap_near (pc_pc p) fr" "unat (pc_pc p) + 4 < 2 ^ 63" using 2 by (auto simp: pcs_near_def)
    from find_mid_ok [OF r(1) this] have "mid_ok (pc_pc p) frs m" "set frs' \<subseteq> set frs" by simp_all
    moreover have "\<forall>q \<in> set ps1. mid_ok (pc_pc q) frs0 (pc_midpoint q)"
      using 2 Cons.IH(2) [OF _ _ r(2)] calculation(2) by (auto simp: pcs_near_def)
    ultimately show ?case using 2(1) r(3) by (auto simp: mid_ok_def)
  }
qed simp_all

lemma findMidPoints_ok:
  assumes r: "findMidPoints frs pcs = Inr pcs'" and lab: "sorted (map pc_label pcs)" "distinct (map pc_label pcs)"
  shows "map pc_key pcs' = map pc_key pcs"
    and "pcs_near frs pcs \<Longrightarrow> \<forall>p \<in> set pcs'. mid_ok (pc_pc p) frs (pc_midpoint p)"
proof -
  obtain ps where ps: "find_mids (sort_key pc_pc pcs) frs = Inr ps" "pcs' = sort_key pc_label ps"
    using r by (auto simp: findMidPoints_def res_bind_eq_Inr)
  have fk: "map fst (map pc_key xs) = map pc_label xs" for xs by (simp add: pc_key_def)
  have "mset (map pc_key pcs') = mset (map pc_key ps)" by (simp add: ps(2))
  also have "\<dots> = mset (map pc_key (sort_key pc_pc pcs))" using find_mids_ok(1) [OF ps(1)] by simp
  also have "\<dots> = mset (map pc_key pcs)" by simp
  finally have ms: "mset (map pc_key pcs') = mset (map pc_key pcs)" .
  have "distinct (map fst (map pc_key pcs))" using lab(2) by (simp only: fk)
  then have "inj_on fst (set (map pc_key pcs))" by (simp only: distinct_map)
  moreover have "set (map pc_key pcs') = set (map pc_key pcs)" using ms by (rule mset_eq_setD)
  moreover have "sorted (map fst (map pc_key pcs))" using lab(1) by (simp only: fk)
  ultimately have "sort_key fst (map pc_key pcs') = map pc_key pcs"
    by (intro sort_key_inj_key_eq [OF ms]) simp_all
  moreover have "sorted (map fst (map pc_key pcs'))" by (simp only: fk) (simp add: ps(2))
  ultimately show "map pc_key pcs' = map pc_key pcs" by (simp add: sort_key_id_if_sorted)
  show "\<forall>p \<in> set pcs'. mid_ok (pc_pc p) frs (pc_midpoint p)" if "pcs_near frs pcs"
    using find_mids_ok(2) [OF ps(1), of frs] that by (simp add: ps(2) pcs_near_def)
qed

definition return_jump :: "bool \<Rightarrow> PCs \<Rightarrow> JmpRepInfo" where
  "return_jump isfirst p = \<lparr>jalr_target = pc_midpoint p + 32, jal_addr = pc_midpoint p + 44,
     jal_inst = createJAL (pc_midpoint p + 44) (if isfirst then pc_pc p else pc_pc p + 4)\<rparr>"

lemma jmp2prog_loop_table:
  "fst (jmp2prog_loop memaddr isfirst ps m) = (case butlast ps of [] \<Rightarrow> [] | q # qs \<Rightarrow> return_jump isfirst q # map (return_jump False) qs)"
proof (induction memaddr isfirst ps m rule: jmp2prog_loop.induct)
  case (1 memaddr isfirst p q ps m)
  obtain j m1 where j: "jmp2prog memaddr isfirst p m = (j, m1)" by (cases "jmp2prog memaddr isfirst p m")
  then have "j = return_jump isfirst p" by (auto simp: jmp2prog_def return_jump_def Let_def add.assoc)
  with 1 [OF j [symmetric]] j show ?case by (auto simp: split_beta split: list.splits if_splits)
qed simp_all

lemma diff_callnum_bounds:
  "- 1 \<le> diff_callnum l" and "i < unat (totalcallnum (runinfo l)) \<Longrightarrow> sint (sysidx_at l (of_nat i)) \<le> diff_callnum l"
proof -
  let ?f = "\<lambda>i d. let k = sint (sysidx_at l (of_nat i)) in if k > d then k else d"
  have "d \<le> fold ?f [0..<n] d \<and> (\<forall>i < n. sint (sysidx_at l (of_nat i)) \<le> fold ?f [0..<n] d)" for n d
    by (induction n) (auto simp: Let_def less_Suc_eq)
  then show "- 1 \<le> diff_callnum l" "i < unat (totalcallnum (runinfo l)) \<Longrightarrow> sint (sysidx_at l (of_nat i)) \<le> diff_callnum l"
    by (simp_all add: diff_callnum_def)
qed

text \<open>Fewer records than calls, as \<open>saveSysInfo\<close> writes them.\<close>

definition records_fit :: "loader \<Rightarrow> bool" where
  "records_fit l \<longleftrightarrow> diff_callnum l < int (unat (totalcallnum (runinfo l))) \<and> unat (totalcallnum (runinfo l)) < 2 ^ 63"

lemma jump_pcs_labels:
  assumes "records_fit l"
  shows "sorted (map pc_label (jump_pcs npc l)) \<and> distinct (map pc_label (jump_pcs npc l))"
proof -
  define d n where "d = nat (diff_callnum l + 1)" and "n = unat (totalcallnum (runinfo l))"
  have dn: "d \<le> n" "n < 2 ^ 63" using assms by (simp_all add: records_fit_def d_def n_def nat_le_iff)
  have u: "unat (of_nat i + 1 :: u64) = Suc i" if "i \<le> n" for i
    using that dn(2) unat_of_nat_u64 [of "Suc i"] by (simp add: add.commute)
  have t: "totalcallnum (runinfo l) = of_nat n" by (simp add: n_def)
  have labels: "map pc_label (jump_pcs npc l) = map of_nat (0 # map Suc [0..<d] @ [Suc n])"
    by (simp add: jump_pcs_def d_def t comp_def add.commute)
  have a: "sorted_wrt (<) (0 # map Suc [0..<d] @ [Suc n])" using dn(1)
    by (auto simp: sorted_wrt_append sorted_wrt_map)
  have b: "k < 2 ^ 64" if "k \<in> set (0 # map Suc [0..<d] @ [Suc n])" for k using that dn by auto
  have "sorted_wrt (<) (map (of_nat :: nat \<Rightarrow> u64) (0 # map Suc [0..<d] @ [Suc n]))"
    unfolding sorted_wrt_map
    by (rule sorted_wrt_mono_rel [OF _ a]) (simp only: word_less_nat_alt unat_of_nat_u64 [OF b])
  then show ?thesis unfolding labels by (simp only: strict_sorted_iff)
qed

theorem processJmp_table:
  assumes run: "processJmp tk a0 frs npc l = Inr l'" and fit: "records_fit l"
    and near: "pcs_near frs (jump_pcs npc l)"
  defines "js \<equiv> sysJmpinfos (runinfo l')"
  shows "length js = nat (diff_callnum l + 1) + 1"
    and "\<exists>mid. js ! 0 = return_jump True \<lparr>pc_label = 0, pc_pc = npc, pc_midpoint = mid\<rparr> \<and> mid_ok npc frs mid"
    and "\<forall>r < nat (diff_callnum l + 1). \<exists>mid. let pc = sr_pc (sysinfo_at l (of_nat r)) in
      js ! Suc r = return_jump False \<lparr>pc_label = of_nat r + 1, pc_pc = pc, pc_midpoint = mid\<rparr> \<and> mid_ok pc frs mid"
proof -
  define d where "d = nat (diff_callnum l + 1)"
  obtain pcs where p: "findMidPoints frs (jump_pcs npc l) = Inr pcs"
    and js: "js = fst (createInsts_jmp2prog pcs (ucast a0)
      (snd (createInsts_jmp2loader pcs (ucast tk) (exitJmpInst (runinfo l), lmem l))))"
    using run by (auto simp: processJmp_def res_bind_eq_Inr js_def split_beta)
  have lab: "sorted (map pc_label (jump_pcs npc l))" "distinct (map pc_label (jump_pcs npc l))"
    using jump_pcs_labels [OF fit] by simp_all
  note key = findMidPoints_ok(1) [OF p lab] and ok = findMidPoints_ok(2) [OF p lab near]
  have len: "length pcs = d + 2" using arg_cong [OF key, of length] by (simp add: jump_pcs_def d_def)
  have lp: "length (jump_pcs npc l) = d + 2" by (simp add: jump_pcs_def d_def)
  have k: "pc_label (pcs ! i) = pc_label (jump_pcs npc l ! i) \<and> pc_pc (pcs ! i) = pc_pc (jump_pcs npc l ! i)" if "i < d + 2" for i
    using arg_cong [OF key, of "\<lambda>xs. xs ! i"] that len lp by (simp add: pc_key_def)
  have js': "js = return_jump True (pcs ! 0) # map (return_jump False) (tl (butlast pcs))"
    using len unfolding js createInsts_jmp2prog_def jmp2prog_loop_table
    by (cases pcs; cases "tl pcs") (auto split: list.splits)
  show lj: "length js = nat (diff_callnum l + 1) + 1" using len by (simp add: js' d_def)
  have rec: "return_jump b (pcs ! i) = return_jump b \<lparr>pc_label = c, pc_pc = pc_pc (pcs ! i), pc_midpoint = pc_midpoint (pcs ! i)\<rparr>"
    for b i c by (simp add: return_jump_def)
  have mid: "mid_ok (pc_pc (pcs ! i)) frs (pc_midpoint (pcs ! i))" if "i < d + 2" for i
    using ok that len by simp
  show "\<exists>mid. js ! 0 = return_jump True \<lparr>pc_label = 0, pc_pc = npc, pc_midpoint = mid\<rparr> \<and> mid_ok npc frs mid"
    using rec [of True 0 0] k [of 0] mid [of 0]
    by (intro exI [of _ "pc_midpoint (pcs ! 0)"]) (simp add: js' jump_pcs_def)
  show "\<forall>r < nat (diff_callnum l + 1). \<exists>mid. let pc = sr_pc (sysinfo_at l (of_nat r)) in
      js ! Suc r = return_jump False \<lparr>pc_label = of_nat r + 1, pc_pc = pc, pc_midpoint = mid\<rparr> \<and> mid_ok pc frs mid"
  proof (intro allI impI)
    fix r assume "r < nat (diff_callnum l + 1)"
    then have r: "r < d" by (simp add: d_def)
    have pc: "pc_pc (pcs ! Suc r) = sr_pc (sysinfo_at l (of_nat r))"
      using k [of "Suc r"] r by (simp add: jump_pcs_def nth_append flip: d_def)
    have "js ! Suc r = return_jump False (pcs ! Suc r)"
      using r len by (simp add: js' nth_tl nth_butlast)
    then show "\<exists>mid. let pc = sr_pc (sysinfo_at l (of_nat r)) in
      js ! Suc r = return_jump False \<lparr>pc_label = of_nat r + 1, pc_pc = pc, pc_midpoint = mid\<rparr> \<and> mid_ok pc frs mid"
      using rec [of False "Suc r" "of_nat r + 1"] mid [of "Suc r"] r
      by (intro exI [of _ "pc_midpoint (pcs ! Suc r)"]) (simp add: pc)
  qed
qed

section \<open>Resuming the program\<close>

text \<open>
  After an answered call the loader leaves through \<open>StartJump\<close>. With the return code of the call's
  midpoint in place, the saved \<open>a0\<close> at its place in memory and the exit jump not on top of the
  return jump, the program goes on behind the call with the recorded result.
\<close>

lemma get32_put32_apart: "apart a 4 b 4 \<Longrightarrow> get32 (put32 b w m) a = get32 m a"
  by (simp add: get32_def put32_def mem_read_write_apart)

lemma and_not_1_even: "even (unat (w :: u64)) \<Longrightarrow> w AND NOT 1 = w"
proof (rule bit_word_eqI)
  fix n assume e: "even (unat w)" and "n < LENGTH(64)"
  have "\<not> bit (unat w) 0" using e by (simp only: bit_0 not_not)
  then have "\<not> bit w 0" by (simp only: bit_unsigned_iff) simp
  then show "bit (w AND NOT 1) n = bit w n"
    using \<open>n < LENGTH(64)\<close> by (cases "n = 0") (simp_all add: bit_simps)
qed

theorem return_to_program:
  assumes t: "tempMemory l = mid + 32" and even: "even (unat (mid + 32))"
    and code: "at_load_a0 p (mid + 32) (lmem l)"
    and jal: "get32 (lmem l) (mid + 44) = createJAL (mid + 44) ret" and reach: "jal_reach (mid + 44) ret"
    and a0: "mem_read (lmem l) (scast p) 8 = le64 (program_intregs l 10)"
  shows "\<exists>s. rv_steps 4 (StartJump l) = Some s \<and> rv_pc s = ret \<and> rv_mem s = lmem l \<and>
    (\<forall>r. r \<noteq> 0 \<longrightarrow> rv_regs s r = program_intregs l r)"
proof -
  have s: "rv_pc (StartJump l) = mid + 32" "rv_mem (StartJump l) = lmem l"
    using and_not_1_even [OF even] by (simp_all add: StartJump_def t)
  have e: "mid + 32 + 12 = mid + 44" by (simp add: add.assoc)
  have "rv_steps 4 (StartJump l) = Some ((StartJump l)\<lparr>rv_pc := ret, rv_regs := (rv_regs (StartJump l))(10 := program_intregs l 10)\<rparr>)"
    using code jal reach a0 by (intro rv_to_program [of p]) (simp_all only: s e)
  then show ?thesis by (simp add: s(2)) (simp add: StartJump_def)
qed

end
