(* ===== verification/HwLoader.thy ===== *)
theory HwLoader
  imports CkptLoad
begin

unbundle bit_operations_syntax

text \<open>
  \<open>restoreCkpt/ckptinfo/readckpt\<close>: the loader for cores with extra registers. A system call of the
  program is replaced by one instruction that jumps to the address in temporary register 3, the
  entry of the loader, and the loader returns through temporary register 2; no jump code is
  placed in the program. \<open>ctrl.h\<close> programs the sampling counters of the core. Reading the
  first loads and the code is the same text as in \<open>newreadckpt\<close>. The lemmas show that both loaders
  answer a call alike.
\<close>

section \<open>Registers of the core\<close>

text \<open>What the macros of \<open>define.h\<close> write: the temporary registers and those of the counters.\<close>

record hwregs =
  rtemp :: "nat \<Rightarrow> u64"
  ProcTag :: u64
  SampleFuncAddr :: u64
  EventSel :: u64
  MaxEvents :: u64
  WarmupInsts :: u64
  MaxPriv :: u64
  PfcEnable :: u64

definition SetTempReg :: "u64 \<Rightarrow> nat \<Rightarrow> hwregs \<Rightarrow> hwregs" where
  "SetTempReg v n h = h\<lparr>rtemp := (rtemp h)(n := v)\<rparr>"

definition SetProcTag :: "u64 \<Rightarrow> hwregs \<Rightarrow> hwregs" where
  "SetProcTag v h = h\<lparr>ProcTag := v\<rparr>"

definition SetCounterLevel :: "u64 \<Rightarrow> hwregs \<Rightarrow> hwregs" where
  "SetCounterLevel v h = h\<lparr>MaxPriv := v\<rparr>"

definition SetPfcEnable :: "u64 \<Rightarrow> hwregs \<Rightarrow> hwregs" where
  "SetPfcEnable v h = h\<lparr>PfcEnable := v\<rparr>"

definition SetSampleBaseInfo :: "u64 \<Rightarrow> u64 \<Rightarrow> hwregs \<Rightarrow> hwregs" where
  "SetSampleBaseInfo ptag addr h = h\<lparr>ProcTag := ptag, SampleFuncAddr := addr\<rparr>"

definition SetSampleCtrlReg :: "u64 \<Rightarrow> u64 \<Rightarrow> u64 \<Rightarrow> hwregs \<Rightarrow> hwregs" where
  "SetSampleCtrlReg maxevent warmupinst eventsel h = h\<lparr>MaxEvents := maxevent, WarmupInsts := warmupinst, EventSel := eventsel\<rparr>"

text \<open>\<open>SpecialInst_URet(3)\<close>: the word of \<open>addi x0, x3, 64\<close>.\<close>

definition JmpRTemp3Inst :: u32 where
  "JmpRTemp3Inst = push_bit 20 64 OR push_bit 15 3 OR 0x13"

definition Cause_ExitSysCall :: u64 where "Cause_ExitSysCall = 1"
definition Cause_ExitInst :: u64 where "Cause_ExitInst = 2"

section \<open>Sampling\<close>

text \<open>
  The globals of \<open>ctrl.h\<close>. \<open>runlog\<close> is what has been written to the log file: how often the sample
  function ran, and the values of the 64 counters.
\<close>

datatype logline = HapTimes u64 | Event nat u64

record pfc =
  procTag :: u64
  maxevent :: u64
  warmupinst :: u64
  eventsel :: u64
  maxperiod :: u64
  sampleHapTimes :: u64
  sampleExitpc :: u64
  startcycle :: u64
  endcycle :: u64
  startinst :: u64
  endinst :: u64
  runlog :: "logline list"

text \<open>\<open>open_logfile\<close>: from the last dot on, the name becomes \<open>.runlog\<close>; a name without a dot stays.\<close>

definition log_name :: "string \<Rightarrow> string" where
  "log_name ckptname =
     (let ext = takeWhile (\<lambda>c. c \<noteq> CHR ''.'') (rev ckptname)
      in if length ext = length ckptname then ckptname
         else take (length ckptname - 1 - length ext) ckptname @ ''.runlog'')"

definition init_start :: "u64 \<Rightarrow> u64 \<Rightarrow> u64 \<Rightarrow> u64 \<Rightarrow> u64 \<times> u64 \<Rightarrow> pfc \<times> hwregs \<Rightarrow> pfc \<times> hwregs" where
  "init_start sampleFunc max_inst warmup_inst max_period ci st =
     (case st of (g, h) \<Rightarrow>
      let g' = g\<lparr>startcycle := fst ci, startinst := snd ci, maxevent := max_inst, warmupinst := warmup_inst,
                 eventsel := 0, maxperiod := max_period\<rparr>
      in (g', SetSampleCtrlReg (maxevent g') (warmupinst g') (eventsel g')
                (SetSampleBaseInfo (procTag g') sampleFunc (SetPfcEnable 1 (SetCounterLevel 0 h)))))"

text \<open>
  The sample function: \<open>npc\<close> is the address where the program was stopped, \<open>counters\<close> the values it
  reads. The first of its two \<open>sprintf\<close> is overwritten by the second before anything is written.
\<close>

definition read_counters :: "(nat \<Rightarrow> u64) \<Rightarrow> pfc \<Rightarrow> pfc" where
  "read_counters counters g = g\<lparr>runlog := runlog g @ map (\<lambda>n. Event n (counters n)) [0..<64]\<rparr>"

definition sample_func :: "u64 \<Rightarrow> u64 \<Rightarrow> (nat \<Rightarrow> u64) \<Rightarrow> u64 \<times> u64 \<Rightarrow> pfc \<times> hwregs \<Rightarrow> pfc \<times> hwregs" where
  "sample_func sampleFunc npc counters ci st =
     (case st of (g, h) \<Rightarrow>
      let h1 = SetTempReg npc 0 h;
          times = sampleHapTimes g + 1;
          g1 = g\<lparr>sampleExitpc := npc, sampleHapTimes := times, endcycle := fst ci, endinst := snd ci,
                 runlog := runlog g @ [HapTimes times]\<rparr>;
          g2 = read_counters counters g1;
          g3 = g2\<lparr>startcycle := endcycle g2, startinst := endinst g2, warmupinst := 0, maxevent := 0\<rparr>
      in (g3, SetSampleCtrlReg (maxevent g3) (warmupinst g3) (eventsel g3)
                (SetSampleBaseInfo (procTag g3) sampleFunc (SetPfcEnable 1 h1))))"

section \<open>Replacing the calls\<close>

definition replace_call :: "nat \<Rightarrow> loader \<Rightarrow> loader" where
  "replace_call i l = l\<lparr>lmem := put32 (sr_pc (sysinfo_at l (of_nat i))) JmpRTemp3Inst (lmem l)\<rparr>"

definition hw_read_ckptsyscall :: "u64 \<Rightarrow> rfile \<Rightarrow> loader \<Rightarrow> loader" where
  "hw_read_ckptsyscall alloc_vaddr fp l =
     (let l1 = read_ckptsyscall alloc_vaddr fp l
      in fold replace_call [0..<nat (diff_callnum l1 + 1)] l1)"

section \<open>Loading\<close>

definition hw_load_sections :: "u64 \<Rightarrow> bytes \<Rightarrow> loader \<Rightarrow> (SimInfo \<times> u64 \<times> loader) res" where
  "hw_load_sections alloc_vaddr ckptfile l =
     (case fread64 0 (fopen_rb ckptfile) of (temp, p0) \<Rightarrow>
      res_bind (read_siminfo (fseek_set (unat (16 * temp + 8)) p0)) (\<lambda>(siminfo, p1).
      case fread64 0 p1 of (npc, p2) \<Rightarrow>
      case read_regs p2 (program_intregs l) of (ints, p3) \<Rightarrow>
      case read_regs p3 (program_fpregs l) of (fps, p4) \<Rightarrow>
      case alloc_memrange p4 (lmem l) of (p5, m1) \<Rightarrow>
      res_bind (recovery_FirstLoad p5 m1) (\<lambda>(p6, m2).
        let l1 = l\<lparr>runinfo := (runinfo l)\<lparr>exitpc := sim_exitpc siminfo, exit_cause := sim_exit_cause siminfo mod 4\<rparr>,
                   program_intregs := ints, program_fpregs := fps, lmem := m2\<rparr>
        in Inr (siminfo, npc, hw_read_ckptsyscall alloc_vaddr p6 l1))))"

text \<open>How long the slice runs before it is sampled: as recorded, or derived from the length that ran.\<close>

definition sample_lengths :: "SimInfo \<Rightarrow> u64 \<times> u64" where
  "sample_lengths s =
     (let warmup = drop_bit 32 (sim_simNum s);
          runLength = drop_bit 2 (sim_exit_cause s);
          simNum = drop_bit 32 (push_bit 32 (sim_simNum s))
      in if runLength \<noteq> 0 then (runLength, warmup) else (simNum - simNum div 20, simNum div 20))"

definition hw_read_ckptinfo ::
  "u64 \<Rightarrow> u64 \<Rightarrow> u64 \<Rightarrow> u64 \<times> u64 \<Rightarrow> bytes option \<Rightarrow> loader \<times> pfc \<times> hwregs \<Rightarrow> (loader \<times> pfc \<times> hwregs) res" where
  "hw_read_ckptinfo alloc_vaddr takeOverAddr sampleFunc ci opened st =
     (case st of (l0, g, h) \<Rightarrow>
      case opened of None \<Rightarrow> Inl (ExitProg 1) | Some ckptfile \<Rightarrow>
      res_bind (hw_load_sections alloc_vaddr ckptfile l0) (\<lambda>(siminfo, npc, l).
        let ri = runinfo l;
            m = (if totalcallnum ri = 0 \<and> exit_cause ri = Cause_ExitInst \<and> exitpc ri \<noteq> 0
                 then put32 (exitpc ri) JmpRTemp3Inst (lmem l) else lmem l);
            h' = SetTempReg takeOverAddr 3 (SetTempReg npc 2 h);
            ri' = ri\<lparr>ri_cycles := 0, ri_insts := 0, lastcycles := fst ci, lastinsts := snd ci,
                     startcycles := fst ci, startinsts := snd ci\<rparr>;
            (runLength, warmup) = sample_lengths siminfo
        in case init_start sampleFunc runLength warmup 1 ci (g, h') of (g', h'') \<Rightarrow>
             Inr (l\<lparr>lmem := m, runinfo := ri'\<rparr>, g', h'')))"

section \<open>Answering a call\<close>

definition hw_takeover_count :: "loader \<Rightarrow> loader" where
  "hw_takeover_count l =
     (let ri = runinfo l; ri' = ri\<lparr>nowcallnum := nowcallnum ri + 1\<rparr>; l' = l\<lparr>runinfo := ri'\<rparr>
      in if nowcallnum ri' = totalcallnum ri' \<and> exit_cause ri' = Cause_ExitInst \<and> exitpc ri' \<noteq> 0
         then l'\<lparr>lmem := put32 (exitpc ri') JmpRTemp3Inst (lmem l')\<rparr> else l')"

text \<open>
  The entry in temporary register 3. While the loader runs, the process tag is 0; it leaves with the
  tag of the program and the address behind the call in temporary register 2.
\<close>

definition hw_takeoverSyscall ::
  "u64 \<times> u64 \<Rightarrow> u64 \<times> u64 \<Rightarrow> (u32 \<Rightarrow> u64) \<Rightarrow> loader \<times> hwregs \<Rightarrow> (loader \<times> hwregs) res" where
  "hw_takeoverSyscall ci0 ci1 regs st =
     (case st of (l0, h0) \<Rightarrow>
      let l1 = Save_ProgramIntRegs regs l0; h1 = SetProcTag 0 h0; ri = runinfo l1;
          ri' = ri\<lparr>ri_cycles := ri_cycles ri + (fst ci0 - lastcycles ri),
                   ri_insts := ri_insts ri + (snd ci0 - lastinsts ri)\<rparr>;
          l = l1\<lparr>runinfo := ri'\<rparr>
      in if nowcallnum ri' \<ge> totalcallnum ri' then Inl (ExitProg 0)
         else let idx = sysidx_at l (nowcallnum ri');
                  infos = sysinfo_at l (ucast idx);
                  l2 = l\<lparr>program_intregs := (program_intregs l)(10 := sr_p0 infos)\<rparr>
              in if program_intregs l2 17 \<noteq> drop_bit 32 (sr_num infos) then Inl (ExitProg 0)
                 else let l3 = hw_takeover_count (takeover_ret idx (takeover_data infos l2));
                          npc = sr_pc (sysinfo_at l3 (ucast idx)) + 4
                      in Inr (l3\<lparr>runinfo := (runinfo l3)\<lparr>lastcycles := fst ci1, lastinsts := snd ci1\<rparr>\<rparr>,
                              SetProcTag 0x1234567 (SetTempReg npc 2 h1)))"

section \<open>Both loaders answer a call alike\<close>

definition hw_armed_mem :: "RunningInfo \<Rightarrow> memory \<Rightarrow> memory" where
  "hw_armed_mem ri m =
     (if nowcallnum ri + 1 = totalcallnum ri \<and> exit_cause ri = Cause_ExitInst \<and> exitpc ri \<noteq> 0
      then put32 (exitpc ri) JmpRTemp3Inst m else m)"

text \<open>The exit of the slice does not lie in the section of calls.\<close>

definition exit_apart :: "loader \<Rightarrow> bytes \<Rightarrow> bool" where
  "exit_apart l sec \<longleftrightarrow> apart (syscall_info_addr (runinfo l)) (length sec) (exitpc (runinfo l)) 4"

lemma sec_loaded_put32:
  assumes "sec_loaded l sec n" and "apart (syscall_info_addr (runinfo l)) (length sec) a 4"
  shows "sec_loaded (l\<lparr>lmem := put32 a w (lmem l)\<rparr>) sec n"
  using assms mem_read_write_apart [of "syscall_info_addr (runinfo l)" "length sec" a "le32 w" "lmem l"]
  by (simp add: sec_loaded_def put32_def)

lemma hw_takeoverSyscall_enter:
  fixes ci0 :: "u64 \<times> u64"
  assumes "sysidx_at l (nowcallnum (runinfo l)) = idx" and "sysinfo_at l (ucast idx) = infos"
    and "nowcallnum (runinfo l) < totalcallnum (runinfo l)" and "drop_bit 32 (sr_num infos) = regs 17"
  defines "l' \<equiv> hw_takeover_count (takeover_ret idx (takeover_data infos (entered ci0 regs (sr_p0 infos) l)))"
  shows "hw_takeoverSyscall ci0 ci1 regs (l, h) =
    Inr (l'\<lparr>runinfo := (runinfo l')\<lparr>lastcycles := fst ci1, lastinsts := snd ci1\<rparr>\<rparr>,
         SetProcTag 0x1234567 (SetTempReg (sr_pc (sysinfo_at l' (ucast idx)) + 4) 2 (SetProcTag 0 h)))"
proof -
  have "nowcallnum (runinfo (Save_ProgramIntRegs regs l)) = nowcallnum (runinfo l)"
    "totalcallnum (runinfo (Save_ProgramIntRegs regs l)) = totalcallnum (runinfo l)"
    "program_intregs (arrived ci0 regs l) 17 = regs 17"
    by (simp_all add: arrived_def Save_ProgramIntRegs_def)
  then show ?thesis
    unfolding hw_takeoverSyscall_def Let_def prod.case arrived_def [symmetric] using assms
    by (simp add: arrived_lookup entered_def flip: not_le)
qed

lemma sec_loaded_count:
  assumes "sec_loaded l sec n" and "exit_apart l sec"
  shows "sec_loaded (hw_takeover_count l) sec n"
  using assms sec_loaded_put32 [of l sec n "exitpc (runinfo l)" JmpRTemp3Inst]
  by (subst sec_loaded_cong [of _ "if nowcallnum (runinfo l) + 1 = totalcallnum (runinfo l) \<and> exit_cause (runinfo l) = Cause_ExitInst \<and>
        exitpc (runinfo l) \<noteq> 0 then l\<lparr>lmem := put32 (exitpc (runinfo l)) JmpRTemp3Inst (lmem l)\<rparr> else l"])
    (auto simp: hw_takeover_count_def Let_def exit_apart_def)

theorem hw_takeover_replays:
  assumes sec: "sec_loaded l sec n" and call: "sec_call sec n i s" and i: "i < n"
    and now: "nowcallnum (runinfo l) = of_nat i" and num: "regs 17 = si_num s"
    and fits: "call_fits (syscall_info_addr (runinfo l)) sec s" and ex: "exit_apart l sec"
  obtains l' h' where "hw_takeoverSyscall ci0 ci1 regs (l, h) = Inr (l', h')"
    "lmem l' = hw_armed_mem (runinfo l) (call_mem s (lmem l))" "rtemp h' 2 = si_pc s + 4" "rtemp h' 3 = rtemp h 3"
    "program_intregs l' 10 = call_a0 s"
    "\<And>x. 1 \<le> x \<Longrightarrow> x < 32 \<Longrightarrow> x \<noteq> 10 \<Longrightarrow> program_intregs l' x = regs x"
    "nowcallnum (runinfo l') = of_nat (Suc i)" "sec_loaded l' sec n" "exit_apart l' sec"
    "syscall_info_addr (runinfo l') = syscall_info_addr (runinfo l)"
proof -
  from sec call i now fits obtain r off where r: "8 + 4 * n + 40 * r + 40 \<le> length sec"
    and rec: "take 40 (drop (8 + 4 * n + 40 * r) sec) = rec_bytes s (of_nat off)"
    and pay: "payload_at sec off s" "off < 2 ^ 32" and rl: "r < 2 ^ 32"
    and x: "sysidx_at l (nowcallnum (runinfo l)) = of_nat r" and inf: "sysinfo_at l (of_nat r) = call_rec s off"
    and f: "nowcallnum (runinfo l) < totalcallnum (runinfo l)" "drop_bit 32 (sr_num (call_rec s off)) = si_num s"
      "sr_p0 (call_rec s off) = hd (si_params s)"
    by (rule section_fetch)
  have u: "ucast (of_nat r :: u32) = (of_nat r :: u64)" using rl by (rule ucast_of_nat_u32)
  let ?e = "entered ci0 regs (hd (si_params s)) l"
  note sec3 = sec_loaded_entered [OF sec, of ci0 regs "hd (si_params s)"]
  have fits3: "call_fits (syscall_info_addr (runinfo ?e)) sec s" using fits by simp
  define l4 where "l4 = ?e\<lparr>lmem := call_mem s (lmem l)\<rparr>"
  have sec4: "sec_loaded l4 sec n" using sec_loaded_data [OF sec3 fits3] by (simp add: l4_def)
  define l5 where "l5 = l4\<lparr>program_intregs := (program_intregs l4)(10 := call_a0 s)\<rparr>"
  have eff: "takeover_ret (of_nat r) (takeover_data (call_rec s off) ?e) = l5"
    using takeover_data_ok [OF sec3 pay(1) fits3] takeover_ret_ok [OF sec4 r rec pay(2)] by (simp add: l5_def l4_def)
  have sec5: "sec_loaded l5 sec n" using sec4 by (subst sec_loaded_cong [of _ l4]) (simp_all add: l5_def)
  have "exit_apart l5 sec" using ex by (simp add: exit_apart_def l5_def l4_def)
  note sec6 = sec_loaded_count [OF sec5 this]
  have pc6: "sr_pc (sysinfo_at (hw_takeover_count l5) (of_nat r)) = si_pc s" using sysinfo_at_section [OF sec6 r rec] by simp
  define l' where "l' = (hw_takeover_count l5)\<lparr>runinfo := (runinfo (hw_takeover_count l5))\<lparr>lastcycles := fst ci1, lastinsts := snd ci1\<rparr>\<rparr>"
  define h' where "h' = SetProcTag 0x1234567 (SetTempReg (si_pc s + 4) 2 (SetProcTag 0 h))"
  have run: "hw_takeoverSyscall ci0 ci1 regs (l, h) = Inr (l', h')"
    using hw_takeoverSyscall_enter [OF x _ f(1), of "call_rec s off" regs ci0 ci1 h] inf f(2,3) num pc6
    by (simp add: u eff l'_def h'_def)
  have "program_intregs l' x = regs x" if "1 \<le> x" "x < 32" "x \<noteq> 10" for x
    using that entered_regs [OF that] by (simp add: l'_def hw_takeover_count_def Let_def l5_def l4_def)
  moreover have "nowcallnum (runinfo l') = of_nat (Suc i)" "program_intregs l' 10 = call_a0 s"
    by (simp_all add: l'_def hw_takeover_count_def Let_def l5_def l4_def now add.commute)
  moreover have "lmem l' = hw_armed_mem (runinfo l) (call_mem s (lmem l))"
    by (simp add: l'_def hw_takeover_count_def Let_def l5_def l4_def hw_armed_mem_def)
  moreover have "sec_loaded l' sec n" using sec6 by (subst sec_loaded_cong [of _ "hw_takeover_count l5"]) (simp_all add: l'_def)
  moreover have "exit_apart l' sec" "syscall_info_addr (runinfo l') = syscall_info_addr (runinfo l)"
    using ex by (simp_all add: exit_apart_def l'_def hw_takeover_count_def Let_def l5_def l4_def)
  moreover have "rtemp h' 2 = si_pc s + 4" "rtemp h' 3 = rtemp h 3" by (simp_all add: h'_def SetProcTag_def SetTempReg_def)
  ultimately show ?thesis using run by (intro that)
qed

section \<open>Every recorded call is replaced\<close>

text \<open>The addresses of the first \<open>k\<close> records: outside the section, and not overlapping one another.\<close>

definition call_pc :: "loader \<Rightarrow> nat \<Rightarrow> u64" where
  "call_pc l r = sr_pc (sysinfo_at l (of_nat r))"

definition pcs_apart :: "loader \<Rightarrow> bytes \<Rightarrow> nat \<Rightarrow> bool" where
  "pcs_apart l sec k \<longleftrightarrow> (\<forall>r < k. apart (syscall_info_addr (runinfo l)) (length sec) (call_pc l r) 4 \<and>
     (\<forall>q < k. call_pc l q = call_pc l r \<or> apart (call_pc l r) 4 (call_pc l q) 4))"

lemma call_pc_section:
  assumes "sec_loaded l sec n" and "8 + 4 * n + 40 * r + 40 \<le> length sec"
  shows "call_pc l r = un64 (take 8 (drop (8 + 4 * n + 40 * r) sec))"
proof -
  have "mem_read (lmem l) (syscall_info_addr (runinfo l) + of_nat (8 + 4 * n + 40 * r)) 8 = take 8 (drop (8 + 4 * n + 40 * r) sec)"
    using assms mem_read_section [of "lmem l" _ sec "8 + 4 * n + 40 * r" 8] by (simp add: sec_loaded_def)
  moreover have "totalcallnum (runinfo l) = of_nat n" using assms(1) by (simp add: sec_loaded_def)
  ultimately show ?thesis
    by (simp add: call_pc_def sysinfo_at_def Let_def get64_def algebra_simps)
qed

lemma replaced_calls:
  assumes sec: "sec_loaded l sec n" and room: "8 + 4 * n + 40 * k \<le> length sec" and pcs: "pcs_apart l sec k" and j: "j \<le> k"
  shows "sec_loaded (fold replace_call [0..<j] l) sec n \<and> runinfo (fold replace_call [0..<j] l) = runinfo l \<and>
    (\<forall>r < j. get32 (lmem (fold replace_call [0..<j] l)) (call_pc l r) = JmpRTemp3Inst)"
  using j
proof (induction j)
  case 0
  then show ?case using sec by simp
next
  case (Suc j)
  define l1 where "l1 = fold replace_call [0..<j] l"
  have IH: "sec_loaded l1 sec n" "runinfo l1 = runinfo l" "\<forall>r < j. get32 (lmem l1) (call_pc l r) = JmpRTemp3Inst"
    using Suc by (simp_all add: l1_def)
  have fits: "8 + 4 * n + 40 * r + 40 \<le> length sec" if "r < k" for r using room that by simp
  have pc: "call_pc l1 j = call_pc l j"
    using call_pc_section [OF IH(1) fits] call_pc_section [OF sec fits] Suc.prems by simp
  have step: "fold replace_call [0..<Suc j] l = l1\<lparr>lmem := put32 (call_pc l j) JmpRTemp3Inst (lmem l1)\<rparr>"
    using pc by (simp add: l1_def replace_call_def call_pc_def)
  have "sec_loaded (l1\<lparr>lmem := put32 (call_pc l j) JmpRTemp3Inst (lmem l1)\<rparr>) sec n"
    using pcs Suc.prems IH(2) by (intro sec_loaded_put32 [OF IH(1)]) (simp add: pcs_apart_def)
  moreover have "get32 (put32 (call_pc l j) JmpRTemp3Inst (lmem l1)) (call_pc l r) = JmpRTemp3Inst" if r: "r < Suc j" for r
  proof (cases "call_pc l r = call_pc l j")
    case True
    then show ?thesis using mem_read_write_same [of "le32 JmpRTemp3Inst" "lmem l1" "call_pc l j"] by (simp add: get32_def put32_def)
  next
    case False
    then have "r < j" using r by (cases "r = j") auto
    moreover have "apart (call_pc l r) 4 (call_pc l j) (length (le32 JmpRTemp3Inst))"
      using pcs Suc.prems \<open>r < j\<close> False unfolding pcs_apart_def length_le_enc by (metis less_trans Suc_le_lessD)
    ultimately show ?thesis using IH(3) mem_read_write_apart [of "call_pc l r" 4 "call_pc l j" "le32 JmpRTemp3Inst" "lmem l1"]
      by (simp add: get32_def put32_def)
  qed
  ultimately show ?case unfolding step using IH(2) by simp
qed

end
