(* ===== verification/Replay.thy ===== *)
theory Replay
  imports HwLoader
begin

unbundle bit_operations_syntax

text \<open>
  Replaying a slice: the program runs, and each of its system calls is answered by the loader from
  the recorded calls, in their order. The contract between the two is a locale; both loaders (jump
  patching in \<open>newreadckpt\<close>, temporary registers in \<open>readckpt\<close>) are interpretations of it. What the program does
  between two calls is any step that leaves the loader's data alone.
\<close>

section \<open>Runs of a program with a loader\<close>

text \<open>An entry of the loader: the counters on entry and on exit, and the registers of the program.\<close>

type_synonym entry = "(u64 \<times> u64) \<times> (u64 \<times> u64) \<times> (u32 \<Rightarrow> u64)"

definition entry_regs :: "entry \<Rightarrow> u32 \<Rightarrow> u64" where
  "entry_regs e = snd (snd e)"

definition answered :: "SyscallInfo \<Rightarrow> entry \<Rightarrow> (u32 \<Rightarrow> u64) \<Rightarrow> bool" where
  "answered s e regs \<longleftrightarrow> regs 10 = call_a0 s \<and> (\<forall>x. 1 \<le> x \<and> x < 32 \<and> x \<noteq> 10 \<longrightarrow> regs x = entry_regs e x)"

text \<open>A run: steps of the program (\<open>env\<close>) alternate with answered calls; the trace has each entry and the state behind it.\<close>

inductive replays :: "(entry \<Rightarrow> 's \<Rightarrow> 's res) \<Rightarrow> ('s \<Rightarrow> 's \<Rightarrow> bool) \<Rightarrow> 's \<Rightarrow> (entry \<times> 's) list \<Rightarrow> 's \<Rightarrow> bool"
  for answer :: "entry \<Rightarrow> 's \<Rightarrow> 's res" and env :: "'s \<Rightarrow> 's \<Rightarrow> bool" where
  no_call: "replays answer env s [] s"
| next_call: "env s s1 \<Longrightarrow> answer e s1 = Inr s2 \<Longrightarrow> replays answer env s2 tr s' \<Longrightarrow> replays answer env s ((e, s2) # tr) s'"

inductive_cases replays_NilE: "replays answer env s [] s'"
inductive_cases replays_ConsE: "replays answer env s ((e, s2) # tr) s'"

locale replayer =
  fixes answer :: "entry \<Rightarrow> 's \<Rightarrow> 's res"
    and serves :: "nat \<Rightarrow> 's \<Rightarrow> bool"
    and calls :: "SyscallInfo list"
    and gregs :: "'s \<Rightarrow> u32 \<Rightarrow> u64"
  assumes answers: "serves i s \<Longrightarrow> i < length calls \<Longrightarrow> entry_regs e 17 = si_num (calls ! i) \<Longrightarrow>
      \<exists>s'. answer e s = Inr s' \<and> serves (Suc i) s' \<and> answered (calls ! i) e (gregs s')"
    and refuses: "serves i s \<Longrightarrow> i < length calls \<Longrightarrow> entry_regs e 17 \<noteq> si_num (calls ! i) \<Longrightarrow> answer e s = Inl (ExitProg 0)"
    and exhausted: "serves (length calls) s \<Longrightarrow> answer e s = Inl (ExitProg 0)"
    and in_order: "serves i s \<Longrightarrow> i \<le> length calls"
begin

lemma answer_cases:
  assumes "serves i s" and "answer e s = Inr s'"
  shows "i < length calls \<and> entry_regs e 17 = si_num (calls ! i) \<and> serves (Suc i) s' \<and> answered (calls ! i) e (gregs s')"
proof -
  have "i \<noteq> length calls" using assms exhausted [of s e] by auto
  then have i: "i < length calls" using in_order [OF assms(1)] by simp
  then have "entry_regs e 17 = si_num (calls ! i)" using refuses [OF assms(1) i, of e] assms(2) by auto
  then show ?thesis using answers [OF assms(1) i, of e] assms(2) i by auto
qed

text \<open>Every run answers the recorded calls in order and no others.\<close>

lemma run_follows_record:
  assumes "replays answer env s tr s'" and "serves i s" and "\<And>j t t'. serves j t \<Longrightarrow> env t t' \<Longrightarrow> serves j t'"
  shows "i + length tr \<le> length calls \<and> serves (i + length tr) s' \<and>
    (\<forall>k < length tr. entry_regs (fst (tr ! k)) 17 = si_num (calls ! (i + k)) \<and>
       answered (calls ! (i + k)) (fst (tr ! k)) (gregs (snd (tr ! k))))"
  using assms(1,2)
proof (induction arbitrary: i rule: replays.induct)
  case (no_call s)
  then show ?case using in_order by simp
next
  case (next_call s s1 e s2 tr s')
  have "serves i s1" using assms(3) next_call by blast
  from answer_cases [OF this next_call.hyps(2)] have c: "i < length calls" "entry_regs e 17 = si_num (calls ! i)"
    "serves (Suc i) s2" "answered (calls ! i) e (gregs s2)" by auto
  from next_call.IH [OF c(3)] show ?case using c(2,4) by (auto simp: nth_Cons split: nat.splits)
qed

text \<open>A program that makes the recorded calls is never stopped before the last one.\<close>

lemma run_exists:
  assumes "serves i s" and "i \<le> length calls"
    and "map (\<lambda>e. entry_regs e 17) es = map si_num (drop i calls)"
  shows "\<exists>tr s'. replays answer (=) s tr s' \<and> map fst tr = es \<and> serves (length calls) s' \<and> (\<forall>e. answer e s' = Inl (ExitProg 0))"
  using assms
proof (induction es arbitrary: i s)
  case Nil
  then have "i = length calls" by simp
  then show ?case using Nil.prems(1) exhausted [of s] by (intro exI [of _ "[]"] exI [of _ s]) (simp add: replays.no_call)
next
  case (Cons e es)
  then have i: "i < length calls" by (cases "i = length calls") auto
  then have "drop i calls = calls ! i # drop (Suc i) calls" by (rule Cons_nth_drop_Suc [symmetric])
  with Cons.prems have e: "entry_regs e 17 = si_num (calls ! i)" "map (\<lambda>e. entry_regs e 17) es = map si_num (drop (Suc i) calls)" by simp_all
  obtain s2 where s2: "answer e s = Inr s2" "serves (Suc i) s2" using answers [OF Cons.prems(1) i e(1)] by blast
  obtain tr s' where "replays answer (=) s2 tr s'" "map fst tr = es" "serves (length calls) s'" "\<forall>e. answer e s' = Inl (ExitProg 0)"
    using Cons.IH [OF s2(2) _ e(2)] i by auto
  then show ?case using s2(1) by (intro exI [of _ "(e, s2) # tr"] exI [of _ s']) (auto intro: replays.next_call)
qed

end

section \<open>The loader with temporary registers\<close>

text \<open>The section of the recorded calls is in place, \<open>i\<close> of them have been answered.\<close>

definition section_ok :: "SyscallInfo list \<Rightarrow> bytes \<Rightarrow> u64 \<Rightarrow> bool" where
  "section_ok calls sec base \<longleftrightarrow>
     (\<forall>i < length calls. sec_call sec (length calls) i (calls ! i) \<and> call_fits base sec (calls ! i))"

definition serving :: "SyscallInfo list \<Rightarrow> bytes \<Rightarrow> nat \<Rightarrow> loader \<Rightarrow> bool" where
  "serving calls sec i l \<longleftrightarrow> sec_loaded l sec (length calls) \<and> section_ok calls sec (syscall_info_addr (runinfo l)) \<and>
     nowcallnum (runinfo l) = of_nat i \<and> i \<le> length calls \<and> exit_apart l sec"

definition hw_serves :: "SyscallInfo list \<Rightarrow> bytes \<Rightarrow> nat \<Rightarrow> loader \<times> hwregs \<Rightarrow> bool" where
  "hw_serves calls sec i st \<longleftrightarrow> serving calls sec i (fst st)"

definition hw_answer :: "entry \<Rightarrow> loader \<times> hwregs \<Rightarrow> (loader \<times> hwregs) res" where
  "hw_answer e st = hw_takeoverSyscall (fst e) (fst (snd e)) (entry_regs e) st"

lemma serving_small:
  assumes "serving calls sec i l" and "i < length calls"
  shows "\<not> totalcallnum (runinfo l) \<le> nowcallnum (runinfo l)"
  using assms by (auto simp: serving_def sec_loaded_def word_le_nat_alt unat_of_nat_u64)

text \<open>The number of the call in the record that is looked up.\<close>

lemma serving_number:
  assumes "serving calls sec i l" and "i < length calls" and "lmem l' = lmem l"
    "syscall_info_addr (runinfo l') = syscall_info_addr (runinfo l)" "totalcallnum (runinfo l') = totalcallnum (runinfo l)"
  shows "drop_bit 32 (sr_num (sysinfo_at l' (ucast (sysidx_at l' (of_nat i))))) = si_num (calls ! i)"
proof -
  let ?s = "calls ! i" and ?n = "length calls"
  have a: "sec_loaded l sec ?n" "sec_call sec ?n i ?s" "call_fits (syscall_info_addr (runinfo l)) sec ?s"
    using assms(1,2) by (simp_all add: serving_def section_ok_def)
  have sec: "sec_loaded l' sec ?n" using a(1) assms(3-5) by (subst sec_loaded_cong [of _ l]) simp_all
  have len: "length sec < 2 ^ 32 - 1" using a(1) by (simp add: sec_loaded_def)
  from a(2) len obtain r off where r: "8 + 4 * ?n + 40 * r + 40 \<le> length sec"
    "take 4 (drop (8 + 4 * i) sec) = le32 (of_nat r)" "take 40 (drop (8 + 4 * ?n + 40 * r) sec) = rec_bytes ?s (of_nat off)"
    "payload_at sec off ?s" by (rule sec_call_parts)
  have rl: "r < 2 ^ 32" using r(1) len by linarith
  have "length (si_data ?s) < 2 ^ 32" using r(4) len by (cases "si_data ?s = []") (simp_all add: payload_at_def)
  then have "drop_bit 32 (push_bit 32 (si_num ?s) + of_nat (length (si_data ?s))) = si_num ?s"
    using a(3) by (intro num_field(1)) (simp_all add: call_fits_def)
  then show ?thesis
    using sysidx_at_section [OF sec assms(2) r(2)] sysinfo_at_section [OF sec r(1,3)] by (simp add: ucast_of_nat_u32 [OF rl])
qed

lemma hw_refuses:
  assumes "serving calls sec i l" and "i < length calls" and "regs 17 \<noteq> si_num (calls ! i)"
  shows "hw_takeoverSyscall ci0 ci1 regs (l, h) = Inl (ExitProg 0)"
proof -
  define l2 where "l2 = (Save_ProgramIntRegs regs l)\<lparr>runinfo := (runinfo l)\<lparr>ri_cycles := ri_cycles (runinfo l) + (fst ci0 - lastcycles (runinfo l)),
                   ri_insts := ri_insts (runinfo l) + (snd ci0 - lastinsts (runinfo l))\<rparr>\<rparr>"
  have "lmem l2 = lmem l" "syscall_info_addr (runinfo l2) = syscall_info_addr (runinfo l)" "totalcallnum (runinfo l2) = totalcallnum (runinfo l)"
    by (simp_all add: l2_def Save_ProgramIntRegs_def)
  from serving_number [OF assms(1,2) this] have nm: "drop_bit 32 (sr_num (sysinfo_at l2 (ucast (sysidx_at l2 (of_nat i))))) = si_num (calls ! i)" .
  have r17: "program_intregs l2 17 = regs 17" by (simp add: l2_def Save_ProgramIntRegs_def)
  have now: "nowcallnum (runinfo l) = of_nat i" using assms(1) by (simp add: serving_def)
  have ri: "runinfo (Save_ProgramIntRegs regs l) = runinfo l" by (simp add: Save_ProgramIntRegs_def)
  show ?thesis
    using serving_small [OF assms(1,2)] assms(3)
    unfolding hw_takeoverSyscall_def prod.case Let_def ri l2_def [symmetric] by (simp add: now nm r17)
qed

interpretation hw: replayer hw_answer "hw_serves calls sec" calls "\<lambda>st. program_intregs (fst st)" for calls sec
proof
  fix i e and st :: "loader \<times> hwregs"
  obtain l h where st: "st = (l, h)" by (cases st)
  assume s: "hw_serves calls sec i st" and i: "i < length calls"
  then have sv: "serving calls sec i l" by (simp add: hw_serves_def st)
  show "\<exists>s'. hw_answer e st = Inr s' \<and> hw_serves calls sec (Suc i) s' \<and> answered (calls ! i) e (program_intregs (fst s'))"
    if num: "entry_regs e 17 = si_num (calls ! i)"
  proof -
    have a: "sec_loaded l sec (length calls)" "sec_call sec (length calls) i (calls ! i)" "nowcallnum (runinfo l) = of_nat i"
      "call_fits (syscall_info_addr (runinfo l)) sec (calls ! i)" "exit_apart l sec"
      using sv i by (simp_all add: serving_def section_ok_def)
    obtain l' h' where r: "hw_takeoverSyscall (fst e) (fst (snd e)) (entry_regs e) (l, h) = Inr (l', h')" "program_intregs l' 10 = call_a0 (calls ! i)"
      "\<forall>x. 1 \<le> x \<and> x < 32 \<and> x \<noteq> 10 \<longrightarrow> program_intregs l' x = entry_regs e x"
      "nowcallnum (runinfo l') = of_nat (Suc i)" "sec_loaded l' sec (length calls)" "exit_apart l' sec"
      "syscall_info_addr (runinfo l') = syscall_info_addr (runinfo l)"
      by (rule hw_takeover_replays [where regs = "entry_regs e" and h = h and ?ci0.0 = "fst e" and ?ci1.0 = "fst (snd e)", OF a(1,2) i a(3) num a(4,5)]) simp
    then have "hw_serves calls sec (Suc i) (l', h')" using sv i by (simp add: hw_serves_def serving_def)
    then show ?thesis using r by (auto simp: hw_answer_def st answered_def)
  qed
  show "hw_answer e st = Inl (ExitProg 0)" if "entry_regs e 17 \<noteq> si_num (calls ! i)"
    using hw_refuses [where regs = "entry_regs e", OF sv i that] by (simp add: hw_answer_def st)
next
  fix st :: "loader \<times> hwregs" and e
  obtain l h where st: "st = (l, h)" by (cases st)
  assume "hw_serves calls sec (length calls) st"
  then have "totalcallnum (runinfo l) \<le> nowcallnum (runinfo l)" by (simp add: hw_serves_def serving_def sec_loaded_def st)
  then show "hw_answer e st = Inl (ExitProg 0)" by (simp add: hw_answer_def st hw_takeoverSyscall_def Let_def Save_ProgramIntRegs_def)
next
  fix i and st :: "loader \<times> hwregs"
  assume "hw_serves calls sec i st"
  then show "i \<le> length calls" by (simp add: hw_serves_def serving_def)
qed

section \<open>The loader that patches jumps\<close>

text \<open>Every record has its jump, and neither the jumps nor the exit lie in the section of calls.\<close>

definition jumps_ok :: "loader \<Rightarrow> bytes \<Rightarrow> nat \<Rightarrow> bool" where
  "jumps_ok l sec n \<longleftrightarrow>
     (\<forall>i < n. Suc (unat (sysidx_at l (of_nat i))) < length (sysJmpinfos (runinfo l))) \<and>
     (\<forall>j \<in> set (sysJmpinfos (runinfo l)). apart (syscall_info_addr (runinfo l)) (length sec) (jal_addr j) 4)"

definition jp_serves :: "SyscallInfo list \<Rightarrow> bytes \<Rightarrow> nat \<Rightarrow> loader \<Rightarrow> bool" where
  "jp_serves calls sec i l \<longleftrightarrow> serving calls sec i l \<and> jumps_ok l sec (length calls)"

definition jp_answer :: "entry \<Rightarrow> loader \<Rightarrow> loader res" where
  "jp_answer e l = takeoverSyscall (fst e) (fst (snd e)) (entry_regs e) l"

lemma takeover_runinfo [simp]:
  "runinfo (Save_ProgramIntRegs regs l) = runinfo l" "runinfo (takeover_data infos l) = runinfo l" "runinfo (takeover_ret idx l) = runinfo l"
  "runinfo (takeover_count l) = (runinfo l)\<lparr>nowcallnum := nowcallnum (runinfo l) + 1\<rparr>"
  by (simp_all add: Save_ProgramIntRegs_def takeover_data_def takeover_ret_def takeover_count_def Let_def)

lemma takeover_jmp_runinfo: "takeover_jmp l = Inr l' \<Longrightarrow> runinfo l' = runinfo l"
  by (auto simp: takeover_jmp_def Let_def split: if_splits prod.splits)

lemma takeoverSyscall_keeps:
  assumes "takeoverSyscall ci0 ci1 regs l = Inr l'"
  shows "syscall_info_addr (runinfo l') = syscall_info_addr (runinfo l)" "totalcallnum (runinfo l') = totalcallnum (runinfo l)"
    "exitpc (runinfo l') = exitpc (runinfo l)" "sysJmpinfos (runinfo l') = sysJmpinfos (runinfo l)"
  using assms unfolding takeoverSyscall_def Let_def
  by (auto simp: res_bind_eq_Inr dest!: takeover_jmp_runinfo split: if_splits)

lemma sysidx_same_section:
  assumes "serving calls sec k l" and "sec_loaded l' sec (length calls)" and "i < length calls"
  shows "sysidx_at l' (of_nat i) = sysidx_at l (of_nat i)"
proof -
  have a: "sec_loaded l sec (length calls)" "sec_call sec (length calls) i (calls ! i)" "length sec < 2 ^ 32 - 1"
    using assms by (simp_all add: serving_def section_ok_def sec_loaded_def)
  from a(2,3) obtain r off where "8 + 4 * length calls + 40 * r + 40 \<le> length sec" "take 4 (drop (8 + 4 * i) sec) = le32 (of_nat r)"
    "take 40 (drop (8 + 4 * length calls + 40 * r) sec) = rec_bytes (calls ! i) (of_nat off)" "payload_at sec off (calls ! i)" by (rule sec_call_parts)
  then show ?thesis using sysidx_at_section [OF a(1) assms(3)] sysidx_at_section [OF assms(2,3)] by simp
qed

lemma armed_section:
  assumes sec: "sec_loaded l sec n" and fits: "call_fits (syscall_info_addr (runinfo l)) sec s" and ex: "exit_apart l sec"
    and j: "apart (syscall_info_addr (runinfo l)) (length sec) a 4"
    and l': "lmem l' = armed_mem (runinfo l) (put32 a w (call_mem s (lmem l)))"
      "syscall_info_addr (runinfo l') = syscall_info_addr (runinfo l)" "totalcallnum (runinfo l') = totalcallnum (runinfo l)"
  shows "sec_loaded l' sec n"
proof -
  have 1: "sec_loaded (l\<lparr>lmem := call_mem s (lmem l)\<rparr>) sec n" using sec_loaded_data [OF sec fits] .
  have 2: "sec_loaded (l\<lparr>lmem := put32 a w (call_mem s (lmem l))\<rparr>) sec n" using sec_loaded_put32 [OF 1, of a w] j by simp
  have 3: "sec_loaded (l\<lparr>lmem := put32 (exitpc (runinfo l)) v (put32 a w (call_mem s (lmem l)))\<rparr>) sec n" for v
    using sec_loaded_put32 [OF 2, of "exitpc (runinfo l)" v] ex by (simp add: exit_apart_def)
  show ?thesis
    using 2 3 [of "exitJmpInst (runinfo l)"]
    by (subst sec_loaded_cong [of l' "l\<lparr>lmem := lmem l'\<rparr>"]) (auto simp: l' armed_mem_def split: if_splits)
qed

lemma jp_answers:
  assumes sv: "jp_serves calls sec i l" and i: "i < length calls" and num: "regs 17 = si_num (calls ! i)"
  shows "\<exists>l'. takeoverSyscall ci0 ci1 regs l = Inr l' \<and> jp_serves calls sec (Suc i) l' \<and>
    program_intregs l' 10 = call_a0 (calls ! i) \<and> (\<forall>x. 1 \<le> x \<and> x < 32 \<and> x \<noteq> 10 \<longrightarrow> program_intregs l' x = regs x)"
proof -
  let ?s = "calls ! i" and ?n = "length calls"
  define j where "j = sysJmpinfos (runinfo l) ! Suc (unat (sysidx_at l (of_nat i)))"
  have s0: "serving calls sec i l" using sv by (simp add: jp_serves_def)
  have a: "sec_loaded l sec ?n" "sec_call sec ?n i ?s" "nowcallnum (runinfo l) = of_nat i"
    "call_fits (syscall_info_addr (runinfo l)) sec ?s" "exit_apart l sec"
    "Suc (unat (sysidx_at l (of_nat i))) < length (sysJmpinfos (runinfo l))"
    using sv i by (simp_all add: jp_serves_def serving_def section_ok_def jumps_ok_def)
  have j4: "apart (syscall_info_addr (runinfo l)) (length sec) (jal_addr j) 4"
    using sv nth_mem [OF a(6)] by (simp add: jp_serves_def jumps_ok_def j_def)
  obtain l' where r: "takeoverSyscall ci0 ci1 regs l = Inr l'"
    "lmem l' = armed_mem (runinfo l) (put32 (jal_addr j) (jal_inst j) (call_mem ?s (lmem l)))"
    "program_intregs l' 10 = call_a0 ?s" "\<forall>x. 1 \<le> x \<and> x < 32 \<and> x \<noteq> 10 \<longrightarrow> program_intregs l' x = regs x"
    "nowcallnum (runinfo l') = of_nat (Suc i)"
    by (rule takeover_replays [where regs = regs and ?ci0.0 = ci0 and ?ci1.0 = ci1, OF a(1,2) i a(3) num a(4,6)]) (simp add: j_def)
  note k = takeoverSyscall_keeps [OF r(1)]
  have sec': "sec_loaded l' sec ?n" using armed_section [OF a(1,4,5) j4 r(2) k(1,2)] .
  have "jp_serves calls sec (Suc i) l'"
    using sv sec' i r(5) k sysidx_same_section [OF s0 sec']
    by (auto simp: jp_serves_def serving_def jumps_ok_def exit_apart_def)
  then show ?thesis using r by blast
qed

lemma jp_refuses:
  assumes "serving calls sec i l" and "i < length calls" and "regs 17 \<noteq> si_num (calls ! i)"
  shows "takeoverSyscall ci0 ci1 regs l = Inl (ExitProg 0)"
proof -
  define l2 where "l2 = (Save_ProgramIntRegs regs l)\<lparr>runinfo := (runinfo l)\<lparr>ri_cycles := ri_cycles (runinfo l) + (fst ci0 - lastcycles (runinfo l)),
                   ri_insts := ri_insts (runinfo l) + (snd ci0 - lastinsts (runinfo l))\<rparr>\<rparr>"
  have "lmem l2 = lmem l" "syscall_info_addr (runinfo l2) = syscall_info_addr (runinfo l)" "totalcallnum (runinfo l2) = totalcallnum (runinfo l)"
    by (simp_all add: l2_def Save_ProgramIntRegs_def)
  from serving_number [OF assms(1,2) this] have nm: "drop_bit 32 (sr_num (sysinfo_at l2 (ucast (sysidx_at l2 (of_nat i))))) = si_num (calls ! i)" .
  have r17: "program_intregs l2 17 = regs 17" by (simp add: l2_def Save_ProgramIntRegs_def)
  have now: "nowcallnum (runinfo l) = of_nat i" using assms(1) by (simp add: serving_def)
  have ri: "runinfo (Save_ProgramIntRegs regs l) = runinfo l" by (simp add: Save_ProgramIntRegs_def)
  show ?thesis
    using serving_small [OF assms(1,2)] assms(3)
    unfolding takeoverSyscall_def Let_def ri l2_def [symmetric] by (simp add: now nm r17)
qed

interpretation jp: replayer jp_answer "jp_serves calls sec" calls program_intregs for calls sec
proof
  fix i e l
  assume s: "jp_serves calls sec i l" and i: "i < length calls"
  show "\<exists>s'. jp_answer e l = Inr s' \<and> jp_serves calls sec (Suc i) s' \<and> answered (calls ! i) e (program_intregs s')"
    if "entry_regs e 17 = si_num (calls ! i)"
    using jp_answers [where regs = "entry_regs e", OF s i that, of "fst e" "fst (snd e)"] by (auto simp: jp_answer_def answered_def)
  show "jp_answer e l = Inl (ExitProg 0)" if "entry_regs e 17 \<noteq> si_num (calls ! i)"
    using jp_refuses [where regs = "entry_regs e" and sec = sec and l = l, OF _ i that] s by (simp add: jp_answer_def jp_serves_def)
next
  fix l e
  assume "jp_serves calls sec (length calls) l"
  then have "totalcallnum (runinfo l) \<le> nowcallnum (runinfo l)" by (simp add: jp_serves_def serving_def sec_loaded_def)
  then show "jp_answer e l = Inl (ExitProg 0)" by (simp add: jp_answer_def takeover_overflow)
next
  fix i l
  assume "jp_serves calls sec i l"
  then show "i \<le> length calls" by (simp add: jp_serves_def serving_def)
qed

end
