(* ===== verification/Decoder.thy ===== *)
theory Decoder
  imports HwLoader TraceCollect
begin

text \<open>
  Fetching and decoding in the two simulators, \<open>gem5_create\<close> and \<open>gem5_restore\<close>
  (\<open>arch/riscv/decoder.cc\<close>, \<open>arch/riscv/decoder.hh\<close>, the fetch part of
  \<open>cpu/simple/base.cc\<close>). Both decoders were extended with instructions that move values to and from
  additional integer registers and jump through them; the loader of \<open>readckpt\<close> uses them. The table of instructions,
  \<open>decodeInst\<close>, is generated when gem5 is built and is a parameter here. It returns a
  new object on every call, so an object can be a value.
\<close>

unbundle bit_operations_syntax

section \<open>Instructions\<close>

type_synonym RegId = "RegClass \<times> u16"

text \<open>
  The fields of a \<open>StaticInst\<close> that the decoder writes: the arrays of registers and \<open>isCompressed\<close>, which is \<open>None\<close> as long as nothing
  was assigned to it. \<open>di_op\<close> stands for the rest of the object.
\<close>

record 'k decoded =
  di_src :: "RegId list"
  di_dest :: "RegId list"
  di_isCompressed :: "bool option"
  di_op :: 'k

definition setSrcRegIdx :: "nat \<Rightarrow> RegId \<Rightarrow> 'k decoded \<Rightarrow> 'k decoded res" where
  "setSrcRegIdx i v si =
     (if i < length (di_src si) then Inr (si\<lparr>di_src := (di_src si)[i := v]\<rparr>) else Inl OutOfBounds)"

definition setDestRegIdx :: "nat \<Rightarrow> RegId \<Rightarrow> 'k decoded \<Rightarrow> 'k decoded res" where
  "setDestRegIdx i v si =
     (if i < length (di_dest si) then Inr (si\<lparr>di_dest := (di_dest si)[i := v]\<rparr>) else Inl OutOfBounds)"

section \<open>The decoder\<close>

record 'k decoder =
  instMap :: "u64 \<rightharpoonup> 'k decoded"
  dc_aligned :: bool
  dc_mid :: bool
  dc_more :: bool
  dc_emi :: u64
  dc_machInst :: u32
  dc_instDone :: bool

definition bits :: "'a::len word \<Rightarrow> nat \<Rightarrow> nat \<Rightarrow> 'a word" where
  "bits v first lst = take_bit (first - lst + 1) (drop_bit lst v)"

definition insertBits :: "u64 \<Rightarrow> nat \<Rightarrow> nat \<Rightarrow> u64 \<Rightarrow> u64" where
  "insertBits v first lst bit_val =
     (let bmask = push_bit lst (mask (first - lst + 1))
      in (v AND NOT bmask) OR (push_bit lst bit_val AND bmask))"

definition compressed :: "u64 \<Rightarrow> bool" where
  "compressed inst \<longleftrightarrow> inst AND 3 < 3"

definition reset :: "'k decoder \<Rightarrow> 'k decoder" where
  "reset d = d\<lparr>dc_aligned := True, dc_mid := False, dc_more := True, dc_emi := 0, dc_instDone := False\<rparr>"

definition moreBytes :: "u64 \<Rightarrow> 'k decoder \<Rightarrow> 'k decoder res" where
  "moreBytes pc d =
     (let inst = dc_machInst d
      in if pc mod 4 = 0
         then let emi = ucast inst; emi' = (if compressed emi then bits emi 15 0 else emi)
              in Inr (d\<lparr>dc_emi := emi', dc_more := \<not> compressed emi', dc_instDone := True\<rparr>)
         else if dc_mid d
         then if bits (dc_emi d) 31 16 \<noteq> 0 then Inl AssertFailed
              else Inr (d\<lparr>dc_emi := insertBits (dc_emi d) 31 16 (ucast inst), dc_mid := False, dc_more := False, dc_instDone := True\<rparr>)
         else let emi = ucast (bits inst 31 16)
              in Inr (d\<lparr>dc_emi := emi, dc_mid := \<not> compressed emi, dc_more := True, dc_instDone := compressed emi\<rparr>))"

text \<open>
  An instruction on the additional registers, with the indices that the decoder writes into the object: read (\<open>isRTemp\<close>), write
  (\<open>isWTemp\<close>) and jump (\<open>isJTemp\<close>).
\<close>

datatype temp_inst = NoTemp | RTemp u32 u32 | WTemp u32 u32 | JTemp u32

text \<open>
  In \<open>gem5_create\<close> these are forms of \<open>addi x0, rs1, imm\<close>. The macro \<open>Support_ReadCkpt_TempRegs\<close> is defined as 0 and tested with
  \<open>#ifndef\<close>, so this is the branch that is compiled.
\<close>

definition create_temp :: "u64 \<Rightarrow> u64 \<Rightarrow> temp_inst" where
  "create_temp emi mach_inst =
     (if compressed emi then NoTemp
      else let opcode = ucast (mach_inst mod 128) :: u32; imm12 = ucast (drop_bit 20 mach_inst) :: u32;
               func3 = ucast (drop_bit 12 mach_inst mod 8) :: u32; rs1 = ucast (drop_bit 15 mach_inst mod 32) :: u32;
               rd = ucast (drop_bit 7 mach_inst mod 32) :: u32;
               isNewInst = (opcode = 0x13 \<and> func3 = 0 \<and> rd = 0)
           in if isNewInst \<and> 36 \<le> imm12 \<and> imm12 \<le> 39 then RTemp (32 + imm12 - 36) rs1
              else if isNewInst \<and> 9 \<le> imm12 \<and> imm12 \<le> 12 then WTemp rs1 (32 + imm12 - 9)
              else if isNewInst \<and> imm12 = 64 then JTemp (32 + rs1 mod 4)
              else NoTemp)"

text \<open>In \<open>gem5_restore\<close> they are forms of \<open>add\<close>, \<open>sub\<close> and \<open>or\<close> with destination \<open>x0\<close>.\<close>

definition restore_temp :: "u64 \<Rightarrow> u64 \<Rightarrow> temp_inst" where
  "restore_temp emi mach_inst =
     (if compressed emi then NoTemp
      else let opcode = ucast (mach_inst mod 128) :: u32; func7 = ucast (drop_bit 25 mach_inst) :: u32;
               func3 = ucast (drop_bit 12 mach_inst mod 8) :: u32; rs1 = ucast (drop_bit 15 mach_inst mod 32) :: u32;
               rs2 = ucast (drop_bit 20 mach_inst mod 32) :: u32; rd = ucast (drop_bit 7 mach_inst mod 32) :: u32
           in if opcode = 0x33 \<and> func7 = 0 \<and> func3 = 0 \<and> rd = 0 then RTemp (rs2 + 32) rs1
              else if opcode = 0x33 \<and> func7 = 0x20 \<and> func3 = 0 \<and> rd = 0 then WTemp rs1 (rs2 + 32)
              else if opcode = 0x33 \<and> func7 = 0 \<and> func3 = 6 \<and> rd = 0 then JTemp (rs2 + 32)
              else NoTemp)"

definition taddinst :: u64 where "taddinst = 0x80b3"
definition tjalrinst :: u64 where "tjalrinst = 0x8067"

definition temp_word :: "temp_inst \<Rightarrow> u64 \<Rightarrow> u64" where
  "temp_word t mach_inst = (case t of NoTemp \<Rightarrow> mach_inst | RTemp _ _ \<Rightarrow> taddinst | WTemp _ _ \<Rightarrow> taddinst | JTemp _ \<Rightarrow> tjalrinst)"

definition int_reg :: "u32 \<Rightarrow> RegId" where
  "int_reg i = (IntRegClass, ucast i)"

definition set_temp :: "temp_inst \<Rightarrow> 'k decoded \<Rightarrow> 'k decoded res" where
  "set_temp t si =
     (case t of NoTemp \<Rightarrow> Inr si
      | RTemp s d \<Rightarrow> res_bind (setSrcRegIdx 0 (int_reg s) si) (setDestRegIdx 0 (int_reg d))
      | WTemp s d \<Rightarrow> res_bind (setSrcRegIdx 0 (int_reg s) si) (setDestRegIdx 0 (int_reg d))
      | JTemp s \<Rightarrow> setSrcRegIdx 0 (int_reg s) si)"

text \<open>
  The part of \<open>decode\<close> that both simulators share. \<open>si\<close> is a reference into \<open>instMap\<close>, so what is written to the object is also
  what the map holds under the word that was decoded in place of the instruction.
\<close>

definition decode_temp :: "(u64 \<Rightarrow> 'k decoded) \<Rightarrow> temp_inst \<Rightarrow> u64 \<Rightarrow> 'k decoder \<Rightarrow> ('k decoded \<times> 'k decoder) res" where
  "decode_temp decodeInst t mach_inst d =
     (let w = temp_word t mach_inst;
          si = (case instMap d w of None \<Rightarrow> decodeInst w | Some si \<Rightarrow> if t = NoTemp then si else decodeInst w)
      in res_bind (set_temp t si) (\<lambda>si'. Inr (si', d\<lparr>instMap := (instMap d)(w \<mapsto> si')\<rparr>)))"

definition decode_create :: "(u64 \<Rightarrow> 'k decoded) \<Rightarrow> u64 \<Rightarrow> 'k decoder \<Rightarrow> ('k decoded \<times> 'k decoder) res" where
  "decode_create decodeInst mach_inst d = decode_temp decodeInst (create_temp (dc_emi d) mach_inst) mach_inst d"

definition decode_restore :: "(u64 \<Rightarrow> 'k decoded) \<Rightarrow> u64 \<Rightarrow> 'k decoder \<Rightarrow> ('k decoded \<times> 'k decoder) res" where
  "decode_restore decodeInst mach_inst d = decode_temp decodeInst (restore_temp (dc_emi d) mach_inst) mach_inst d"

text \<open>The branch of \<open>gem5_create\<close> that would be compiled without the macro.\<close>

definition decode_plain :: "(u64 \<Rightarrow> 'k decoded) \<Rightarrow> u64 \<Rightarrow> 'k decoder \<Rightarrow> ('k decoded \<times> 'k decoder) res" where
  "decode_plain decodeInst mach_inst d =
     (let si = (case instMap d mach_inst of None \<Rightarrow> decodeInst mach_inst | Some si \<Rightarrow> si);
          si' = si\<lparr>di_isCompressed := Some (compressed mach_inst)\<rparr>
      in Inr (si', d\<lparr>instMap := (instMap d)(mach_inst \<mapsto> si')\<rparr>))"

text \<open>\<open>decode(nextPC)\<close>: the next instruction, if one is ready, and the program counter behind it.\<close>

definition decode_next ::
  "(u64 \<Rightarrow> 'k decoder \<Rightarrow> ('k decoded \<times> 'k decoder) res) \<Rightarrow> u64 \<Rightarrow> 'k decoder \<Rightarrow> (('k decoded \<times> u64) option \<times> 'k decoder) res" where
  "decode_next decode pc d =
     (if \<not> dc_instDone d then Inr (None, d)
      else let d1 = d\<lparr>dc_instDone := False\<rparr>; npc = pc + (if compressed (dc_emi d1) then 2 else 4)
           in res_bind (decode (dc_emi d1) d1) (\<lambda>(si, d2). Inr (Some (si, npc), d2)))"

section \<open>Fetching\<close>

text \<open>
  The part of a tick up to the decoded instruction: \<open>setupFetchRequest\<close>, \<open>fetchInstMem\<close> and \<open>preExecute\<close>, on the memory as the
  thread sees it. RISC-V has no instructions of several micro operations here, so \<open>curMacroStaticInst\<close> is null.
\<close>

record 'k fetcher =
  fe_dec :: "'k decoder"
  fetchOffset :: u64
  stayAtPC :: bool

definition pcMask :: u64 where "pcMask = NOT (mask 2)"

definition fetchPC :: "u64 \<Rightarrow> 'k fetcher \<Rightarrow> u64" where
  "fetchPC pc f = (pc AND pcMask) + fetchOffset f"

definition preExecute ::
  "(u64 \<Rightarrow> 'k decoder \<Rightarrow> ('k decoded \<times> 'k decoder) res) \<Rightarrow> u64 \<Rightarrow> 'k fetcher \<Rightarrow> (('k decoded \<times> u64) option \<times> 'k fetcher) res" where
  "preExecute decode pc f =
     res_bind (moreBytes pc (fe_dec f)) (\<lambda>d1. res_bind (decode_next decode pc d1) (\<lambda>(r, d2).
       case r of Some _ \<Rightarrow> Inr (r, f\<lparr>fe_dec := d2, stayAtPC := False\<rparr>)
       | None \<Rightarrow> Inr (r, f\<lparr>fe_dec := d2, stayAtPC := True, fetchOffset := fetchOffset f + 4\<rparr>)))"

definition fetch_tick ::
  "(u64 \<Rightarrow> 'k decoder \<Rightarrow> ('k decoded \<times> 'k decoder) res) \<Rightarrow> memory \<Rightarrow> u64 \<Rightarrow> 'k fetcher \<Rightarrow> (('k decoded \<times> u64) option \<times> 'k fetcher) res" where
  "fetch_tick decode mem pc f =
     preExecute decode pc (f\<lparr>fe_dec := (fe_dec f)\<lparr>dc_machInst := get32 mem (fetchPC pc f)\<rparr>\<rparr>)"

text \<open>Up to \<open>n\<close> ticks at one program counter. \<open>advancePC\<close>, which clears the offset, is called as soon as the CPU does not stay.\<close>

fun fetch_ticks ::
  "(u64 \<Rightarrow> 'k decoder \<Rightarrow> ('k decoded \<times> 'k decoder) res) \<Rightarrow> memory \<Rightarrow> u64 \<Rightarrow> nat \<Rightarrow> 'k fetcher \<Rightarrow> (('k decoded \<times> u64) option \<times> 'k fetcher) res" where
  "fetch_ticks decode mem pc 0 f = Inr (None, f)"
| "fetch_ticks decode mem pc (Suc n) f =
     res_bind (fetch_tick decode mem pc f) (\<lambda>(r, f').
       if stayAtPC f' then fetch_ticks decode mem pc n f' else Inr (r, f'\<lparr>fetchOffset := 0\<rparr>))"

section \<open>What is fetched\<close>

text \<open>The instruction that memory holds at an address: two bytes if they are a compressed instruction, four otherwise.\<close>

definition inst_at :: "memory \<Rightarrow> u64 \<Rightarrow> u64" where
  "inst_at mem pc = (let h = le_dec (mem_read mem pc 2) in if compressed h then h else le_dec (mem_read mem pc 4))"

lemma compressed_bits: "compressed w \<longleftrightarrow> \<not> (bit w 0 \<and> bit w 1)"
proof -
  have "w AND 3 = take_bit 2 w" by (simp add: take_bit_eq_mask mask_eq_exp_minus_1)
  moreover have "take_bit 2 w = of_bool (bit w 0) + 2 * of_bool (bit w 1)"
    by (simp add: numeral_2_eq_2 take_bit_Suc bit_0 bit_Suc mod_2_eq_odd)
  ultimately show ?thesis by (auto simp: compressed_def)
qed

lemma bit_get32: "bit (get32 m a) k \<longleftrightarrow> k < 32 \<and> bit (m (a + of_nat (k div 8))) (k mod 8)"
  by (auto simp: get32_def bit_le_dec nth_mem_read)

lemma bit_half: "bit (le_dec (mem_read m a 2) :: u64) k \<longleftrightarrow> k < 16 \<and> bit (m (a + of_nat (k div 8))) (k mod 8)"
  by (auto simp: bit_le_dec nth_mem_read)

lemma bit_whole: "bit (le_dec (mem_read m a 4) :: u64) k \<longleftrightarrow> k < 32 \<and> bit (m (a + of_nat (k div 8))) (k mod 8)"
  by (auto simp: bit_le_dec nth_mem_read)

lemma get32_whole: "ucast (get32 m a) = (le_dec (mem_read m a 4) :: u64)"
  by (rule bit_word_eqI) (auto simp: bit_whole bit_get32 bit_simps)

lemma get32_low: "bits (ucast (get32 m a) :: u64) 15 0 = le_dec (mem_read m a 2)"
  by (rule bit_word_eqI) (auto simp: bits_def bit_half bit_get32 bit_simps)

lemma half_index: "(16 + j) div 8 = 2 + j div 8" "(16 + j) mod 8 = j mod 8" for j :: nat
  by presburger+

lemma get32_high: "ucast (bits (get32 m a) 31 16) = (le_dec (mem_read m (a + 2) 2) :: u64)"
proof (rule bit_word_eqI)
  fix k assume "k < LENGTH(64)"
  show "bit (ucast (bits (get32 m a) 31 16) :: u64) k = bit (le_dec (mem_read m (a + 2) 2) :: u64) k"
    by (auto simp: bits_def bit_half bit_get32 bit_simps add.assoc half_index)
qed

lemma get32_joined: "insertBits (le_dec (mem_read m a 2)) 31 16 (ucast (get32 m (a + 2))) = le_dec (mem_read m a 4)"
proof (rule bit_word_eqI)
  fix k assume "k < LENGTH(64)"
  have "a + (2 + of_nat ((k - 16) div 8)) = a + of_nat (k div 8) \<and> (k - 16) mod 8 = k mod 8" if "16 \<le> k"
  proof -
    from that obtain j where j: "k = 16 + j" by (rule less_eqE)
    have "(16 + j - 16) div 8 = j div 8" "(16 + j - 16) mod 8 = j mod 8" by (simp_all only: add_diff_cancel_left')
    then show ?thesis by (simp only: j half_index of_nat_add of_nat_numeral add.assoc simp_thms)
  qed
  then show "bit (insertBits (le_dec (mem_read m a 2)) 31 16 (ucast (get32 m (a + 2)))) k = bit (le_dec (mem_read m a 4) :: u64) k"
    by (cases "16 \<le> k") (auto simp: insertBits_def Let_def bit_half bit_whole bit_get32 bit_simps add.assoc)
qed

lemma half_high_zero: "bits (le_dec (mem_read m a 2) :: u64) 31 16 = 0"
  by (rule bit_word_eqI) (auto simp: bits_def bit_half bit_simps)

lemma compressed_whole: "compressed (le_dec (mem_read m a 4)) \<longleftrightarrow> compressed (le_dec (mem_read m a 2))"
  by (simp add: compressed_bits bit_half bit_whole)

lemma compressed_inst_at: "compressed (inst_at m a) \<longleftrightarrow> compressed (le_dec (mem_read m a 2))"
  by (simp add: inst_at_def Let_def compressed_whole)

lemma pc_base: "pc AND pcMask = pc - pc mod 4"
proof -
  have "pc AND pcMask = push_bit 2 (drop_bit 2 pc)"
  proof (rule bit_word_eqI)
    fix n assume "n < LENGTH(64)"
    moreover have "2 + (n - 2) = n" if "2 \<le> n" using that by simp
    ultimately show "bit (pc AND pcMask) n = bit (push_bit 2 (drop_bit 2 pc)) n"
      by (cases "2 \<le> n") (simp_all add: pcMask_def bit_and_iff bit_not_iff bit_mask_iff bit_push_bit_iff bit_drop_bit_eq)
  qed
  moreover have "push_bit 2 (drop_bit 2 pc) + pc mod 4 = pc" using bits_ident [of 2 pc] by (simp add: take_bit_eq_mod)
  ultimately show ?thesis by (metis add_diff_cancel_right')
qed

text \<open>Between two instructions no half of an instruction is pending and the offset is zero.\<close>

definition fetch_ready :: "'k fetcher \<Rightarrow> bool" where
  "fetch_ready f \<longleftrightarrow> fetchOffset f = 0 \<and> \<not> dc_mid (fe_dec f)"

abbreviation cached :: "'k fetcher \<Rightarrow> u64 \<rightharpoonup> 'k decoded" where
  "cached f \<equiv> instMap (fe_dec f)"

text \<open>
  What fetching needs of a decoder: given the word that was put together it answers from its map and changes nothing but the map.
\<close>

locale word_decoder =
  fixes decode :: "u64 \<Rightarrow> 'k decoder \<Rightarrow> ('k decoded \<times> 'k decoder) res"
    and look :: "u64 \<Rightarrow> (u64 \<rightharpoonup> 'k decoded) \<Rightarrow> ('k decoded \<times> (u64 \<rightharpoonup> 'k decoded)) res"
  assumes decode_look: "decode (dc_emi d) d = res_image (\<lambda>(si, m). (si, d\<lparr>instMap := m\<rparr>)) (look (dc_emi d) (instMap d))"
begin

lemma decode_ready:
  assumes "dc_instDone d"
  shows "decode_next decode pc d = res_image (\<lambda>(si, m). (Some (si, pc + (if compressed (dc_emi d) then 2 else 4)),
    d\<lparr>dc_instDone := False, instMap := m\<rparr>)) (look (dc_emi d) (instMap d))"
  using assms decode_look [of "d\<lparr>dc_instDone := False\<rparr>"]
  by (cases "look (dc_emi d) (instMap d)") (auto simp: decode_next_def Let_def)

lemma tick_ready:
  assumes "moreBytes pc ((fe_dec f)\<lparr>dc_machInst := get32 mem (fetchPC pc f)\<rparr>) = Inr d" "dc_instDone d" "\<not> dc_mid d"
  shows "\<exists>g. (\<forall>m. fetch_ready (g m) \<and> cached (g m) = m) \<and> fetch_ticks decode mem pc (Suc n) f =
    res_image (\<lambda>(si, m). (Some (si, pc + (if compressed (dc_emi d) then 2 else 4)), g m)) (look (dc_emi d) (instMap d))"
proof (intro exI conjI)
  let ?g = "\<lambda>m. f\<lparr>fe_dec := d\<lparr>dc_instDone := False, instMap := m\<rparr>, stayAtPC := False, fetchOffset := 0\<rparr>"
  show "\<forall>m. fetch_ready (?g m) \<and> cached (?g m) = m" using assms(3) by (simp add: fetch_ready_def)
  show "fetch_ticks decode mem pc (Suc n) f =
      res_image (\<lambda>(si, m). (Some (si, pc + (if compressed (dc_emi d) then 2 else 4)), ?g m)) (look (dc_emi d) (instMap d))"
    using assms(1) decode_ready [OF assms(2), of pc]
    by (cases "look (dc_emi d) (instMap d)") (auto simp: fetch_tick_def preExecute_def)
qed

text \<open>At every even address two ticks are enough to decode the instruction that memory holds there.\<close>

lemma fetched:
  assumes ready: "fetch_ready f" and pc: "pc mod 4 = 0 \<or> pc mod 4 = 2"
  shows "\<exists>g. (\<forall>m. fetch_ready (g m) \<and> cached (g m) = m) \<and> fetch_ticks decode mem pc 2 f =
    res_image (\<lambda>(si, m). (Some (si, pc + (if compressed (inst_at mem pc) then 2 else 4)), g m)) (look (inst_at mem pc) (cached f))"
proof -
  let ?d = "\<lambda>a. (fe_dec f)\<lparr>dc_machInst := get32 mem a\<rparr>"
  have r: "fetchOffset f = 0" "\<not> dc_mid (fe_dec f)" using ready by (simp_all add: fetch_ready_def)
  show ?thesis
  proof (cases "pc mod 4 = 0")
    case True
    then have a: "fetchPC pc f = pc" using r by (simp add: fetchPC_def pc_base)
    obtain d where "moreBytes pc (?d pc) = Inr d" "dc_instDone d" "\<not> dc_mid d" "dc_emi d = inst_at mem pc" "instMap d = cached f"
      using r True by (simp add: moreBytes_def Let_def get32_whole get32_low [unfolded get32_whole] inst_at_def compressed_whole)
    then show ?thesis using tick_ready [of pc mem f d 1] a by (simp add: numeral_2_eq_2)
  next
    case False
    then have m: "pc mod 4 = 2" using pc by simp
    then have a: "fetchPC pc f = pc - 2" using r by (simp add: fetchPC_def pc_base)
    let ?h = "le_dec (mem_read mem pc 2) :: u64"
    have first: "moreBytes pc (?d (pc - 2)) = Inr ((?d (pc - 2))\<lparr>dc_emi := ?h, dc_mid := \<not> compressed ?h, dc_more := True, dc_instDone := compressed ?h\<rparr>)"
      using r m get32_high [of mem "pc - 2"] by (simp add: moreBytes_def Let_def)
    show ?thesis
    proof (cases "compressed ?h")
      case True
      then show ?thesis using tick_ready [of pc mem f _ 1] first a by (simp add: numeral_2_eq_2 inst_at_def)
    next
      case c: False
      let ?f = "f\<lparr>fe_dec := (?d (pc - 2))\<lparr>dc_emi := ?h, dc_mid := True, dc_more := True, dc_instDone := False\<rparr>, stayAtPC := True, fetchOffset := 4\<rparr>"
      have one: "fetch_tick decode mem pc f = Inr (None, ?f)"
        using first a r c by (simp add: fetch_tick_def preExecute_def decode_next_def)
      have a2: "fetchPC pc ?f = pc + 2" using m by (simp add: fetchPC_def pc_base)
      have "\<exists>d. moreBytes pc ((fe_dec ?f)\<lparr>dc_machInst := get32 mem (fetchPC pc ?f)\<rparr>) = Inr d \<and> dc_instDone d \<and> \<not> dc_mid d \<and>
          dc_emi d = inst_at mem pc \<and> instMap d = cached f"
        using m c by (simp add: a2 moreBytes_def Let_def half_high_zero get32_joined inst_at_def)
      then show ?thesis using tick_ready [of pc mem ?f _ 0] one by (auto simp: numeral_2_eq_2)
    qed
  qed
qed

end

section \<open>The two decoders\<close>

text \<open>Decoding as a function of the word and the map; \<open>tmp\<close> is the form that the additional instructions have.\<close>

definition lookup_inst :: "(u64 \<Rightarrow> u64 \<Rightarrow> temp_inst) \<Rightarrow> (u64 \<Rightarrow> 'k decoded) \<Rightarrow> u64 \<Rightarrow> (u64 \<rightharpoonup> 'k decoded) \<Rightarrow> ('k decoded \<times> (u64 \<rightharpoonup> 'k decoded)) res" where
  "lookup_inst tmp decodeInst w m =
     (let t = tmp w w; v = temp_word t w
      in res_image (\<lambda>si. (si, m(v \<mapsto> si)))
           (set_temp t (if t = NoTemp then case m v of None \<Rightarrow> decodeInst v | Some si \<Rightarrow> si else decodeInst v)))"

lemma decode_temp_lookup:
  "decode_temp decodeInst (tmp w w) w d = res_image (\<lambda>(si, m). (si, d\<lparr>instMap := m\<rparr>)) (lookup_inst tmp decodeInst w (instMap d))"
  by (auto simp: decode_temp_def lookup_inst_def Let_def res_image_def res_bind_def split: sum.split option.split)

interpretation creating: word_decoder "decode_create decodeInst" "lookup_inst create_temp decodeInst" for decodeInst
  by unfold_locales (simp add: decode_create_def decode_temp_lookup)

interpretation restoring: word_decoder "decode_restore decodeInst" "lookup_inst restore_temp decodeInst" for decodeInst
  by unfold_locales (simp add: decode_restore_def decode_temp_lookup)

text \<open>What the generated table is relied on for: the two words that stand in for additional instructions have the registers that are replaced.\<close>

definition temp_shapes :: "(u64 \<Rightarrow> 'k decoded) \<Rightarrow> bool" where
  "temp_shapes decodeInst \<longleftrightarrow> di_src (decodeInst taddinst) \<noteq> [] \<and> di_dest (decodeInst taddinst) \<noteq> [] \<and> di_src (decodeInst tjalrinst) \<noteq> []"

text \<open>What a word should be decoded to: the entry of the table, with the registers replaced in an additional instruction.\<close>

definition meant :: "(u64 \<Rightarrow> u64 \<Rightarrow> temp_inst) \<Rightarrow> (u64 \<Rightarrow> 'k decoded) \<Rightarrow> u64 \<Rightarrow> 'k decoded" where
  "meant tmp decodeInst w =
     (case tmp w w of NoTemp \<Rightarrow> decodeInst w
      | RTemp s d \<Rightarrow> (decodeInst taddinst)\<lparr>di_src := (di_src (decodeInst taddinst))[0 := int_reg s], di_dest := (di_dest (decodeInst taddinst))[0 := int_reg d]\<rparr>
      | WTemp s d \<Rightarrow> (decodeInst taddinst)\<lparr>di_src := (di_src (decodeInst taddinst))[0 := int_reg s], di_dest := (di_dest (decodeInst taddinst))[0 := int_reg d]\<rparr>
      | JTemp s \<Rightarrow> (decodeInst tjalrinst)\<lparr>di_src := (di_src (decodeInst tjalrinst))[0 := int_reg s]\<rparr>)"

lemma set_temp_meant:
  assumes "temp_shapes decodeInst"
  shows "set_temp (tmp w w) (decodeInst (temp_word (tmp w w) w)) = Inr (meant tmp decodeInst w)"
  using assms by (cases "tmp w w") (simp_all add: temp_shapes_def set_temp_def temp_word_def meant_def setSrcRegIdx_def setDestRegIdx_def)

text \<open>
  The map as it is during a run: apart from the two words that stand in for additional instructions every entry is the one of the table.
\<close>

definition cache_ok :: "(u64 \<Rightarrow> 'k decoded) \<Rightarrow> (u64 \<rightharpoonup> 'k decoded) \<Rightarrow> bool" where
  "cache_ok decodeInst m \<longleftrightarrow> (\<forall>w si. m w = Some si \<longrightarrow> w \<noteq> taddinst \<longrightarrow> w \<noteq> tjalrinst \<longrightarrow> si = decodeInst w)"

lemma cache_ok_empty: "cache_ok decodeInst Map.empty"
  by (simp add: cache_ok_def)

lemma lookup_ok:
  assumes "temp_shapes decodeInst" "cache_ok decodeInst m"
  shows "\<exists>si m'. lookup_inst tmp decodeInst w m = Inr (si, m') \<and> cache_ok decodeInst m' \<and>
    (tmp w w \<noteq> NoTemp \<or> w \<noteq> taddinst \<and> w \<noteq> tjalrinst \<longrightarrow> si = meant tmp decodeInst w)"
proof (cases "tmp w w = NoTemp")
  case True
  then show ?thesis using assms(2)
    by (auto simp: lookup_inst_def Let_def set_temp_def temp_word_def meant_def cache_ok_def split: option.split)
next
  case False
  then have "temp_word (tmp w w) w = taddinst \<or> temp_word (tmp w w) w = tjalrinst" by (cases "tmp w w") (simp_all add: temp_word_def)
  then show ?thesis using False assms set_temp_meant [OF assms(1), of tmp w] by (auto simp: lookup_inst_def Let_def cache_ok_def)
qed

section \<open>Sequences of instructions\<close>

text \<open>Fetching instruction after instruction, each at its program counter and with memory as it is then.\<close>

fun fetch_run ::
  "(u64 \<Rightarrow> 'k decoder \<Rightarrow> ('k decoded \<times> 'k decoder) res) \<Rightarrow> (memory \<times> u64) list \<Rightarrow> 'k fetcher \<Rightarrow> (('k decoded \<times> u64) option list \<times> 'k fetcher) res" where
  "fetch_run decode [] f = Inr ([], f)"
| "fetch_run decode ((mem, pc) # xs) f =
     res_bind (fetch_ticks decode mem pc 2 f) (\<lambda>(r, f'). res_bind (fetch_run decode xs f') (\<lambda>(rs, f''). Inr (r # rs, f'')))"

definition ordinary :: "(u64 \<Rightarrow> u64 \<Rightarrow> temp_inst) \<Rightarrow> u64 \<Rightarrow> bool" where
  "ordinary tmp w \<longleftrightarrow> tmp w w \<noteq> NoTemp \<or> w \<noteq> taddinst \<and> w \<noteq> tjalrinst"

definition decodes_as :: "(u64 \<Rightarrow> u64 \<Rightarrow> temp_inst) \<Rightarrow> (u64 \<Rightarrow> 'k decoded) \<Rightarrow> memory \<times> u64 \<Rightarrow> ('k decoded \<times> u64) option \<Rightarrow> bool" where
  "decodes_as tmp decodeInst = (\<lambda>(mem, pc) r. \<exists>si. r = Some (si, pc + (if compressed (inst_at mem pc) then 2 else 4)) \<and>
     (ordinary tmp (inst_at mem pc) \<longrightarrow> si = meant tmp decodeInst (inst_at mem pc)))"

lemma fetch_run_ok:
  assumes "word_decoder decode (lookup_inst tmp decodeInst)" and shapes: "temp_shapes decodeInst"
    and "fetch_ready f" "cache_ok decodeInst (cached f)" and "\<forall>(mem, pc) \<in> set xs. pc mod 4 = 0 \<or> pc mod 4 = 2"
  shows "\<exists>rs f'. fetch_run decode xs f = Inr (rs, f') \<and> fetch_ready f' \<and> cache_ok decodeInst (cached f') \<and>
    list_all2 (decodes_as tmp decodeInst) xs rs"
  using assms(3-)
proof (induction xs arbitrary: f)
  case (Cons x xs)
  obtain mem pc where x: "x = (mem, pc)" by (cases x)
  obtain si m' where l: "lookup_inst tmp decodeInst (inst_at mem pc) (cached f) = Inr (si, m')" "cache_ok decodeInst m'"
    "ordinary tmp (inst_at mem pc) \<longrightarrow> si = meant tmp decodeInst (inst_at mem pc)"
    using lookup_ok [OF shapes Cons.prems(2), of tmp "inst_at mem pc"] by (auto simp: ordinary_def)
  have "pc mod 4 = 0 \<or> pc mod 4 = 2" using Cons.prems(3) x by auto
  from word_decoder.fetched [OF assms(1) Cons.prems(1) this, of mem] l(1) obtain f1 where
    f1: "fetch_ticks decode mem pc 2 f = Inr (Some (si, pc + (if compressed (inst_at mem pc) then 2 else 4)), f1)" "fetch_ready f1" "cached f1 = m'"
    by auto
  with Cons.IH [of f1] Cons.prems(3) l(2) obtain rs f' where
    "fetch_run decode xs f1 = Inr (rs, f')" "fetch_ready f'" "cache_ok decodeInst (cached f')" "list_all2 (decodes_as tmp decodeInst) xs rs" by auto
  then show ?case using x f1(1) l(3) by (auto simp: decodes_as_def)
qed simp

section \<open>The instructions of the loader\<close>

text \<open>The word of \<open>addi x0, rs1, imm\<close>, which \<open>define.h\<close> of \<open>readckpt\<close> uses for all its special instructions.\<close>

definition addi_x0 :: "5 word \<Rightarrow> 12 word \<Rightarrow> u32" where
  "addi_x0 rs1 imm = push_bit 20 (ucast imm) OR push_bit 15 (ucast rs1) OR 0x13"

definition Set_TempReg_word :: "5 word \<Rightarrow> 12 word \<Rightarrow> u32" where
  "Set_TempReg_word srcreg n = addi_x0 srcreg (9 + n)"

definition Get_TempReg_word :: "5 word \<Rightarrow> 12 word \<Rightarrow> u32" where
  "Get_TempReg_word dstreg n = addi_x0 dstreg (36 + n)"

definition SpecialInst_URet_word :: "5 word \<Rightarrow> u32" where
  "SpecialInst_URet_word r = addi_x0 r 64"

lemma JmpRTemp3_word: "JmpRTemp3Inst = SpecialInst_URet_word 3"
  by (simp add: JmpRTemp3Inst_def SpecialInst_URet_word_def addi_x0_def)

lemma bit_0x13:
  "bit (0x13 :: u32) k \<longleftrightarrow> k = 0 \<or> k = 1 \<or> k = 4" "bit (0x13 :: u64) k \<longleftrightarrow> k = 0 \<or> k = 1 \<or> k = 4"
proof -
  have "(0x13 :: u32) = 2 ^ 4 OR (2 ^ 1 OR 2 ^ 0)" "(0x13 :: u64) = 2 ^ 4 OR (2 ^ 1 OR 2 ^ 0)" by simp_all
  then show "bit (0x13 :: u32) k \<longleftrightarrow> k = 0 \<or> k = 1 \<or> k = 4" "bit (0x13 :: u64) k \<longleftrightarrow> k = 0 \<or> k = 1 \<or> k = 4"
    by (simp_all only: bit_or_iff bit_exp_iff) auto
qed

lemma addi_fields:
  fixes rs1 :: "5 word" and imm :: "12 word"
  defines "w \<equiv> ucast (addi_x0 rs1 imm) :: u64"
  shows "ucast (w mod 128) = (0x13 :: u32)" "ucast (drop_bit 20 w) = (ucast imm :: u32)" "ucast (drop_bit 12 w mod 8) = (0 :: u32)"
    "ucast (drop_bit 15 w mod 32) = (ucast rs1 :: u32)" "ucast (drop_bit 7 w mod 32) = (0 :: u32)" "\<not> compressed w"
proof -
  have t: "x mod 128 = take_bit 7 x" "x mod 8 = take_bit 3 x" "x mod 32 = take_bit 5 x" for x :: u64 by (simp_all add: take_bit_eq_mod)
  have b: "bit w k \<longleftrightarrow> k < 32 \<and> (20 \<le> k \<and> bit imm (k - 20) \<or> 15 \<le> k \<and> bit rs1 (k - 15) \<or> k = 0 \<or> k = 1 \<or> k = 4)" for k
    by (auto simp only: w_def addi_x0_def bit_0x13 bit_unsigned_iff bit_or_iff bit_push_bit_iff possible_bit_word len_num1 len_bit0; auto)
  have n: "bit imm k \<Longrightarrow> k < 12" "bit rs1 k \<Longrightarrow> k < 5" for k using bit_imp_le_length [of imm k] bit_imp_le_length [of rs1 k] by auto
  show "ucast (w mod 128) = (0x13 :: u32)" unfolding t by (rule bit_word_eqI, unfold bit_0x13) (auto simp: b bit_simps)
  show "ucast (drop_bit 20 w) = (ucast imm :: u32)" by (rule bit_word_eqI) (auto simp: b bit_simps dest: n)
  show "ucast (drop_bit 12 w mod 8) = (0 :: u32)" unfolding t by (rule bit_word_eqI) (auto simp: b bit_simps)
  show "ucast (drop_bit 15 w mod 32) = (ucast rs1 :: u32)" unfolding t by (rule bit_word_eqI) (auto simp: b bit_simps dest: n)
  show "ucast (drop_bit 7 w mod 32) = (0 :: u32)" unfolding t by (rule bit_word_eqI) (auto simp: b bit_simps)
  show "\<not> compressed w" by (simp add: compressed_bits b)
qed

lemma temp_number: "n < 4 \<Longrightarrow> n = 0 \<or> n = 1 \<or> n = 2 \<or> n = 3" for n :: "12 word"
proof -
  assume "n < 4"
  then have "unat n = 0 \<or> unat n = 1 \<or> unat n = 2 \<or> unat n = 3" by (auto simp: word_less_nat_alt)
  then show ?thesis by (simp add: word_unat_eq_iff)
qed

text \<open>The simulator that records takes them for the additional instructions they are meant as.\<close>

lemma create_temp_addi:
  defines "w r i \<equiv> ucast (addi_x0 r i) :: u64"
  shows "n < 4 \<Longrightarrow> create_temp (w r (9 + n)) (w r (9 + n)) = WTemp (ucast r) (32 + ucast n)"
    and "n < 4 \<Longrightarrow> create_temp (w r (36 + n)) (w r (36 + n)) = RTemp (32 + ucast n) (ucast r)"
    and "create_temp (w r 64) (w r 64) = JTemp (32 + ucast r mod 4)"
  by (auto simp: create_temp_def w_def addi_fields Let_def dest!: temp_number)

text \<open>For the simulator in \<open>gem5_restore\<close> they are ordinary additions to \<open>x0\<close>.\<close>

lemma restore_temp_addi: "restore_temp (ucast (addi_x0 r i)) (ucast (addi_x0 r i)) = NoTemp"
  by (simp add: restore_temp_def addi_fields Let_def)

lemma inst_at_word:
  assumes "get32 mem pc = w" "\<not> compressed (ucast w)"
  shows "inst_at mem pc = ucast w"
  using assms compressed_whole [of mem pc] get32_whole [of mem pc] by (simp add: inst_at_def Let_def)

lemma planted_jump_at:
  assumes "get32 mem pc = JmpRTemp3Inst"
  shows "inst_at mem pc = ucast (SpecialInst_URet_word 3)"
  using inst_at_word [OF assms] addi_fields(6) [of 3 64] by (simp add: JmpRTemp3_word SpecialInst_URet_word_def)

lemma planted_jump_meant:
  "meant create_temp decodeInst (ucast (SpecialInst_URet_word 3)) =
     (decodeInst tjalrinst)\<lparr>di_src := (di_src (decodeInst tjalrinst))[0 := (IntRegClass, 35)]\<rparr>"
  "meant restore_temp decodeInst (ucast (SpecialInst_URet_word 3)) = decodeInst (ucast (SpecialInst_URet_word 3))"
  by (simp_all add: meant_def SpecialInst_URet_word_def create_temp_addi(3) restore_temp_addi int_reg_def)

lemma planted_jump_ordinary:
  "ordinary create_temp (ucast (SpecialInst_URet_word 3))" "ordinary restore_temp (ucast (SpecialInst_URet_word 3))"
proof -
  show "ordinary create_temp (ucast (SpecialInst_URet_word 3))" by (simp add: ordinary_def SpecialInst_URet_word_def create_temp_addi(3))
  have "(ucast (SpecialInst_URet_word 3) :: u64) = 0x4018013" by (simp add: SpecialInst_URet_word_def addi_x0_def)
  then show "ordinary restore_temp (ucast (SpecialInst_URet_word 3))" by (simp add: ordinary_def taddinst_def tjalrinst_def)
qed

lemma fetch_one:
  assumes "fetch_run decode [(mem, pc)] f = Inr (rs, f')"
  shows "\<exists>r. rs = [r] \<and> fetch_ticks decode mem pc 2 f = Inr (r, f')"
  using assms by (cases "fetch_ticks decode mem pc 2 f") auto

lemma fetch_ok:
  assumes "word_decoder decode (lookup_inst tmp decodeInst)" "temp_shapes decodeInst" "fetch_ready f" "cache_ok decodeInst (cached f)"
    and "pc mod 4 = 0 \<or> pc mod 4 = 2" and "ordinary tmp (inst_at mem pc)"
  shows "\<exists>f'. fetch_ticks decode mem pc 2 f =
      Inr (Some (meant tmp decodeInst (inst_at mem pc), pc + (if compressed (inst_at mem pc) then 2 else 4)), f') \<and>
    fetch_ready f' \<and> cache_ok decodeInst (cached f')"
proof -
  have "\<forall>(mem, pc) \<in> set [(mem, pc)]. pc mod 4 = 0 \<or> pc mod 4 = 2" using assms(5) by simp
  from fetch_run_ok [OF assms(1-4) this] obtain rs f' where
    r: "fetch_run decode [(mem, pc)] f = Inr (rs, f')" "fetch_ready f'" "cache_ok decodeInst (cached f')"
      "list_all2 (decodes_as tmp decodeInst) [(mem, pc)] rs" by blast
  obtain x where "rs = [x]" "fetch_ticks decode mem pc 2 f = Inr (x, f')" using fetch_one [OF r(1)] by blast
  then show ?thesis using r(2-4) assms(6) by (auto simp: decodes_as_def)
qed

section \<open>What the decoders get wrong\<close>

text \<open>
  \<open>ret\<close>, which is \<open>jalr x0, 0(x1)\<close>, is the word that stands in for a jump through an additional register. Once such a jump has been decoded the map
  holds the changed object under that word.
\<close>

lemma create_temp_ret: "create_temp tjalrinst tjalrinst = NoTemp" "\<not> compressed tjalrinst"
  by code_simp+

lemma lookup_after_jump:
  assumes "temp_shapes decodeInst" and "create_temp w w = JTemp s"
  shows "\<exists>m'. lookup_inst create_temp decodeInst w m = Inr (meant create_temp decodeInst w, m') \<and>
    (\<exists>m''. lookup_inst create_temp decodeInst tjalrinst m' = Inr (meant create_temp decodeInst w, m''))"
  using assms(2) set_temp_meant [OF assms(1), of create_temp w]
  by (simp add: lookup_inst_def Let_def temp_word_def create_temp_ret set_temp_def)

lemma ret_after_jump:
  assumes shapes: "temp_shapes decodeInst" and "fetch_ready f"
    and "pc1 mod 4 = 0 \<or> pc1 mod 4 = 2" "get32 mem1 pc1 = JmpRTemp3Inst" and "pc2 mod 4 = 0 \<or> pc2 mod 4 = 2" "get32 mem2 pc2 = 0x8067"
  defines "j \<equiv> meant create_temp decodeInst (ucast (SpecialInst_URet_word 3))"
  shows "\<exists>f'. fetch_run (decode_create decodeInst) [(mem1, pc1), (mem2, pc2)] f = Inr ([Some (j, pc1 + 4), Some (j, pc2 + 4)], f')"
proof -
  let ?w = "ucast (SpecialInst_URet_word 3) :: u64"
  have w1: "inst_at mem1 pc1 = ?w" "\<not> compressed ?w"
    using planted_jump_at [OF assms(4)] addi_fields(6) [of 3 64] by (simp_all add: SpecialInst_URet_word_def)
  have w2: "inst_at mem2 pc2 = tjalrinst" using inst_at_word [OF assms(6)] create_temp_ret(2) by (simp add: tjalrinst_def)
  obtain m1 m2 where l: "lookup_inst create_temp decodeInst ?w (cached f) = Inr (j, m1)" "lookup_inst create_temp decodeInst tjalrinst m1 = Inr (j, m2)"
    using lookup_after_jump [OF shapes, of ?w "32 + 3" "cached f"] create_temp_addi(3) [of 3] by (auto simp: j_def SpecialInst_URet_word_def)
  obtain f1 where f1: "fetch_ticks (decode_create decodeInst) mem1 pc1 2 f = Inr (Some (j, pc1 + 4), f1)" "fetch_ready f1" "cached f1 = m1"
    using creating.fetched [OF assms(2,3), where mem = mem1 and decodeInst = decodeInst] w1 l(1) by auto
  obtain f2 where "fetch_ticks (decode_create decodeInst) mem2 pc2 2 f1 = Inr (Some (j, pc2 + 4), f2)"
    using creating.fetched [OF f1(2) assms(5), where mem = mem2 and decodeInst = decodeInst] w2 l(2) f1(3) create_temp_ret(2) by auto
  with f1(1) show ?thesis by simp
qed

text \<open>
  \<open>isCompressed\<close> is assigned in the branch that is not compiled only. \<open>tick\<close> reads it of every recorded instruction.
\<close>

definition flags_unset :: "(u64 \<rightharpoonup> 'k decoded) \<Rightarrow> bool" where
  "flags_unset m \<longleftrightarrow> (\<forall>w si. m w = Some si \<longrightarrow> di_isCompressed si = None)"

lemma set_temp_flag: "set_temp t si = Inr si' \<Longrightarrow> di_isCompressed si' = di_isCompressed si"
  by (cases t) (auto simp: set_temp_def setSrcRegIdx_def setDestRegIdx_def split: if_splits)

lemma lookup_flag:
  assumes "lookup_inst tmp decodeInst w m = Inr (si, m')" "flags_unset m" "\<forall>v. di_isCompressed (decodeInst v) = None"
  shows "di_isCompressed si = None \<and> flags_unset m'"
proof -
  obtain si0 where "set_temp (tmp w w) si0 = Inr si" "m' = m(temp_word (tmp w w) w \<mapsto> si)" "di_isCompressed si0 = None"
    using assms by (fastforce simp: lookup_inst_def Let_def res_image_def res_bind_def flags_unset_def split: sum.splits option.splits if_splits)
  then show ?thesis using assms(2) by (auto simp: flags_unset_def dest: set_temp_flag)
qed

lemma run_flags:
  assumes "word_decoder decode (lookup_inst tmp decodeInst)" and none: "\<forall>v. di_isCompressed (decodeInst v) = None"
    and "fetch_ready f" "flags_unset (cached f)" "\<forall>(mem, pc) \<in> set xs. pc mod 4 = 0 \<or> pc mod 4 = 2" "fetch_run decode xs f = Inr (rs, f')"
  shows "\<forall>r \<in> set rs. \<exists>si npc. r = Some (si, npc) \<and> di_isCompressed si = None"
  using assms(3-)
proof (induction xs arbitrary: f rs)
  case (Cons x xs)
  obtain mem pc where x: "x = (mem, pc)" by (cases x)
  have "pc mod 4 = 0 \<or> pc mod 4 = 2" using Cons.prems(3) x by auto
  from word_decoder.fetched [OF assms(1) Cons.prems(1) this, of mem] obtain g where
    g: "\<forall>m. fetch_ready (g m) \<and> cached (g m) = m" "fetch_ticks decode mem pc 2 f =
      res_image (\<lambda>(si, m). (Some (si, pc + (if compressed (inst_at mem pc) then 2 else 4)), g m)) (lookup_inst tmp decodeInst (inst_at mem pc) (cached f))"
    by blast
  then obtain si m' rs' where l: "lookup_inst tmp decodeInst (inst_at mem pc) (cached f) = Inr (si, m')"
    "fetch_run decode xs (g m') = Inr (rs', f')" "\<exists>npc. rs = Some (si, npc) # rs'"
    using Cons.prems(4) x by (auto simp: res_image_def res_bind_def split: sum.splits)
  then show ?case using lookup_flag [OF l(1) Cons.prems(2) none] Cons.IH [of "g m'" rs'] Cons.prems(3) g(1) by auto
qed simp

section \<open>The register file\<close>

text \<open>The integer registers of the two simulators; the first number is again the branch of the macro that is compiled.\<close>

definition NumIntArchRegs :: u32 where "NumIntArchRegs = 32 + 4"
definition NumIntArchRegs_restore :: u32 where "NumIntArchRegs_restore = 40"

definition temp_regs :: "temp_inst \<Rightarrow> u32 list" where
  "temp_regs t = (case t of NoTemp \<Rightarrow> [] | RTemp s d \<Rightarrow> [s, d] | WTemp s d \<Rightarrow> [s, d] | JTemp s \<Rightarrow> [s])"

lemma reg_field_less: "ucast (x mod 32 :: u64) < (32 :: u32)"
proof -
  have "unat (x mod 32) < 32" by (simp add: unat_mod)
  then have "unat (ucast (x mod 32) :: u32) < 32" by (simp add: unsigned_ucast_eq take_bit_eq_mod)
  then show ?thesis by (simp add: word_less_nat_alt)
qed

lemma create_regs_exist:
  assumes "r \<in> set (temp_regs (create_temp emi w))"
  shows "r < NumIntArchRegs"
proof -
  let ?imm = "ucast (drop_bit 20 w) :: u32" and ?rs1 = "ucast (drop_bit 15 w mod 32) :: u32"
  have "r < 32 \<or> r = 32 + ?imm - 36 \<and> 36 \<le> ?imm \<and> ?imm \<le> 39 \<or> r = 32 + ?imm - 9 \<and> 9 \<le> ?imm \<and> ?imm \<le> 12 \<or> r = 32 + ?rs1 mod 4"
    using assms reg_field_less [of "drop_bit 15 w"] by (auto simp: create_temp_def temp_regs_def Let_def split: if_splits)
  moreover have "?rs1 mod 4 < 4" by (rule word_mod_less_divisor) simp
  ultimately show ?thesis unfolding NumIntArchRegs_def word_less_nat_alt word_le_nat_alt
    by (auto simp: unat_word_ariths unat_sub_if' word_unat_eq_iff)
qed

lemma restore_regs_missing: "\<exists>w. \<exists>r \<in> set (temp_regs (restore_temp w w)). NumIntArchRegs_restore \<le> r"
proof -
  have "restore_temp 0x1f08033 0x1f08033 = RTemp 63 1" by code_simp
  then have "63 \<in> set (temp_regs (restore_temp 0x1f08033 0x1f08033))" by (simp add: temp_regs_def)
  moreover have "NumIntArchRegs_restore \<le> 63" by (simp add: NumIntArchRegs_restore_def)
  ultimately show ?thesis by blast
qed

end
