(* ===== verification/Examples.thy ===== *)
theory Examples
  imports MemAccess JumpLayout Replay Decoder
begin

unbundle bit_operations_syntax

text \<open>
  Concrete objects of the loader's side: a recorded call with data and the section it makes, a loader
  with that section in memory, and the code of a return jump. They show that the conditions of the theorems on answering calls
  can be met.
\<close>

section \<open>One recorded call\<close>

definition ex_call :: SyscallInfo where
  "ex_call = \<lparr>si_name = ''read'', si_pc = 0x10100, si_num = 63, si_ret = 4, si_hasret = True, si_bufaddr = 0x30000,
     si_data = [1, 2, 3, 4], si_params = [3, 0x30000, 4]\<rparr>"

definition ex_sec :: bytes where
  "ex_sec = le64 1 @ le32 0 @ (le64 0x10100 @ le64 (push_bit 32 63 + 4) @ le64 3 @ le64 4 @ le64 (push_bit 8 52 + 1)) @
     le64 0x30000 @ [1, 2, 3, 4]"

lemma ex_saved: "\<exists>infos. saveSysInfo [ex_call] = Inr (ex_sec, infos)"
proof -
  have "saveSysInfo [ex_call] = Inr (ex_sec, [ex_call\<lparr>si_data := []\<rparr>])" by code_simp
  then show ?thesis by blast
qed

lemma ex_sec_call: "sec_call ex_sec 1 0 ex_call" "take 8 ex_sec = le64 1" "length ex_sec = 64"
proof -
  have "\<forall>t \<in> set [ex_call]. si_params t \<noteq> []" by (simp add: ex_call_def)
  from saveSysInfo_ok [OF this] ex_saved show "sec_call ex_sec 1 0 ex_call" by auto
qed (simp_all add: ex_sec_def)

definition ex_jump :: JmpRepInfo where
  "ex_jump = \<lparr>jalr_target = 0x9020, jal_addr = 0x902c, jal_inst = createJAL 0x902c 0x10104\<rparr>"

definition ex_run :: RunningInfo where
  "ex_run = \<lparr>exitpc = 0x10200, exit_cause = 2, syscall_info_addr = 0x40000, nowcallnum = 0, totalcallnum = 1, exitJmpInst = 0,
     sysJmpinfos = [ex_jump, ex_jump], ri_cycles = 0, ri_insts = 0, lastcycles = 0, lastinsts = 0, startcycles = 0, startinsts = 0\<rparr>"

definition ex_loader :: loader where
  "ex_loader = \<lparr>runinfo = ex_run, program_intregs = (\<lambda>_. 0), program_fpregs = (\<lambda>_. 0), tempMemory = 0,
     lmem = mem_write (\<lambda>_. 0) 0x40000 ex_sec\<rparr>"

definition ex_regs :: "u32 \<Rightarrow> u64" where
  "ex_regs r = (if r = 17 then 63 else 0)"

lemma ex_sec_loaded: "sec_loaded ex_loader ex_sec 1"
  using mem_read_write_sub [of 0 64 ex_sec "\<lambda>_. 0" "0x40000"]
  by (simp add: sec_loaded_def ex_loader_def ex_run_def ex_sec_call(3))

lemma ex_sysidx: "sysidx_at ex_loader 0 = 0"
  using sysidx_at_section [OF ex_sec_loaded, of 0 0] by (simp add: ex_sec_def)

lemma ex_runinfo: "runinfo ex_loader = ex_run"
  by (simp add: ex_loader_def)

lemma ex_call_fits: "call_fits 0x40000 ex_sec ex_call"
  using apartI [of "0x40000" 64 "0x30000" "Suc (Suc (Suc (Suc 0)))"] by (simp add: call_fits_def ex_sec_call(3) ex_call_def)

section \<open>The code of a call and of a return\<close>

text \<open>
  A midpoint at \<open>0x9000\<close>: the way to the loader, the way back at \<open>0x9020\<close> and its jump at \<open>0x902c\<close>. The word at
  \<open>0x2000\<close> is the entry of the loader, the one at \<open>0x2008\<close> the saved \<open>a0\<close>.
\<close>

definition ex_to_loader :: memory where
  "ex_to_loader = put32 0x10100 (createJAL 0x10100 0x9000)
     (put_trampoline 0x2000 0x9000 (mem_write (\<lambda>_. 0) 0x2000 (le64 0x50000)))"

definition ex_to_program :: memory where
  "ex_to_program = put32 0x902c (createJAL 0x902c 0x10104) (mem_write (mem_write (\<lambda>_. 0) 0x2008 (le64 4)) 0x9020 (load_a0 0x2008))"

lemma length_load_a0 [simp]: "length (load_a0 p) = 12"
  by (simp add: load_a0_def)

lemma ex_reach: "jal_reach 0x10100 0x9000" "jal_reach 0x902c 0x10104"
  by (rule jal_reachI [OF refl refl]; simp)+

lemma ex_to_loader_code:
  "get32 ex_to_loader 0x10100 = createJAL 0x10100 0x9000"
  "mem_read ex_to_loader 0x9000 16 = load_a0 0x2000 @ le32 (createJALR 10)"
  "mem_read ex_to_loader (scast (0x2000 :: u32)) 8 = le64 0x50000"
proof -
  show "get32 ex_to_loader 0x10100 = createJAL 0x10100 0x9000" by (simp add: ex_to_loader_def)
  have a: "apart 0x9000 16 0x10100 4" "apart 0x2000 8 0x10100 4" "apart 0x2000 8 0x9000 16" by (simp_all add: apart_def)
  have w: "put_trampoline 0x2000 0x9000 m = mem_write m 0x9000 (load_a0 0x2000 @ le32 (createJALR 10))" for m
    by (rule put_trampoline_block)
  show "mem_read ex_to_loader 0x9000 16 = load_a0 0x2000 @ le32 (createJALR 10)"
    using mem_read_write_sub [of 0 16 "load_a0 0x2000 @ le32 (createJALR 10)" "mem_write (\<lambda>_. 0) 0x2000 (le64 0x50000)" "0x9000"]
    by (simp add: ex_to_loader_def put32_def w mem_read_write_apart a)
  show "mem_read ex_to_loader (scast (0x2000 :: u32)) 8 = le64 0x50000"
    using mem_read_write_sub [of 0 8 "le64 0x50000" "\<lambda>_. 0" "0x2000"]
    by (simp add: ex_to_loader_def put32_def w mem_read_write_apart a)
qed

lemma ex_to_program_code:
  "at_load_a0 0x2008 0x9020 ex_to_program" "get32 ex_to_program 0x902c = createJAL 0x902c 0x10104"
  "mem_read ex_to_program (scast (0x2008 :: u32)) 8 = le64 4"
proof -
  have a: "apart 0x9020 12 0x902c 4" "apart 0x2008 8 0x902c 4" "apart 0x2008 8 0x9020 12" by (simp_all add: apart_def)
  show "get32 ex_to_program 0x902c = createJAL 0x902c 0x10104" by (simp add: ex_to_program_def)
  show "at_load_a0 0x2008 0x9020 ex_to_program"
    using mem_read_write_sub [of 0 12 "load_a0 0x2008" "mem_write (\<lambda>_. 0) 0x2008 (le64 4)" "0x9020"]
    by (simp add: at_load_a0_def ex_to_program_def put32_def mem_read_write_apart a)
  show "mem_read ex_to_program (scast (0x2008 :: u32)) 8 = le64 4"
    using mem_read_write_sub [of 0 8 "le64 4" "\<lambda>_. 0" "0x2008"]
    by (simp add: ex_to_program_def put32_def mem_read_write_apart a)
qed

section \<open>A loader that serves one call\<close>

definition ex_hw :: hwregs where
  "ex_hw = \<lparr>rtemp = (\<lambda>_. 0), ProcTag = 0, SampleFuncAddr = 0, EventSel = 0, MaxEvents = 0, WarmupInsts = 0, MaxPriv = 0, PfcEnable = 0\<rparr>"

definition ex_entry :: entry where
  "ex_entry = ((0, 0), (0, 0), ex_regs)"

lemma ex_serving: "serving [ex_call] ex_sec 0 ex_loader"
proof -
  have "apart 0x40000 64 0x10200 4" by (simp add: apart_def)
  then show ?thesis
    using ex_sec_loaded ex_sec_call ex_call_fits
    by (simp add: serving_def section_ok_def exit_apart_def ex_runinfo ex_run_def)
qed

lemma ex_jp_serves: "jp_serves [ex_call] ex_sec 0 ex_loader"
proof -
  have "apart 0x40000 64 0x902c 4" by (simp add: apart_def)
  then show ?thesis
    using ex_serving ex_sec_call(3) by (simp add: jp_serves_def jumps_ok_def ex_runinfo ex_run_def ex_sysidx ex_jump_def)
qed

section \<open>A traced run\<close>

definition ex_tsettings :: trace_settings where
  "ex_tsettings = trace_settings_init\<lparr>ts_logname := ''t'', ts_ctrls := [\<lparr>tr_start = 1, tr_end = 3\<rparr>]\<rparr>"

definition ex_tstep :: tstep where
  "ex_tstep = (None, \<lparr>th_pc = 0x10000, th_npc = 0x10004, th_int = (\<lambda>_. 5), th_float = (\<lambda>_. 0)\<rparr>,
     \<lparr>isLoad = False, isAtomic = False, isStore = False, isFloating = False, isCondCtrl = False, isUncondCtrl = False, isDirectCtrl = False,
      isIndirectCtrl = False, isInteger = True, opClass = OtherOp, srcRegs = [1], destRegs = [(IntRegClass, 2)]\<rparr>)"

text \<open>A table of instructions with one source and one destination register each, and a simulator that has decoded nothing yet.\<close>

definition ex_table :: "u64 \<Rightarrow> u64 decoded" where
  "ex_table w = \<lparr>di_src = [(IntRegClass, ucast (drop_bit 15 w mod 32))], di_dest = [(IntRegClass, ucast (drop_bit 7 w mod 32))],
     di_isCompressed = None, di_op = w\<rparr>"

definition ex_fetcher :: "u64 fetcher" where
  "ex_fetcher = \<lparr>fe_dec = reset \<lparr>instMap = Map.empty, dc_aligned = False, dc_mid = False, dc_more = False, dc_emi = 0, dc_machInst = 0, dc_instDone = False\<rparr>,
     fetchOffset = 0, stayAtPC = False\<rparr>"

lemma ex_shapes: "temp_shapes ex_table"
  by (simp add: temp_shapes_def ex_table_def)

lemma ex_fetcher_ready: "fetch_ready ex_fetcher" "cached ex_fetcher = Map.empty"
  by (simp_all add: ex_fetcher_def fetch_ready_def reset_def)

text \<open>Registers of a program at a call.\<close>

definition ex_callregs :: "u16 \<Rightarrow> u64" where
  "ex_callregs = (\<lambda>_. 3)"

end
