(* ===== verification/SyscallEmul.thy ===== *)
theory SyscallEmul
  imports AtomicTick Loader
begin

text \<open>
  The emulated system calls that write into the memory of the program and report what they wrote to the recorder
  (\<open>G/sim/syscall_emul.cc\<close>, \<open>G/sim/syscall_emul.hh\<close>, \<open>unameFunc64\<close> of \<open>G/arch/riscv/linux/se_workload.cc\<close>), for the table of 64-bit
  RISC-V. The file table, the file system, the clock and the other results of the host are arguments. A handler gives the memory after
  the call, the value it returns and the calls of \<open>ckpt_add_sysexe\<close> it makes. The target is little-endian like the host, so
  \<open>htog\<close> changes nothing.
\<close>

unbundle bit_operations_syntax

section \<open>Results of a handler\<close>

text \<open>A report has the arguments of \<open>ckpt_add_sysexe\<close> behind the program counter: result, address, size and data.\<close>

record emul =
  em_retry :: bool
  em_value :: u64
  em_mem :: memory
  em_reports :: "(u64 \<times> u64 \<times> u32 \<times> bytes) list"

definition sys_value :: "u64 \<Rightarrow> memory \<Rightarrow> (u64 \<times> u64 \<times> u32 \<times> bytes) list \<Rightarrow> emul res" where
  "sys_value v m rs = Inr \<lparr>em_retry = False, em_value = v, em_mem = m, em_reports = rs\<rparr>"

definition sys_error :: "nat \<Rightarrow> memory \<Rightarrow> emul res" where
  "sys_error e m = sys_value (- of_nat e) m []"

definition sys_retry :: "memory \<Rightarrow> emul res" where
  "sys_retry m = Inr \<lparr>em_retry = True, em_value = 0, em_mem = m, em_reports = []\<rparr>"

definition EPERM :: nat where "EPERM = 1"
definition EBADF :: nat where "EBADF = 9"
definition EFAULT :: nat where "EFAULT = 14"
definition EINVAL :: nat where "EINVAL = 22"
definition ERANGE :: nat where "ERANGE = 34"

text \<open>What a call of the host gives: an error number, or the bytes it delivers.\<close>

datatype host = HostError nat | HostData bytes

section \<open>Buffers and structures\<close>

text \<open>\<open>BufferArg\<close>: a zeroed buffer of the given size; a call of the host or \<open>strncpy\<close> fills its front.\<close>

definition buffer_arg :: "nat \<Rightarrow> bytes \<Rightarrow> bytes" where
  "buffer_arg n data = take n (data @ replicate n 0)"

text \<open>
  A structure as bytes with the fields that are assigned, as offsets and values. \<open>VPtr\<close> loads the structure of the program, and what was
  assigned through it is stored with the rest of the structure when it goes out of scope. The recorder gets a local variable with the same
  assignments, whose other bytes are what the stack held (\<open>stack\<close>).
\<close>

type_synonym fields = "(nat \<times> bytes) list"

definition set_field :: "nat \<times> bytes \<Rightarrow> bytes \<Rightarrow> bytes" where
  "set_field = (\<lambda>(off, v) bs. take off bs @ v @ drop (off + length v) bs)"

definition set_fields :: "fields \<Rightarrow> bytes \<Rightarrow> bytes" where
  "set_fields fs bs = fold set_field fs bs"

definition vptr_set :: "u64 \<Rightarrow> nat \<Rightarrow> fields \<Rightarrow> memory \<Rightarrow> memory res" where
  "vptr_set addr n fs m = (if addr = 0 then Inl NullDeref else Inr (mem_write m addr (set_fields fs (mem_read m addr n))))"

definition struct_call :: "bool \<Rightarrow> bytes \<Rightarrow> u64 \<Rightarrow> nat \<Rightarrow> fields \<Rightarrow> u64 \<Rightarrow> u64 \<Rightarrow> memory \<Rightarrow> emul res" where
  "struct_call needCkpt stack addr n fs res v m =
     res_bind (vptr_set addr n fs m) (\<lambda>m'.
       sys_value v m' (if needCkpt then [(res, addr, of_nat n, set_fields fs (take n stack))] else []))"

section \<open>Files\<close>

text \<open>\<open>readFunc\<close>: \<open>fd\<close> says whether the descriptor is open, \<open>ready\<close> whether \<open>poll\<close> finds data; \<open>nbytes\<close> is an \<open>int\<close>.\<close>

definition readFunc :: "bool \<Rightarrow> bool \<Rightarrow> bool \<Rightarrow> host \<Rightarrow> bool \<Rightarrow> u64 \<Rightarrow> nat \<Rightarrow> memory \<Rightarrow> emul res" where
  "readFunc fd ready nonblock h needCkpt buf_ptr nbytes m =
     (if \<not> fd then sys_error EBADF m
      else if \<not> ready \<and> \<not> nonblock then sys_retry m
      else case h of
        HostError e \<Rightarrow> sys_value (- of_nat e) m (if needCkpt then [(-1, buf_ptr, 0, buffer_arg nbytes [])] else [])
      | HostData d \<Rightarrow>
          let bytes_read = length (take nbytes d); buf = buffer_arg nbytes d
          in sys_value (of_nat bytes_read) (if bytes_read > 0 then mem_write m buf_ptr buf else m)
               (if needCkpt then [(of_nat bytes_read, buf_ptr, of_nat bytes_read, buf)] else []))"

text \<open>\<open>writeFunc\<close> writes no memory and reports nothing.\<close>

definition writeFunc :: "bool \<Rightarrow> bool \<Rightarrow> nat + nat \<Rightarrow> memory \<Rightarrow> emul res" where
  "writeFunc fd blocked h m =
     (if \<not> fd then sys_error EBADF m else if blocked then sys_retry m
      else case h of Inl e \<Rightarrow> sys_value (- of_nat e) m [] | Inr bytes_written \<Rightarrow> sys_value (of_nat bytes_written) m [])"

text \<open>\<open>getcwdFunc\<close>: \<open>cwd\<close> is \<open>tgtCwd\<close>, \<open>h\<close> what \<open>getcwd\<close> of the host gives when it is empty.\<close>

definition getcwdFunc :: "bytes \<Rightarrow> host \<Rightarrow> bool \<Rightarrow> u64 \<Rightarrow> nat \<Rightarrow> memory \<Rightarrow> emul res" where
  "getcwdFunc cwd h needCkpt buf_ptr n m =
     (let finish = (\<lambda>result v buf. sys_value v (mem_write m buf_ptr buf) (if needCkpt then [(result, buf_ptr, of_nat n, buf)] else []))
      in if cwd \<noteq> [] then
           if length cwd \<ge> n then sys_error ERANGE m
           else finish (of_nat (length cwd)) (of_nat (length cwd)) (buffer_arg n cwd)
         else case h of
           HostError e \<Rightarrow> finish (-1) (- of_nat e) (buffer_arg n [])
         | HostData d \<Rightarrow> finish (of_nat (length d)) (of_nat (length d)) (buffer_arg n d))"

text \<open>
  \<open>readlinkFunc\<close>: \<open>path\<close> says whether the name could be read, \<open>exe\<close> that it is \<open>/proc/self/exe\<close>, for which \<open>real\<close> is the path of the
  program if it can be resolved.
\<close>

definition readlinkFunc :: "bool \<Rightarrow> bool \<Rightarrow> host \<Rightarrow> bytes option \<Rightarrow> bool \<Rightarrow> u64 \<Rightarrow> nat \<Rightarrow> memory \<Rightarrow> emul res" where
  "readlinkFunc path exe h real needCkpt buf_ptr bufsiz m =
     (let finish = (\<lambda>result d. let buf = buffer_arg bufsiz d
            in sys_value (of_nat result) (mem_write m buf_ptr buf) (if needCkpt then [(of_nat result, buf_ptr, of_nat result, buf)] else []))
      in if \<not> path then sys_error EFAULT m
         else if \<not> exe then
           case h of HostError e \<Rightarrow> sys_value (- of_nat e) (mem_write m buf_ptr (buffer_arg bufsiz [])) []
           | HostData d \<Rightarrow> finish (length (take bufsiz d)) d
         else case real of None \<Rightarrow> Inl (ExitProg 1)
           | Some d \<Rightarrow> finish (if length d > bufsiz then bufsiz else length d) d)"

text \<open>\<open>pipe2Func\<close>: \<open>made\<close> has the two descriptors, \<open>bad_flags\<close> the error that the flags give afterwards.\<close>

definition pipe2Func :: "nat + u32 \<times> u32 \<Rightarrow> nat option \<Rightarrow> bool \<Rightarrow> u64 \<Rightarrow> memory \<Rightarrow> emul res" where
  "pipe2Func made bad_flags needCkpt tgt_addr m =
     (case made of Inl e \<Rightarrow> sys_error e m
      | Inr (rfd, wfd) \<Rightarrow>
          if tgt_addr = 0 then sys_value (scast rfd) m []
          else let buf = le32 rfd @ le32 wfd
               in sys_value (case bad_flags of None \<Rightarrow> 0 | Some e \<Rightarrow> - of_nat e) (mem_write m tgt_addr buf)
                    (if needCkpt then [(0, tgt_addr, 8, buf)] else []))"

section \<open>Information on files\<close>

record host_stat =
  hs_dev :: u64
  hs_ino :: u64
  hs_mode :: u32
  hs_nlink :: u32
  hs_uid :: u32
  hs_gid :: u32
  hs_rdev :: u64
  hs_size :: u64
  hs_atime :: u64
  hs_mtime :: u64
  hs_ctime :: u64
  hs_blocks :: u64
  hs_nsec :: "u64 \<times> u64 \<times> u64"

text \<open>
  \<open>copyOutStat64Buf\<close> and \<open>copyOutStat64Buf1\<close>: the assigned fields of \<open>tgt_stat64\<close>, which has 128 bytes. \<open>hs_nsec\<close> is zero where the host
  has no nanoseconds.
\<close>

definition stat_fields :: "bool \<Rightarrow> host_stat \<Rightarrow> fields" where
  "stat_fields fakeTTY h =
     [(0, le64 (if fakeTTY then 0xA else hs_dev h)), (8, le64 (hs_ino h)),
      (16, le32 (if fakeTTY then (hs_mode h AND NOT 0xf000) OR 0x2000 else hs_mode h)),
      (20, le32 (hs_nlink h)), (24, le32 (hs_uid h)), (28, le32 (hs_gid h)),
      (32, le64 (if fakeTTY then 0x880d else hs_rdev h)), (48, le64 (hs_size h)),
      (72, le64 (hs_atime h)), (88, le64 (hs_mtime h)), (104, le64 (hs_ctime h)),
      (56, le64 0x2000), (64, le64 (hs_blocks h)),
      (80, le64 (fst (hs_nsec h))), (96, le64 (fst (snd (hs_nsec h)))), (112, le64 (snd (snd (hs_nsec h))))]"

text \<open>
  \<open>stat64Func\<close>; \<open>lstat64Func\<close> and \<open>fstatat64Func\<close> differ in the call of the host and in the register of the structure only.
\<close>

definition stat64Func :: "bool \<Rightarrow> nat + host_stat \<Rightarrow> bool \<Rightarrow> bytes \<Rightarrow> u64 \<Rightarrow> memory \<Rightarrow> emul res" where
  "stat64Func path h needCkpt stack tgt_stat m =
     (if \<not> path then sys_error EFAULT m
      else case h of Inl e \<Rightarrow> sys_error e m | Inr hs \<Rightarrow> struct_call needCkpt stack tgt_stat 128 (stat_fields False hs) 0 0 m)"

definition lstat64Func :: "bool \<Rightarrow> nat + host_stat \<Rightarrow> bool \<Rightarrow> bytes \<Rightarrow> u64 \<Rightarrow> memory \<Rightarrow> emul res" where
  "lstat64Func path h needCkpt stack tgt_stat m =
     (if \<not> path then sys_error EFAULT m
      else case h of Inl e \<Rightarrow> sys_error e m | Inr hs \<Rightarrow> struct_call needCkpt stack tgt_stat 128 (stat_fields False hs) 0 0 m)"

definition fstatat64Func :: "bool \<Rightarrow> nat + host_stat \<Rightarrow> bool \<Rightarrow> bytes \<Rightarrow> u64 \<Rightarrow> memory \<Rightarrow> emul res" where
  "fstatat64Func path h needCkpt stack tgt_stat m =
     (if \<not> path then sys_error EFAULT m
      else case h of Inl e \<Rightarrow> sys_error e m | Inr hs \<Rightarrow> struct_call needCkpt stack tgt_stat 128 (stat_fields False hs) 0 0 m)"

definition fstat64Func :: "u32 option \<Rightarrow> nat + host_stat \<Rightarrow> bool \<Rightarrow> bytes \<Rightarrow> u64 \<Rightarrow> memory \<Rightarrow> emul res" where
  "fstat64Func fd h needCkpt stack tgt_stat m =
     (case fd of None \<Rightarrow> sys_error EBADF m
      | Some sim_fd \<Rightarrow> (case h of Inl e \<Rightarrow> sys_error e m
          | Inr hs \<Rightarrow> struct_call needCkpt stack tgt_stat 128 (stat_fields (sim_fd = 1) hs) 0 0 m))"

text \<open>\<open>copyOutStatfsBuf\<close>, \<open>statfsFunc\<close> and \<open>fstatfsFunc\<close>: \<open>tgt_statfs\<close> has 120 bytes; \<open>f_flags\<close> is not assigned.\<close>

record host_statfs =
  hf_words :: "u64 list"
  hf_fsid :: u64
  hf_namelen :: u64
  hf_frsize :: u64
  hf_spare :: "u64 list"

definition statfs_fields :: "host_statfs \<Rightarrow> fields" where
  "statfs_fields h =
     map (\<lambda>i. (8 * i, le64 (hf_words h ! i))) [0..<7] @ [(56, le64 (hf_fsid h)), (64, le64 (hf_namelen h)), (72, le64 (hf_frsize h))] @
     map (\<lambda>i. (88 + 8 * i, le64 (hf_spare h ! i))) [0..<4]"

definition statfsFunc :: "bool \<Rightarrow> nat + host_statfs \<Rightarrow> bool \<Rightarrow> bytes \<Rightarrow> u64 \<Rightarrow> memory \<Rightarrow> emul res" where
  "statfsFunc path h needCkpt stack tgt_stat m =
     (if \<not> path then sys_error EFAULT m
      else case h of Inl e \<Rightarrow> sys_error e m | Inr hs \<Rightarrow> struct_call needCkpt stack tgt_stat 120 (statfs_fields hs) 0 0 m)"

definition fstatfsFunc :: "bool \<Rightarrow> nat + host_statfs \<Rightarrow> bool \<Rightarrow> bytes \<Rightarrow> u64 \<Rightarrow> memory \<Rightarrow> emul res" where
  "fstatfsFunc fd h needCkpt stack tgt_stat m =
     (if \<not> fd then sys_error EBADF m
      else case h of Inl e \<Rightarrow> sys_error e m | Inr hs \<Rightarrow> struct_call needCkpt stack tgt_stat 120 (statfs_fields hs) 0 0 m)"

section \<open>Limits and system\<close>

definition rlimit_fields :: "u64 \<Rightarrow> fields" where
  "rlimit_fields v = [(8, le64 v), (0, le64 v)]"

definition getrlimitFunc :: "u64 \<Rightarrow> bool \<Rightarrow> bytes \<Rightarrow> u32 \<Rightarrow> u64 \<Rightarrow> memory \<Rightarrow> emul res" where
  "getrlimitFunc threads needCkpt stack resource rlp m =
     (if resource = 3 then struct_call needCkpt stack rlp 16 (rlimit_fields (8 * 1024 * 1024)) 0 0 m
      else if resource = 2 then struct_call needCkpt stack rlp 16 (rlimit_fields (256 * 1024 * 1024)) 0 0 m
      else if resource = 6 then struct_call needCkpt stack rlp 16 (rlimit_fields threads) 0 0 m
      else sys_error EINVAL m)"

definition prlimitFunc :: "bool \<Rightarrow> bytes \<Rightarrow> u32 \<Rightarrow> u32 \<Rightarrow> u64 \<Rightarrow> memory \<Rightarrow> emul res" where
  "prlimitFunc needCkpt stack pid resource rlp m =
     (if pid \<noteq> 0 then sys_error EPERM m
      else if rlp = 0 then sys_value 0 m []
      else if resource = 3 then struct_call needCkpt stack rlp 16 (rlimit_fields (8 * 1024 * 1024)) 0 0 m
      else if resource = 2 then struct_call needCkpt stack rlp 16 (rlimit_fields (256 * 1024 * 1024)) 0 0 m
      else sys_error EINVAL m)"

text \<open>\<open>sysinfoFunc\<close>: three fields of \<open>tgt_sysinfo\<close> are assigned, which has 112 bytes.\<close>

definition seconds_since_epoch :: u64 where "seconds_since_epoch = 1000 * 1000 * 1000"

definition sysinfo_fields :: "u64 \<Rightarrow> fields" where
  "sysinfo_fields memSize = [(0, le64 seconds_since_epoch), (32, le64 memSize), (104, le32 1)]"

definition sysinfoFunc :: "u64 \<Rightarrow> bool \<Rightarrow> bytes \<Rightarrow> u64 \<Rightarrow> memory \<Rightarrow> emul res" where
  "sysinfoFunc memSize needCkpt stack sysinfo m = struct_call needCkpt stack sysinfo 112 (sysinfo_fields memSize) 0 0 m"

text \<open>\<open>unameFunc64\<close>: five strings, each with the zero that \<open>strcpy\<close> puts behind it, in arrays of 65 bytes.\<close>

definition cstring :: "string \<Rightarrow> bytes" where
  "cstring s = map (\<lambda>c. of_char c) s @ [0]"

definition uname_fields :: "string \<Rightarrow> fields" where
  "uname_fields release =
     [(0, cstring ''Linux''), (65, cstring ''sim.gem5.org''), (130, cstring release),
      (195, cstring ''#1 Mon Aug 18 11:32:15 EDT 2003''), (260, cstring ''riscv64'')]"

definition unameFunc64 :: "string \<Rightarrow> bool \<Rightarrow> bytes \<Rightarrow> u64 \<Rightarrow> memory \<Rightarrow> emul res" where
  "unameFunc64 release needCkpt stack name m =
     (if name = 0 then Inl NullDeref
      else if 130 + length (cstring release) > 325 then Inl OutOfBounds
      else struct_call needCkpt stack name 325 (uname_fields release) 0 0 m)"

section \<open>Time\<close>

text \<open>The clock: \<open>curTick\<close> and the ticks of a second, a microsecond and a nanosecond.\<close>

record clock =
  cl_tick :: u64
  cl_s :: u64
  cl_us :: u64
  cl_ns :: u64

definition getElapsedTimeMicro :: "clock \<Rightarrow> u64 \<times> u64" where
  "getElapsedTimeMicro c = (let elapsed_usecs = cl_tick c div cl_us c in (elapsed_usecs div 1000000, elapsed_usecs mod 1000000))"

definition getElapsedTimeNano :: "clock \<Rightarrow> u64 \<times> u64" where
  "getElapsedTimeNano c = (let elapsed_nsecs = cl_tick c div cl_ns c in (elapsed_nsecs div 1000000000, elapsed_nsecs mod 1000000000))"

definition time_fields :: "u64 \<times> u64 \<Rightarrow> fields" where
  "time_fields t = [(0, le64 (fst t)), (8, le64 (snd t)), (0, le64 (fst t + seconds_since_epoch))]"

definition clock_gettimeFunc :: "clock \<Rightarrow> bool \<Rightarrow> bytes \<Rightarrow> u64 \<Rightarrow> memory \<Rightarrow> emul res" where
  "clock_gettimeFunc c needCkpt stack tp m = struct_call needCkpt stack tp 16 (time_fields (getElapsedTimeNano c)) 0 0 m"

definition gettimeofdayFunc :: "clock \<Rightarrow> bool \<Rightarrow> bytes \<Rightarrow> u64 \<Rightarrow> memory \<Rightarrow> emul res" where
  "gettimeofdayFunc c needCkpt stack tp m = struct_call needCkpt stack tp 16 (time_fields (getElapsedTimeMicro c)) 0 0 m"

definition clock_getresFunc :: "bool \<Rightarrow> bytes \<Rightarrow> u64 \<Rightarrow> memory \<Rightarrow> emul res" where
  "clock_getresFunc needCkpt stack tp m = struct_call needCkpt stack tp 16 [(0, le64 0), (8, le64 1)] 0 0 m"

text \<open>\<open>getrusageFunc\<close>: \<open>rusage\<close> is 18 words; \<open>who\<close> is \<open>RUSAGE_SELF\<close> for 0.\<close>

definition rusage_fields :: "clock \<Rightarrow> u32 \<Rightarrow> fields" where
  "rusage_fields c who = map (\<lambda>i. (8 * i, le64 0)) [0..<18] @
     (if who = 0 then [(0, le64 (fst (getElapsedTimeMicro c))), (8, le64 (snd (getElapsedTimeMicro c)))] else [])"

definition getrusageFunc :: "clock \<Rightarrow> bool \<Rightarrow> bytes \<Rightarrow> u32 \<Rightarrow> u64 \<Rightarrow> memory \<Rightarrow> emul res" where
  "getrusageFunc c needCkpt stack who rup m = struct_call needCkpt stack rup 144 (rusage_fields c who) 0 0 m"

definition timesFunc :: "clock \<Rightarrow> bool \<Rightarrow> bytes \<Rightarrow> u64 \<Rightarrow> memory \<Rightarrow> emul res" where
  "timesFunc c needCkpt stack bufp m =
     (let clocks = cl_tick c * 100 div cl_s c
      in struct_call needCkpt stack bufp 32 [(0, le64 clocks), (8, le64 0), (16, le64 0), (24, le64 0)] clocks clocks m)"

definition timeFunc :: "clock \<Rightarrow> bool \<Rightarrow> u64 \<Rightarrow> memory \<Rightarrow> emul res" where
  "timeFunc c needCkpt taddr m =
     (let sec = fst (getElapsedTimeMicro c) + seconds_since_epoch
      in sys_value sec (if taddr \<noteq> 0 then mem_write m taddr (le64 sec) else m)
           (if needCkpt then [(sec, taddr, 8, le64 sec)] else []))"

section \<open>Structures in memory and on the stack\<close>

definition fields_fit :: "fields \<Rightarrow> nat \<Rightarrow> bool" where
  "fields_fit fs n \<longleftrightarrow> list_all (\<lambda>(off, v). off + length v \<le> n) fs"

definition assigned :: "fields \<Rightarrow> nat \<Rightarrow> bool" where
  "assigned fs i \<longleftrightarrow> list_ex (\<lambda>(off, v). off \<le> i \<and> i < off + length v) fs"

lemma length_set_field [simp]: "off + length v \<le> length bs \<Longrightarrow> length (set_field (off, v) bs) = length bs"
  by (simp add: set_field_def)

lemma nth_set_field:
  assumes "off + length v \<le> length bs" "i < length bs"
  shows "set_field (off, v) bs ! i = (if off \<le> i \<and> i < off + length v then v ! (i - off) else bs ! i)"
  using assms by (auto simp: set_field_def nth_append)

lemma length_set_fields: "fields_fit fs (length bs) \<Longrightarrow> length (set_fields fs bs) = length bs"
proof (induction fs arbitrary: bs)
  case (Cons f fs)
  then have "length (set_fields fs (set_field f bs)) = length (set_field f bs)" by (intro Cons.IH) (auto simp: fields_fit_def)
  then show ?case using Cons.prems by (auto simp: set_fields_def fields_fit_def)
qed (simp add: set_fields_def)

text \<open>A byte that is assigned does not depend on what was there before, any other byte is kept.\<close>

lemma set_fields_nth:
  assumes "fields_fit fs n" "length bs = n" "length bs' = n" "i < n" "assigned fs i \<or> bs ! i = bs' ! i"
  shows "set_fields fs bs ! i = set_fields fs bs' ! i"
  using assms
proof (induction fs arbitrary: bs bs')
  case (Cons f fs)
  obtain off v where f: "f = (off, v)" by (cases f)
  have fit: "off + length v \<le> n" "fields_fit fs n" using Cons.prems f by (auto simp: fields_fit_def)
  have "set_fields fs (set_field f bs) ! i = set_fields fs (set_field f bs') ! i"
    using Cons.prems fit f by (intro Cons.IH) (auto simp: assigned_def nth_set_field)
  then show ?case by (simp add: set_fields_def)
qed (auto simp: set_fields_def assigned_def)

section \<open>Replaying what was reported\<close>

text \<open>The effect of a report when the loader answers the recorded call.\<close>

fun report_mem :: "(u64 \<times> u64 \<times> u32 \<times> bytes) list \<Rightarrow> memory \<Rightarrow> memory" where
  "report_mem ((res, a, sz, d) # _) m = (if take (unat sz) d \<noteq> [] \<and> a \<noteq> 0 then mem_write m a (take (unat sz) d) else m)"
| "report_mem [] m = m"

text \<open>
  The contract between a handler and the loader: at most one report, inside its buffer, and answering the call from it gives the memory of the
  emulation, except at the addresses in \<open>X\<close>.
\<close>

definition replayable :: "u64 set \<Rightarrow> memory \<Rightarrow> emul \<Rightarrow> bool" where
  "replayable X m e \<longleftrightarrow> length (em_reports e) \<le> 1 \<and> list_all (\<lambda>(_, _, sz, d). unat sz \<le> length d) (em_reports e) \<and>
     (\<forall>x. x \<notin> X \<longrightarrow> report_mem (em_reports e) m x = em_mem e x)"

text \<open>The addresses of the bytes of a structure or buffer that fail a condition.\<close>

definition bytes_where :: "(nat \<Rightarrow> bool) \<Rightarrow> u64 \<Rightarrow> nat \<Rightarrow> u64 set" where
  "bytes_where P a n = {x. in_range x a n \<and> P (unat (x - a))}"

lemma replayable_none: "sys_value v m [] = Inr e \<Longrightarrow> replayable X m e" "sys_error c m = Inr e \<Longrightarrow> replayable X m e" "sys_retry m = Inr e \<Longrightarrow> replayable X m e"
  by (auto simp: sys_value_def sys_error_def sys_retry_def replayable_def)

lemma replayable_buffer:
  assumes "sys_value v (mem_write m a buf) [(res, a, sz, buf)] = Inr e" "a \<noteq> 0" "unat sz \<le> length buf"
  shows "replayable (bytes_where (\<lambda>i. unat sz \<le> i) a (length buf)) m e"
  using assms by (auto simp: sys_value_def replayable_def bytes_where_def in_range_def mem_write_def)

lemma replayable_struct:
  assumes "struct_call True stack a n fs res v m = Inr e" "fields_fit fs n" "n \<le> length stack" "n < 2 ^ 32"
  shows "replayable (bytes_where (\<lambda>i. \<not> assigned fs i) a n) m e"
proof -
  have a: "a \<noteq> 0" and e: "sys_value v (mem_write m a (set_fields fs (mem_read m a n))) [(res, a, of_nat n, set_fields fs (take n stack))] = Inr e"
    using assms(1) by (auto simp: struct_call_def vptr_set_def split: if_splits)
  have n: "unat (of_nat n :: u32) = n" using assms(4) by (simp add: unsigned_of_nat take_bit_eq_mod)
  have len: "length (set_fields fs (take n stack)) = n" "length (set_fields fs (mem_read m a n)) = n"
    using length_set_fields [of fs "take n stack"] length_set_fields [of fs "mem_read m a n"] assms(2,3) by simp_all
  have "mem_write m a (set_fields fs (take n stack)) x = mem_write m a (set_fields fs (mem_read m a n)) x"
    if "x \<notin> bytes_where (\<lambda>i. \<not> assigned fs i) a n" for x
    using that len set_fields_nth [OF assms(2), of "take n stack" "mem_read m a n" "unat (x - a)"] assms(3)
    by (auto simp: mem_write_def bytes_where_def in_range_def)
  then show ?thesis using e a n len by (auto simp: sys_value_def replayable_def)
qed

section \<open>All the calls\<close>

text \<open>
  A call of the table with what the host contributes; \<open>bytes\<close> arguments are what the stack holds where the handler puts its copy of the
  structure, the last arguments come from the registers.
\<close>

datatype emu_call =
    Read bool bool bool host u64 nat
  | Write bool bool "nat + nat"
  | Getcwd bytes host u64 nat
  | Readlink bool bool host "bytes option" u64 nat
  | Pipe2 "nat + u32 \<times> u32" "nat option" u64
  | Stat64 bool "nat + host_stat" bytes u64
  | Lstat64 bool "nat + host_stat" bytes u64
  | Fstatat64 bool "nat + host_stat" bytes u64
  | Fstat64 "u32 option" "nat + host_stat" bytes u64
  | Statfs bool "nat + host_statfs" bytes u64
  | Fstatfs bool "nat + host_statfs" bytes u64
  | Getrlimit u64 bytes u32 u64
  | Prlimit bytes u32 u32 u64
  | Sysinfo u64 bytes u64
  | Uname string bytes u64
  | Clock_gettime clock bytes u64
  | Gettimeofday clock bytes u64
  | Clock_getres bytes u64
  | Getrusage clock bytes u32 u64
  | Times clock bytes u64
  | Time clock u64

fun emulate :: "emu_call \<Rightarrow> bool \<Rightarrow> memory \<Rightarrow> emul res" where
  "emulate (Read fd ready nonblock h a n) nc m = readFunc fd ready nonblock h nc a n m"
| "emulate (Write fd blocked h) nc m = writeFunc fd blocked h m"
| "emulate (Getcwd cwd h a n) nc m = getcwdFunc cwd h nc a n m"
| "emulate (Readlink path exe h real a n) nc m = readlinkFunc path exe h real nc a n m"
| "emulate (Pipe2 made bad a) nc m = pipe2Func made bad nc a m"
| "emulate (Stat64 path h stack a) nc m = stat64Func path h nc stack a m"
| "emulate (Lstat64 path h stack a) nc m = lstat64Func path h nc stack a m"
| "emulate (Fstatat64 path h stack a) nc m = fstatat64Func path h nc stack a m"
| "emulate (Fstat64 fd h stack a) nc m = fstat64Func fd h nc stack a m"
| "emulate (Statfs path h stack a) nc m = statfsFunc path h nc stack a m"
| "emulate (Fstatfs fd h stack a) nc m = fstatfsFunc fd h nc stack a m"
| "emulate (Getrlimit threads stack r a) nc m = getrlimitFunc threads nc stack r a m"
| "emulate (Prlimit stack pid r a) nc m = prlimitFunc nc stack pid r a m"
| "emulate (Sysinfo sz stack a) nc m = sysinfoFunc sz nc stack a m"
| "emulate (Uname release stack a) nc m = unameFunc64 release nc stack a m"
| "emulate (Clock_gettime c stack a) nc m = clock_gettimeFunc c nc stack a m"
| "emulate (Gettimeofday c stack a) nc m = gettimeofdayFunc c nc stack a m"
| "emulate (Clock_getres stack a) nc m = clock_getresFunc nc stack a m"
| "emulate (Getrusage c stack who a) nc m = getrusageFunc c nc stack who a m"
| "emulate (Times c stack a) nc m = timesFunc c nc stack a m"
| "emulate (Time c a) nc m = timeFunc c nc a m"

text \<open>Buffers are not at address 0, their sizes are those of an \<open>int\<close>, and the local structures exist.\<close>

fun call_ok :: "emu_call \<Rightarrow> bool" where
  "call_ok (Read _ _ _ _ a n) = (a \<noteq> 0 \<and> n < 2 ^ 31)"
| "call_ok (Write _ _ _) = True"
| "call_ok (Getcwd _ _ a n) = (a \<noteq> 0 \<and> n < 2 ^ 31)"
| "call_ok (Readlink _ _ _ _ a n) = (a \<noteq> 0 \<and> n < 2 ^ 31)"
| "call_ok (Pipe2 _ _ _) = True"
| "call_ok (Stat64 _ _ stack _) = (128 \<le> length stack)"
| "call_ok (Lstat64 _ _ stack _) = (128 \<le> length stack)"
| "call_ok (Fstatat64 _ _ stack _) = (128 \<le> length stack)"
| "call_ok (Fstat64 _ _ stack _) = (128 \<le> length stack)"
| "call_ok (Statfs _ _ stack _) = (120 \<le> length stack)"
| "call_ok (Fstatfs _ _ stack _) = (120 \<le> length stack)"
| "call_ok (Getrlimit _ stack _ _) = (16 \<le> length stack)"
| "call_ok (Prlimit stack _ _ _) = (16 \<le> length stack)"
| "call_ok (Sysinfo _ stack _) = (112 \<le> length stack)"
| "call_ok (Uname _ stack _) = (325 \<le> length stack)"
| "call_ok (Clock_gettime _ stack _) = (16 \<le> length stack)"
| "call_ok (Gettimeofday _ stack _) = (16 \<le> length stack)"
| "call_ok (Clock_getres stack _) = (16 \<le> length stack)"
| "call_ok (Getrusage _ stack _ _) = (144 \<le> length stack)"
| "call_ok (Times _ stack _) = (32 \<le> length stack)"
| "call_ok (Time _ _) = True"

text \<open>
  The addresses at which answering the recorded call does not give what the emulation left there: behind the bytes that were read, the whole buffer
  of a link that could not be read, and the bytes of a structure that are not assigned.
\<close>

definition unread :: "host \<Rightarrow> u64 \<Rightarrow> nat \<Rightarrow> u64 set" where
  "unread h a n = (case h of HostError _ \<Rightarrow> {} | HostData d \<Rightarrow> bytes_where (\<lambda>i. length (take n d) \<le> i) a n)"

fun lost :: "emu_call \<Rightarrow> u64 set" where
  "lost (Read _ _ _ h a n) = unread h a n"
| "lost (Readlink _ exe h real a n) =
     (if exe then case real of None \<Rightarrow> {} | Some d \<Rightarrow> unread (HostData d) a n
      else case h of HostError _ \<Rightarrow> bytes_where (\<lambda>_. True) a n | HostData _ \<Rightarrow> unread h a n)"
| "lost (Stat64 _ _ _ a) = bytes_where (\<lambda>i. 40 \<le> i \<and> i < 48 \<or> 120 \<le> i) a 128"
| "lost (Lstat64 _ _ _ a) = bytes_where (\<lambda>i. 40 \<le> i \<and> i < 48 \<or> 120 \<le> i) a 128"
| "lost (Fstatat64 _ _ _ a) = bytes_where (\<lambda>i. 40 \<le> i \<and> i < 48 \<or> 120 \<le> i) a 128"
| "lost (Fstat64 _ _ _ a) = bytes_where (\<lambda>i. 40 \<le> i \<and> i < 48 \<or> 120 \<le> i) a 128"
| "lost (Statfs _ _ _ a) = bytes_where (\<lambda>i. 80 \<le> i \<and> i < 88) a 120"
| "lost (Fstatfs _ _ _ a) = bytes_where (\<lambda>i. 80 \<le> i \<and> i < 88) a 120"
| "lost (Sysinfo _ _ a) = bytes_where (\<lambda>i. 8 \<le> i \<and> i < 32 \<or> 40 \<le> i \<and> i < 104 \<or> 108 \<le> i) a 112"
| "lost (Uname release _ a) = bytes_where (\<lambda>i. \<not> assigned (uname_fields release) i) a 325"
| "lost _ = {}"

section \<open>Every call can be answered\<close>

lemma length_buffer_arg [simp]: "length (buffer_arg n d) = n"
  by (simp add: buffer_arg_def)

lemma unat_u32: "n < 2 ^ 32 \<Longrightarrow> unat (of_nat n :: u32) = n"
  by (simp add: unsigned_of_nat take_bit_eq_mod)

lemma bytes_where_mono: "replayable (bytes_where P a n) m e \<Longrightarrow> (\<And>i. i < n \<Longrightarrow> P i \<Longrightarrow> Q i) \<Longrightarrow> replayable (bytes_where Q a n) m e"
  by (auto simp: replayable_def bytes_where_def in_range_def)

lemma bytes_where_none: "replayable (bytes_where P a n) m e \<Longrightarrow> (\<And>i. i < n \<Longrightarrow> \<not> P i) \<Longrightarrow> replayable X m e"
  by (auto simp: replayable_def bytes_where_def in_range_def)

text \<open>A structure all of whose bytes are assigned.\<close>

lemma replayable_full:
  assumes "struct_call True stack a n fs res v m = Inr e" "fields_fit fs n" "n \<le> length stack" "n < 2 ^ 32" "\<forall>i < n. assigned fs i"
  shows "replayable X m e"
  by (rule bytes_where_none [OF replayable_struct [OF assms(1-4)]]) (use assms(5) in simp)

lemma unread_replayable:
  assumes "sys_value v (mem_write m a (buffer_arg n d)) [(r, a, of_nat (length (take n d)), buffer_arg n d)] = Inr e" "a \<noteq> 0" "n < 2 ^ 31"
  shows "replayable (unread (HostData d) a n) m e"
proof -
  have "unat (of_nat (length (take n d)) :: u32) = length (take n d)" using assms(3) by (intro unat_u32) simp
  then show ?thesis using replayable_buffer [OF assms(1,2)] by (simp add: unread_def)
qed

lemma read_replayable:
  assumes "readFunc fd ready nonblock h True a n m = Inr e" "a \<noteq> 0" "n < 2 ^ 31"
  shows "replayable (unread h a n) m e"
proof (cases "fd \<and> (ready \<or> nonblock)")
  case False
  then show ?thesis using assms(1) by (auto simp: readFunc_def intro: replayable_none split: if_splits)
next
  case ok: True
  show ?thesis
  proof (cases h)
    case (HostError c)
    then show ?thesis using assms(1) ok by (auto simp: readFunc_def sys_value_def replayable_def split: if_splits)
  next
    case (HostData d)
    show ?thesis
    proof (cases "take n d = []")
      case True
      then show ?thesis using assms(1) ok HostData by (auto simp: readFunc_def Let_def sys_value_def replayable_def split: if_splits)
    next
      case False
      then have "sys_value (of_nat (length (take n d))) (mem_write m a (buffer_arg n d)) [(of_nat (length (take n d)), a, of_nat (length (take n d)), buffer_arg n d)] = Inr e"
        using assms(1) ok HostData by (auto simp: readFunc_def Let_def)
      then show ?thesis using unread_replayable [OF _ assms(2,3)] HostData by blast
    qed
  qed
qed

lemma getcwd_replayable:
  assumes "getcwdFunc cwd h True a n m = Inr e" "a \<noteq> 0" "n < 2 ^ 31"
  shows "replayable X m e"
proof -
  have n: "unat (of_nat n :: u32) = n" using assms(3) by (intro unat_u32) simp
  have buf: "replayable X m e" if "sys_value v (mem_write m a (buffer_arg n d)) [(r, a, of_nat n, buffer_arg n d)] = Inr e" for v r d
    by (rule bytes_where_none [OF replayable_buffer [OF that assms(2)]]) (simp_all add: n)
  show ?thesis using assms(1) by (auto simp: getcwdFunc_def Let_def intro: buf replayable_none split: if_splits host.splits)
qed

lemma readlink_replayable:
  assumes "readlinkFunc path exe h real True a n m = Inr e" "a \<noteq> 0" "n < 2 ^ 31"
  shows "replayable (lost (Readlink path exe h real a n)) m e"
proof -
  note buf = unread_replayable [OF _ assms(2,3)]
  show ?thesis
  proof (cases "path \<and> \<not> exe")
    case True
    then show ?thesis
    proof (cases h)
      case (HostError c)
      then have "e = \<lparr>em_retry = False, em_value = - of_nat c, em_mem = mem_write m a (buffer_arg n []), em_reports = []\<rparr>"
        using assms(1) True by (auto simp: readlinkFunc_def sys_value_def Let_def)
      then show ?thesis using True HostError by (auto simp: replayable_def bytes_where_def in_range_def mem_write_def)
    next
      case (HostData d)
      then show ?thesis using assms(1) True by (auto simp: readlinkFunc_def Let_def intro: buf)
    qed
  next
    case False
    have "(if length d > n then n else length d) = length (take n d)" for d by simp
    with False show ?thesis using assms(1) by (auto simp: readlinkFunc_def Let_def intro: buf replayable_none split: option.splits if_splits)
  qed
qed

lemma word_fields:
  "fields_fit (map (\<lambda>i. (b + 8 * i, le64 (f i))) [0..<k]) n \<longleftrightarrow> k = 0 \<or> b + 8 * k \<le> n"
  "assigned (map (\<lambda>i. (b + 8 * i, le64 (f i))) [0..<k]) j \<longleftrightarrow> b \<le> j \<and> j < b + 8 * k"
proof -
  show "fields_fit (map (\<lambda>i. (b + 8 * i, le64 (f i))) [0..<k]) n \<longleftrightarrow> k = 0 \<or> b + 8 * k \<le> n"
    by (cases k) (auto simp: fields_fit_def list_all_iff)
  have "j < b + 8 * k \<Longrightarrow> b \<le> j \<Longrightarrow> (j - b) div 8 < k \<and> b + 8 * ((j - b) div 8) \<le> j \<and> j < b + 8 * ((j - b) div 8) + 8"
    by auto
  then show "assigned (map (\<lambda>i. (b + 8 * i, le64 (f i))) [0..<k]) j \<longleftrightarrow> b \<le> j \<and> j < b + 8 * k"
    by (auto simp: assigned_def list_ex_iff Bex_def intro!: exI [of _ "(j - b) div 8"])
qed

lemma fields_append:
  "fields_fit (xs @ ys) n \<longleftrightarrow> fields_fit xs n \<and> fields_fit ys n" "assigned (xs @ ys) i \<longleftrightarrow> assigned xs i \<or> assigned ys i"
  "fields_fit ((off, v) # ys) n \<longleftrightarrow> off + length v \<le> n \<and> fields_fit ys n" "assigned ((off, v) # ys) i \<longleftrightarrow> off \<le> i \<and> i < off + length v \<or> assigned ys i"
  "fields_fit [] n" "\<not> assigned [] i"
  by (auto simp: fields_fit_def assigned_def)

lemmas fields_simps = fields_append word_fields word_fields [where b = 0, simplified]

lemma stat_layout: "fields_fit (stat_fields tty h) 128" "i < 128 \<Longrightarrow> \<not> assigned (stat_fields tty h) i \<Longrightarrow> 40 \<le> i \<and> i < 48 \<or> 120 \<le> i"
proof -
  show "fields_fit (stat_fields tty h) 128" by (simp add: stat_fields_def fields_simps)
  let ?spans = "[(0, 8), (8, 8), (16, 4), (20, 4), (24, 4), (28, 4), (32, 8), (48, 8), (72, 8), (88, 8), (104, 8), (56, 8), (64, 8), (80, 8), (96, 8), (112, 8)] :: (nat \<times> nat) list"
  have spans: "list_all (\<lambda>i. list_ex (\<lambda>(off, n). off \<le> i \<and> i < off + n) ?spans \<or> 40 \<le> i \<and> i < 48 \<or> 120 \<le> i) [0..<128]" by code_simp
  have "list_ex (\<lambda>(off, n). off \<le> i \<and> i < off + n) ?spans = assigned (stat_fields tty h) i" for i
    by (simp add: stat_fields_def assigned_def)
  with spans have "list_all (\<lambda>i. assigned (stat_fields tty h) i \<or> 40 \<le> i \<and> i < 48 \<or> 120 \<le> i) [0..<128]" by (simp only:)
  then have "\<forall>i \<in> {0..<128}. assigned (stat_fields tty h) i \<or> 40 \<le> i \<and> i < 48 \<or> 120 \<le> i" by (simp only: list_all_iff set_upt)
  then show "i < 128 \<Longrightarrow> \<not> assigned (stat_fields tty h) i \<Longrightarrow> 40 \<le> i \<and> i < 48 \<or> 120 \<le> i" by auto
qed

lemma statfs_layout: "fields_fit (statfs_fields h) 120" "i < 120 \<Longrightarrow> \<not> assigned (statfs_fields h) i \<Longrightarrow> 80 \<le> i \<and> i < 88"
  by (auto simp: statfs_fields_def fields_simps simp del: upt_rec_numeral)

lemma rlimit_layout: "fields_fit (rlimit_fields v) 16" "\<forall>i < 16. assigned (rlimit_fields v) i"
  by (auto simp: rlimit_fields_def fields_simps)

lemma time_layout: "fields_fit (time_fields t) 16" "\<forall>i < 16. assigned (time_fields t) i"
  by (auto simp: time_fields_def fields_simps)

lemma sysinfo_layout: "fields_fit (sysinfo_fields v) 112"
  "i < 112 \<Longrightarrow> \<not> assigned (sysinfo_fields v) i \<Longrightarrow> 8 \<le> i \<and> i < 32 \<or> 40 \<le> i \<and> i < 104 \<or> 108 \<le> i"
  by (auto simp: sysinfo_fields_def fields_simps)

lemma rusage_layout: "fields_fit (rusage_fields c who) 144" "\<forall>i < 144. assigned (rusage_fields c who) i"
  by (auto simp: rusage_fields_def fields_simps simp del: upt_rec_numeral)

lemma uname_layout: "130 + length (cstring release) \<le> 325 \<Longrightarrow> fields_fit (uname_fields release) 325"
  by (auto simp: uname_fields_def fields_simps cstring_def)

lemma stat_replayable:
  assumes "struct_call True stack a 128 (stat_fields tty hs) r v m = Inr e" "128 \<le> length stack"
  shows "replayable (bytes_where (\<lambda>i. 40 \<le> i \<and> i < 48 \<or> 120 \<le> i) a 128) m e"
  by (rule bytes_where_mono [OF replayable_struct [OF assms(1) stat_layout(1) assms(2)] stat_layout(2)]) simp_all

lemma statfs_replayable:
  assumes "struct_call True stack a 120 (statfs_fields hs) r v m = Inr e" "120 \<le> length stack"
  shows "replayable (bytes_where (\<lambda>i. 80 \<le> i \<and> i < 88) a 120) m e"
  by (rule bytes_where_mono [OF replayable_struct [OF assms(1) statfs_layout(1) assms(2)] statfs_layout(2)]) simp_all

lemmas full_structs =
  replayable_full [OF _ rlimit_layout(1) _ _ rlimit_layout(2)] replayable_full [OF _ time_layout(1) _ _ time_layout(2)]
  replayable_full [OF _ rusage_layout(1) _ _ rusage_layout(2)]

text \<open>Every call gives a replayable result, except for the bytes in \<open>lost\<close>.\<close>

lemma emulate_replayable:
  assumes "emulate c True m = Inr e" "call_ok c"
  shows "replayable (lost c) m e"
proof (cases c)
  case (Pipe2 made bad a)
  then show ?thesis using assms(1)
    by (cases made) (auto simp: pipe2Func_def Let_def sys_value_def sys_error_def replayable_def split: if_splits)
next
  case (Sysinfo sz stack a)
  then show ?thesis using assms bytes_where_mono [OF replayable_struct [of stack a 112 _ _ _ m e, OF _ sysinfo_layout(1)] sysinfo_layout(2)]
    by (auto simp: sysinfoFunc_def)
next
  case (Uname release stack a)
  then show ?thesis using assms replayable_struct [of stack a 325 _ _ _ m e, OF _ uname_layout [of release]]
    by (auto simp: unameFunc64_def split: if_splits)
next
  case (Time clk a)
  then show ?thesis using assms(1) by (auto simp: timeFunc_def Let_def sys_value_def replayable_def)
next
  case (Times clk stack a)
  then show ?thesis using assms by (auto simp: timesFunc_def Let_def fields_simps elim!: replayable_full)
next
  case (Clock_getres stack a)
  then show ?thesis using assms by (auto simp: clock_getresFunc_def fields_simps elim!: replayable_full)
next
  case (Readlink path exe h real a n)
  then show ?thesis using assms readlink_replayable [of path exe h real a n m e] by simp
qed (use assms in \<open>auto simp: stat64Func_def lstat64Func_def fstatat64Func_def fstat64Func_def statfsFunc_def fstatfsFunc_def
      writeFunc_def getrlimitFunc_def prlimitFunc_def clock_gettimeFunc_def gettimeofdayFunc_def getrusageFunc_def
      Let_def intro: read_replayable getcwd_replayable stat_replayable statfs_replayable full_structs replayable_none
      split: if_splits sum.splits option.splits\<close>)

section \<open>From the emulation to the loader\<close>

definition sysret_of :: "string \<Rightarrow> emul \<Rightarrow> sysret" where
  "sysret_of name e = \<lparr>sv_name = name, sv_suppressed = False, sv_retry = em_retry e, sv_value = em_value e,
     sv_buffers = map (\<lambda>(r, a, sz, d). (r, a, take (unat sz) d)) (em_reports e)\<rparr>"

text \<open>The entry that the call leaves in every pending slice.\<close>

definition call_of :: "u64 \<Rightarrow> (u16 \<Rightarrow> u64) \<Rightarrow> string \<Rightarrow> emul \<Rightarrow> SyscallInfo" where
  "call_of pc regs name e =
     \<lparr>si_name = name, si_pc = pc, si_num = ucast (ucast (regs 17) :: u32), si_ret = em_value e, si_hasret = True,
      si_bufaddr = (case em_reports e of [] \<Rightarrow> 0 | (r, a, sz, d) # _ \<Rightarrow> a),
      si_data = (case em_reports e of [] \<Rightarrow> [] | (r, a, sz, d) # _ \<Rightarrow> take (unat sz) d),
      si_params = map regs [10, 11, 12, 13, 14]\<rparr>"

definition with_call :: "SyscallInfo \<Rightarrow> cpu \<Rightarrow> cpu" where
  "with_call s u = u\<lparr>coll := (coll u)\<lparr>pendingCkpts := map (\<lambda>c. c\<lparr>ck_sysinfos := ck_sysinfos c @ [s]\<rparr>) (pendingCkpts (coll u))\<rparr>\<rparr>"

definition on_calls :: "(SyscallInfo list \<Rightarrow> SyscallInfo list) \<Rightarrow> collector \<Rightarrow> collector" where
  "on_calls g k = k\<lparr>pendingCkpts := map (\<lambda>c. c\<lparr>ck_sysinfos := g (ck_sysinfos c)\<rparr>) (pendingCkpts k)\<rparr>"

lemma res_map_exact: "(\<And>x. x \<in> set xs \<Longrightarrow> f x = Inr (g x)) \<Longrightarrow> res_map f xs = Inr (map g xs)"
  by (induction xs) auto

lemma hooks_on_calls:
  "ckpt_add_sysenter pc num ps k = Inr (on_calls (add_sysenter pc num ps) k)"
  "ckpt_add_sysret pc name hasret ret k = Inr (on_calls (add_sysret pc name hasret ret) k)"
  by (simp_all add: ckpt_add_sysenter_def ckpt_add_sysret_def on_pending_def on_calls_def res_map_pure)

lemma exe_on_calls:
  assumes "\<And>infos. add_sysexe pc r a sz d (g infos) = Inr (h infos)"
  shows "ckpt_add_sysexe pc r a sz d (on_calls g k) = Inr (on_calls h k)"
proof -
  have "res_map (\<lambda>c. res_bind (add_sysexe pc r a sz d (ck_sysinfos c)) (\<lambda>infos. Inr (c\<lparr>ck_sysinfos := infos\<rparr>)))
      (map (\<lambda>c. c\<lparr>ck_sysinfos := g (ck_sysinfos c)\<rparr>) cs) = Inr (map (\<lambda>c. c\<lparr>ck_sysinfos := h (ck_sysinfos c)\<rparr>) cs)" for cs :: "CkptInfo list"
    by (induction cs) (simp_all add: assms)
  then show ?thesis by (simp add: ckpt_add_sysexe_def on_pending_def on_calls_def)
qed

lemma on_calls_twice: "on_calls g (on_calls h k) = on_calls (\<lambda>infos. g (h infos)) k"
  by (simp add: on_calls_def)

lemma with_call_on_calls: "with_call s u = u\<lparr>coll := on_calls (\<lambda>infos. infos @ [s]) (coll u)\<rparr>"
  by (simp add: with_call_def on_calls_def)

lemma res_fold_none: "res_bind r (res_fold f []) = r"
  by (cases r) simp_all

lemma emu_recorded:
  assumes "replayable X m e" "needCreateCkpt u"
  shows "emu_syscall pc regs (sysret_of name e) u = Inr (with_call (call_of pc regs name e) u)"
proof (cases "em_reports e")
  case Nil
  have "add_sysret pc name True (em_value e) (add_sysenter pc (ucast (regs 17)) (map regs [10, 11, 12, 13, 14]) infos) = infos @ [call_of pc regs name e]" for infos
    using Nil by (simp add: add_sysenter_def add_sysret_def upd_last_def SyscallInfo_new_def call_of_def)
  then show ?thesis using assms(2) Nil
    by (simp add: emu_syscall_def doSyscall_def sysret_of_def on_coll_def hooks_on_calls on_calls_twice with_call_on_calls)
next
  case (Cons x xs)
  obtain r a sz d where x: "x = (r, a, sz, d)" by (cases x)
  have one: "xs = []" "unat sz \<le> length d" using assms(1) Cons x by (auto simp: replayable_def)
  let ?d = "take (unat sz) d" and ?ps = "[regs 10, regs 11, regs 12, regs 13, regs 14]"
  have len: "length ?d = unat sz" "(of_nat (length ?d) :: u32) = sz" using one by simp_all
  define g where "g infos = infos @ [(call_of pc regs name e)\<lparr>si_name := '''', si_ret := r, si_hasret := False\<rparr>]" for infos
  have exe: "add_sysexe pc r a sz ?d (add_sysenter pc (ucast (regs 17)) ?ps infos) = Inr (g infos)" for infos
    using Cons x len by (simp add: add_sysenter_def add_sysexe_def upd_last_def SyscallInfo_new_def call_of_def g_def)
  have ret: "add_sysret pc name True (em_value e) (g infos) = infos @ [call_of pc regs name e]" for infos
    by (simp add: add_sysret_def upd_last_def call_of_def g_def)
  have "emu_syscall pc regs (sysret_of name e) u =
      res_bind (on_coll (ckpt_add_sysenter pc (ucast (regs 17)) ?ps) u) (\<lambda>u. res_bind (on_coll (ckpt_add_sysexe pc r a sz ?d) u)
        (on_coll (ckpt_add_sysret pc name True (em_value e))))"
    using Cons x one(1) len(2) by (simp add: emu_syscall_def doSyscall_def [abs_def] sysret_of_def res_fold_none)
  also have "\<dots> = Inr (with_call (call_of pc regs name e) u)"
    using assms(2) by (simp add: on_coll_def hooks_on_calls exe_on_calls [OF exe] on_calls_twice ret with_call_on_calls)
  finally show ?thesis .
qed

lemma replayed_call:
  assumes "replayable X m e"
  shows "\<forall>x. x \<notin> X \<longrightarrow> call_mem (call_of pc regs name e) m x = em_mem e x" "call_a0 (call_of pc regs name e) = em_value e"
  using assms by (auto simp: replayable_def call_mem_def call_a0_def call_of_def split: list.splits)

text \<open>
  What is lost is really lost: the bytes behind a short read are zero after the emulation, but the loader leaves them as they are.
\<close>

lemma short_read_differs:
  assumes "d \<noteq> []" "length d < n" "a \<noteq> 0" "n < 2 ^ 31" "length d \<le> i" "i < n"
  shows "\<exists>e. readFunc True True nonblock (HostData d) True a n m = Inr e \<and> em_mem e (a + of_nat i) = 0 \<and>
    call_mem (call_of pc regs name e) m (a + of_nat i) = m (a + of_nat i)"
proof -
  let ?e = "\<lparr>em_retry = False, em_value = of_nat (length d), em_mem = mem_write m a (buffer_arg n d),
    em_reports = [(of_nat (length d), a, of_nat (length d), buffer_arg n d)]\<rparr>"
  have r: "readFunc True True nonblock (HostData d) True a n m = Inr ?e"
    using assms(1,2) by (simp add: readFunc_def sys_value_def Let_def)
  have u: "unat (of_nat i :: u64) = i" "unat (of_nat (length d) :: u32) = length d"
    using assms(2,4-6) by (simp_all add: unat_u32 unsigned_of_nat take_bit_eq_mod)
  have "em_mem ?e (a + of_nat i) = 0" using assms(2,5,6) u by (simp add: mem_write_def buffer_arg_def nth_append)
  moreover have "call_mem (call_of pc regs name ?e) m (a + of_nat i) = m (a + of_nat i)"
    using assms u by (simp add: call_mem_def call_of_def mem_write_def)
  ultimately show ?thesis using r by blast
qed

text \<open>The bytes of a structure that are not assigned keep what the program had there, while the recorded ones are those of the stack.\<close>

lemma struct_leaks:
  assumes "a \<noteq> 0" "fields_fit fs n" "n \<le> length stack" "n < 2 ^ 32" "i < n" "\<not> assigned fs i"
  shows "\<exists>e. struct_call True stack a n fs r v m = Inr e \<and> em_mem e (a + of_nat i) = m (a + of_nat i) \<and>
    call_mem (call_of pc regs name e) m (a + of_nat i) = stack ! i"
proof -
  have kept: "set_fields fs bs ! i = bs ! i" if "length bs = n" for bs
    using assms(2,5,6) that
  proof (induction fs arbitrary: bs)
    case (Cons f fs)
    then have "set_fields fs (set_field f bs) ! i = set_field f bs ! i" by (intro Cons.IH) (auto simp: fields_fit_def assigned_def)
    also have "\<dots> = bs ! i" using Cons.prems by (cases f) (auto simp: fields_fit_def assigned_def nth_set_field)
    finally show ?case by (simp add: set_fields_def)
  qed (simp add: set_fields_def)
  have len: "length (set_fields fs (take n stack)) = n" "length (set_fields fs (mem_read m a n)) = n"
    using length_set_fields [of fs "take n stack"] length_set_fields [of fs "mem_read m a n"] assms(2,3) by simp_all
  have u: "unat (of_nat i :: u64) = i" "unat (of_nat n :: u32) = n"
    using assms(4,5) by (simp_all add: unat_u32 unsigned_of_nat take_bit_eq_mod)
  let ?e = "\<lparr>em_retry = False, em_value = v, em_mem = mem_write m a (set_fields fs (mem_read m a n)), em_reports = [(r, a, of_nat n, set_fields fs (take n stack))]\<rparr>"
  have "struct_call True stack a n fs r v m = Inr ?e" using assms(1) by (simp add: struct_call_def vptr_set_def sys_value_def)
  moreover have "em_mem ?e (a + of_nat i) = m (a + of_nat i)" using assms(5) u len kept by (simp add: mem_write_def nth_mem_read)
  moreover have "call_mem (call_of pc regs name ?e) m (a + of_nat i) = stack ! i"
    using assms(1,3,5) u len kept [of "take n stack"] by (auto simp: call_mem_def call_of_def mem_write_def)
  ultimately show ?thesis by blast
qed

end
