(* ===== verification/ElfLoad.thy ===== *)
theory ElfLoad
  imports CkptLoad
begin

unbundle bit_operations_syntax

text \<open>
  \<open>elf_load.cpp\<close> and \<open>main\<close> of the loader (\<open>restoreCkpt/ckptinfo/newreadckpt\<close>): the pages of code
  that the slice used, listed at the start of the checkpoint file, are mapped and filled from the
  executable. The lemmas show that the loaded pages hold the bytes of the executable segment, also
  after the rest of the checkpoint has been loaded.
\<close>

section \<open>Headers of an ELF file\<close>

record Elf64_Ehdr =
  e_phoff :: u64
  e_shoff :: u64
  e_phentsize :: u16
  e_phnum :: u16
  e_shentsize :: u16
  e_shnum :: u16
  e_shstrndx :: u16

record Elf64_Phdr =
  p_type :: u32
  p_flags :: u32
  p_offset :: u64
  p_vaddr :: u64
  p_filesz :: u64
  p_memsz :: u64

record Elf64_Shdr =
  sh_flags :: u64
  sh_addr :: u64
  sh_offset :: u64
  sh_size :: u64

text \<open>
  The fields that the code uses, at their offsets in the packed structures of 64, 56 and 64 bytes.
\<close>

definition fld :: "nat \<Rightarrow> nat \<Rightarrow> bytes \<Rightarrow> 'a::len word" where
  "fld off n bs = le_dec (take n (drop off bs))"

definition ehdr_of :: "bytes \<Rightarrow> Elf64_Ehdr" where
  "ehdr_of bs = \<lparr>e_phoff = fld 32 8 bs, e_shoff = fld 40 8 bs, e_phentsize = fld 54 2 bs, e_phnum = fld 56 2 bs,
     e_shentsize = fld 58 2 bs, e_shnum = fld 60 2 bs, e_shstrndx = fld 62 2 bs\<rparr>"

definition phdr_of :: "bytes \<Rightarrow> Elf64_Phdr" where
  "phdr_of bs = \<lparr>p_type = fld 0 4 bs, p_flags = fld 4 4 bs, p_offset = fld 8 8 bs, p_vaddr = fld 16 8 bs,
     p_filesz = fld 32 8 bs, p_memsz = fld 40 8 bs\<rparr>"

definition shdr_of :: "bytes \<Rightarrow> Elf64_Shdr" where
  "shdr_of bs = \<lparr>sh_flags = fld 8 8 bs, sh_addr = fld 16 8 bs, sh_offset = fld 24 8 bs, sh_size = fld 32 8 bs\<rparr>"

text \<open>
  \<open>fseek\<close> to an offset that is negative as a \<open>long\<close> fails and leaves the cursor.
\<close>

definition fseek64 :: "u64 \<Rightarrow> rfile \<Rightarrow> rfile" where
  "fseek64 off p = (if sint off < 0 then p else fseek_set (unat off) p)"

text \<open>\<open>i * entsize\<close> is computed as an \<open>int\<close> and then extended to 64 bits.\<close>

definition table_off :: "u64 \<Rightarrow> nat \<Rightarrow> u16 \<Rightarrow> u64" where
  "table_off base i entsize = base + scast (of_nat (i * unat entsize) :: u32)"

section \<open>Protection of a segment\<close>

definition PF_X :: u32 where "PF_X = 1"
definition PF_W :: u32 where "PF_W = 2"
definition PF_R :: u32 where "PF_R = 4"
definition PROT_NONE :: u32 where "PROT_NONE = 0"
definition PROT_READ :: u32 where "PROT_READ = 1"
definition PROT_WRITE :: u32 where "PROT_WRITE = 2"
definition PROT_EXEC :: u32 where "PROT_EXEC = 4"

definition get_prot :: "u32 \<Rightarrow> u32" where
  "get_prot pf =
     (let prot_x = (if pf AND PF_X \<noteq> 0 then PROT_EXEC else PROT_NONE);
          prot_w = (if pf AND PF_W \<noteq> 0 then PROT_WRITE else PROT_NONE);
          prot_r = (if pf AND PF_R \<noteq> 0 then PROT_READ else PROT_NONE)
      in prot_x OR prot_w OR prot_r)"

section \<open>Loading the code\<close>

text \<open>One used range, from its place in the segment that starts at \<open>p_vaddr\<close>.\<close>

definition load_text_range :: "Elf64_Phdr \<Rightarrow> MemRangeInfo \<Rightarrow> rfile \<times> memory \<Rightarrow> rfile \<times> memory" where
  "load_text_range phdr r st =
     (case st of (fp, m) \<Rightarrow>
      case fread (unat (mr_size r)) (fseek64 (mr_addr r - p_vaddr phdr + p_offset phdr) fp) of
        (bs, fp') \<Rightarrow> (fp', mem_write m (mr_addr r) bs))"

text \<open>Without a list of used ranges, every executable section.\<close>

definition load_text_section :: "Elf64_Ehdr \<Rightarrow> nat \<Rightarrow> bytes \<times> rfile \<times> memory \<Rightarrow> (bytes \<times> rfile \<times> memory) res" where
  "load_text_section ehdr c st =
     (case st of (old, fp, m) \<Rightarrow>
      res_bind (fread_var 64 old (fseek64 (table_off (e_shoff ehdr) c (e_shentsize ehdr)) fp)) (\<lambda>(bs, fp1).
        let shdr = shdr_of bs
        in if sh_size shdr \<noteq> 0 \<and> sh_flags shdr AND 4 \<noteq> 0
           then (case fread (unat (sh_size shdr)) (fseek64 (sh_offset shdr) fp1) of
                   (code, fp2) \<Rightarrow> Inr (bs, fp2, mem_write m (sh_addr shdr) code))
           else Inr (bs, fp1, m)))"

definition load_text_sections :: "Elf64_Ehdr \<Rightarrow> rfile \<times> memory \<Rightarrow> (rfile \<times> memory) res" where
  "load_text_sections ehdr st =
     (case st of (fp, m) \<Rightarrow>
      res_bind (fread_var 64 [] (fseek64 (table_off (e_shoff ehdr) (unat (e_shstrndx ehdr)) (e_shentsize ehdr)) fp)) (\<lambda>(bs, fp1).
      res_bind (res_fold (load_text_section ehdr) [0..<unat (e_shnum ehdr)]
                  ([], fseek64 (sh_offset (shdr_of bs) + sh_size (shdr_of bs)) fp1, m))
        (\<lambda>(_, fp2, m'). Inr (fp2, m'))))"

text \<open>The loop over the program headers ends at the first executable segment with data.\<close>

definition exec_segment :: "Elf64_Phdr \<Rightarrow> bool" where
  "exec_segment phdr \<longleftrightarrow> p_type phdr = 1 \<and> p_memsz phdr \<noteq> 0 \<and> p_filesz phdr > 0 \<and>
     get_prot (p_flags phdr) AND PROT_EXEC \<noteq> 0"

fun load_segments :: "Elf64_Ehdr \<Rightarrow> MemRangeInfo list \<Rightarrow> nat list \<Rightarrow> bytes \<Rightarrow> rfile \<times> memory \<Rightarrow> memory res" where
  "load_segments ehdr textinfo [] old st = Inr (snd st)"
| "load_segments ehdr textinfo (i # is) old (fp, m) =
     res_bind (fread_var 56 old (fseek64 (table_off (e_phoff ehdr) i (e_phentsize ehdr)) fp)) (\<lambda>(bs, fp1).
       if exec_segment (phdr_of bs)
       then (case fold (load_text_range (phdr_of bs)) textinfo (fp1, m) of (fp2, m2) \<Rightarrow>
               if textinfo = [] then res_bind (load_text_sections ehdr (fp2, m2)) (\<lambda>st'. Inr (snd st'))
               else Inr m2)
       else load_segments ehdr textinfo is bs (fp1, m))"

text \<open>
  The list of used ranges is read into \<open>tempdata\<close>, a zeroed array of 32768 bytes; a longer list
  is written past its end, and an empty list makes \<open>textinfo[numinfos-1]\<close> an access before it.
\<close>

definition range_of_bytes :: "bytes \<Rightarrow> MemRangeInfo" where
  "range_of_bytes bs = \<lparr>mr_addr = fld 0 8 bs, mr_size = fld 8 8 bs\<rparr>"

definition read_textinfo :: "bytes \<Rightarrow> (MemRangeInfo list) res" where
  "read_textinfo ckpt =
     (case fread64 0 (fopen_rb ckpt) of (numinfos, p1) \<Rightarrow>
      case fread (16 * unat numinfos) p1 of (bs, p2) \<Rightarrow>
        if numinfos = 0 \<or> 32768 < 16 * unat numinfos then Inl OutOfBounds
        else Inr (map (\<lambda>i. range_of_bytes (take 16 (drop (16 * i) (overlay bs (replicate 32768 0))))) [0..<unat numinfos]))"

definition text_segment :: "MemRangeInfo list \<Rightarrow> MemRangeInfo" where
  "text_segment rs =
     (let f = hd rs; z = List.last rs
      in \<lparr>mr_addr = mr_addr f, mr_size = mr_addr z + mr_size z + 4096 - mr_addr f\<rparr>)"

text \<open>
  \<open>mapped\<close> is what \<open>mmap\<close> returns for the text segment; files that cannot be opened are \<open>None\<close>,
  and \<open>prog\<close> is what \<open>fopen\<close> of the executable does.
  The result is \<open>text_seg\<close> and the memory.
\<close>

definition loadelf ::
  "(MemRangeInfo \<Rightarrow> u64) \<Rightarrow> bytes option res \<Rightarrow> bytes option \<Rightarrow> memory \<Rightarrow> (MemRangeInfo \<times> memory) res" where
  "loadelf mapped prog ckpt m =
     (case ckpt of None \<Rightarrow> Inl (ExitProg 1) | Some ckptfile \<Rightarrow>
      res_bind (read_textinfo ckptfile) (\<lambda>textinfo.
        let text_seg = text_segment textinfo
        in if mapped text_seg \<noteq> mr_addr text_seg then Inl (ExitProg 1)
           else let m1 = mmap_zero (mr_addr text_seg) (page_up (mr_size text_seg)) m
           in res_bind prog (\<lambda>opened. case opened of None \<Rightarrow> Inl (ExitProg 1) | Some progfile \<Rightarrow>
              res_bind (fread_var 64 [] (fopen_rb progfile)) (\<lambda>(bs, fp).
              res_bind (load_segments (ehdr_of bs) textinfo [0..<unat (e_phnum (ehdr_of bs))] [] (fp, m1)) (\<lambda>m2.
                Inr (text_seg, m2))))))"

text \<open>
  \<open>main\<close>: with fewer than two arguments it prints its usage and returns 0. With the checkpoint only,
  \<open>argv[2]\<close> is the null pointer that \<open>fopen\<close> is called with. \<open>fs\<close> is the file system.
\<close>

definition readckpt_main ::
  "(string \<Rightarrow> bytes option) \<Rightarrow> (MemRangeInfo \<Rightarrow> u64) \<Rightarrow> u64 \<Rightarrow> u64 \<Rightarrow> u64 \<Rightarrow> u64 \<times> u64 \<Rightarrow>
   string list \<Rightarrow> loader \<Rightarrow> loader res" where
  "readckpt_main fs mapped alloc_vaddr takeOverAddr_place a0_place ci argv l =
     (if length argv < 2 then Inl (ExitProg 0)
      else res_bind (loadelf mapped (if length argv < 3 then Inl NullDeref else Inr (fs (argv ! 2))) (fs (argv ! 1)) (lmem l)) (\<lambda>(text_seg, m).
           case fs (argv ! 1) of None \<Rightarrow> Inl (ExitProg 1) | Some ckptfile \<Rightarrow>
             read_ckptinfo alloc_vaddr takeOverAddr_place a0_place ci text_seg [] ckptfile (l\<lparr>lmem := m\<rparr>)))"

section \<open>What the loaded code is\<close>

definition range_info :: "CodeRange \<Rightarrow> MemRangeInfo" where
  "range_info r = \<lparr>mr_addr = cr_addr r, mr_size = cr_size r\<rparr>"

text \<open>The place of an address in the file, and the byte that the segment puts there.\<close>

definition seg_off :: "Elf64_Phdr \<Rightarrow> u64 \<Rightarrow> nat" where
  "seg_off ph x = unat (x - p_vaddr ph + p_offset ph)"

definition elf_byte :: "bytes \<Rightarrow> Elf64_Phdr \<Rightarrow> u64 \<Rightarrow> u8" where
  "elf_byte prog ph x = (if seg_off ph x < length prog then prog ! seg_off ph x else 0)"

definition phdr_at :: "bytes \<Rightarrow> nat \<Rightarrow> Elf64_Phdr" where
  "phdr_at prog i =
     (let eh = ehdr_of (take 64 prog)
      in phdr_of (take 56 (drop (unat (e_phoff eh) + i * unat (e_phentsize eh)) prog)))"

definition exec_phdr :: "bytes \<Rightarrow> Elf64_Phdr option" where
  "exec_phdr prog = List.find exec_segment (map (phdr_at prog) [0..<unat (e_phnum (ehdr_of (take 64 prog)))])"

text \<open>An executable file whose table of program headers lies within it.\<close>

definition phdrs_fit :: "bytes \<Rightarrow> bool" where
  "phdrs_fit prog \<longleftrightarrow> 64 \<le> length prog \<and> length prog < 2 ^ 63 \<and>
     (let eh = ehdr_of (take 64 prog)
      in unat (e_phnum eh) * unat (e_phentsize eh) < 2 ^ 31 \<and>
         (\<forall>i < unat (e_phnum eh). unat (e_phoff eh) + i * unat (e_phentsize eh) + 56 \<le> length prog))"

lemma read_textinfo_saved:
  assumes "rs \<noteq> []" and "length rs \<le> 2048"
  shows "read_textinfo (ranges_bytes rs @ after) = Inr (map range_info rs)"
proof -
  let ?n = "length rs" and ?bs = "concat (map range_bytes rs)"
  have n: "unat (of_nat ?n :: u64) = ?n" "(of_nat ?n :: u64) \<noteq> 0"
    using assms unat_of_nat_u64 [of ?n] by (auto simp: unat_eq_0 [symmetric])
  have len: "length ?bs = 16 * ?n" using length_blocks [of rs range_bytes 16] by simp
  have r0: "rest (fopen_rb (ranges_bytes rs @ after)) = le64 (of_nat ?n) @ ?bs @ after" by (simp add: ranges_bytes_def)
  obtain p1 where p1: "fread64 0 (fopen_rb (ranges_bytes rs @ after)) = (of_nat ?n, p1)" "rest p1 = ?bs @ after"
    using fread64_app [OF r0, of 0] by auto
  obtain p2 where p2: "fread (16 * ?n) p1 = (?bs, p2)" using fread_app [OF p1(2) len] by auto
  have blk: "take 16 (drop (16 * i) (?bs @ xs)) = range_bytes (rs ! i)" if "i < ?n" for i xs
    using nth_block [of rs range_bytes 16 i xs] that by simp
  have "range_of_bytes (take 16 (drop (16 * i) (overlay ?bs (replicate 32768 0)))) = range_info (rs ! i)" if "i < ?n" for i
    unfolding overlay_def blk [OF that] by (simp add: range_of_bytes_def range_info_def fld_def range_bytes_def)
  then have "map (\<lambda>i. range_of_bytes (take 16 (drop (16 * i) (overlay ?bs (replicate 32768 0))))) [0..<?n] = map range_info rs"
    by (intro nth_equalityI) simp_all
  then show ?thesis using assms(2) by (simp add: read_textinfo_def p1(1) n p2)
qed

lemma fseek64_small: "unat off < 2 ^ 63 \<Longrightarrow> fseek64 off p = fseek_set (unat off) p"
  by (simp add: fseek64_def sint_of_small)

lemma seg_off_add:
  assumes "seg_off ph a + k < 2 ^ 64"
  shows "seg_off ph (a + of_nat k) = seg_off ph a + k"
proof -
  have "a + of_nat k - p_vaddr ph + p_offset ph = a - p_vaddr ph + p_offset ph + of_nat k" by simp
  then show ?thesis
    using assms unat_add_less [of "a - p_vaddr ph + p_offset ph" k] unfolding seg_off_def by (simp only:)
qed

lemma load_text_range_ok:
  assumes "seg_off ph (mr_addr r) < 2 ^ 63" and "unat (mr_size r) < 2 ^ 63"
  shows "content (fst (load_text_range ph r (fp, m))) = content fp"
    "snd (load_text_range ph r (fp, m)) x =
       (if in_range x (mr_addr r) (unat (mr_size r)) \<and> seg_off ph x < length (content fp)
        then content fp ! seg_off ph x else m x)"
proof -
  let ?a = "mr_addr r" and ?n = "unat (mr_size r)"
  let ?bs = "take ?n (drop (seg_off ph ?a) (content fp))"
  have f: "fread ?n (fseek64 (?a - p_vaddr ph + p_offset ph) fp) =
      (?bs, fseek_set (seg_off ph ?a + length ?bs) fp)"
    using fseek64_small [of "?a - p_vaddr ph + p_offset ph" fp] assms(1)
    by (simp add: seg_off_def fread_def rest_def fseek_set_def Let_def)
  show "content (fst (load_text_range ph r (fp, m))) = content fp"
    by (simp add: load_text_range_def f)
  have "mem_write m ?a ?bs x =
       (if in_range x ?a ?n \<and> seg_off ph x < length (content fp) then content fp ! seg_off ph x else m x)"
  proof (cases "in_range x ?a ?n")
    case True
    then obtain k where k: "k < ?n" "x = ?a + of_nat k" by (rule in_rangeE)
    then have "seg_off ph x = seg_off ph ?a + k" using seg_off_add [of ph ?a k] assms by simp
    moreover have "unat (x - ?a) = k" using k assms(2) unat_of_nat_u64 [of k] by simp
    ultimately show ?thesis using True k(1) by (auto simp: mem_write_def)
  next
    case False
    then have "\<not> in_range x ?a (length ?bs)" by (simp add: in_range_def)
    then show ?thesis using False by (simp add: mem_write_out)
  qed
  then show "snd (load_text_range ph r (fp, m)) x =
       (if in_range x ?a ?n \<and> seg_off ph x < length (content fp) then content fp ! seg_off ph x else m x)"
    by (simp add: load_text_range_def f)
qed

lemma load_text_ranges_ok:
  assumes "\<forall>r \<in> set rs. seg_off ph (mr_addr r) < 2 ^ 63 \<and> unat (mr_size r) < 2 ^ 63"
  shows "snd (fold (load_text_range ph) rs (fp, m)) x =
    (if (\<exists>r \<in> set rs. in_range x (mr_addr r) (unat (mr_size r))) \<and> seg_off ph x < length (content fp)
     then content fp ! seg_off ph x else m x)"
  using assms
proof (induction rs arbitrary: fp m)
  case (Cons r rs)
  obtain fp' m' where s: "load_text_range ph r (fp, m) = (fp', m')" by (cases "load_text_range ph r (fp, m)")
  have "content fp' = content fp"
    "m' x = (if in_range x (mr_addr r) (unat (mr_size r)) \<and> seg_off ph x < length (content fp)
        then content fp ! seg_off ph x else m x)"
    using load_text_range_ok [of ph r fp m] Cons.prems s by simp_all
  then show ?case using Cons.IH [of fp' m'] Cons.prems by (auto simp: s)
qed simp

lemma table_off_small:
  assumes "unat base + i * unat es < 2 ^ 63" and "i * unat es < 2 ^ 31"
  shows "unat (table_off base i es) = unat base + i * unat es"
proof -
  define k where "k = i * unat es"
  have "sint (of_nat k :: u32) = int k"
    using assms(2) int_word_sint [of "int k", where 'a = 32] by (simp add: k_def [symmetric])
  then have "scast (of_nat k :: u32) = (of_nat k :: u64)"
    by (metis of_int_of_nat_eq of_int_sint)
  then show ?thesis
    using unat_add_less [of base k] assms(1) by (simp add: table_off_def k_def [symmetric] del: of_nat_mult)
qed

lemma fld_append: "off + n \<le> length xs \<Longrightarrow> fld off n (xs @ ys) = fld off n xs"
  by (simp add: fld_def)

lemma phdr_of_append: "length xs = 56 \<Longrightarrow> phdr_of (xs @ ys) = phdr_of xs"
  by (simp add: phdr_of_def fld_append)

lemma load_segments_found:
  assumes fit: "phdrs_fit prog" and eh: "eh = ehdr_of (take 64 prog)" and fp: "content fp = prog"
    and found: "List.find exec_segment (map (phdr_at prog) js) = Some ph"
    and js: "\<forall>j \<in> set js. j < unat (e_phnum eh)" and ne: "ti \<noteq> []"
  shows "\<exists>fp'. content fp' = prog \<and>
    load_segments eh ti js old (fp, m) = Inr (snd (fold (load_text_range ph) ti (fp', m)))"
  using fp found js
proof (induction js arbitrary: fp old)
  case (Cons j js)
  let ?off = "unat (e_phoff eh) + j * unat (e_phentsize eh)"
  have j: "j < unat (e_phnum eh)" using Cons.prems by simp
  then have "j * unat (e_phentsize eh) \<le> unat (e_phnum eh) * unat (e_phentsize eh)" by simp
  moreover have b: "?off + 56 \<le> length prog" "length prog < 2 ^ 63" "unat (e_phnum eh) * unat (e_phentsize eh) < 2 ^ 31"
    using fit j by (simp_all add: phdrs_fit_def eh Let_def)
  ultimately have t: "unat (table_off (e_phoff eh) j (e_phentsize eh)) = ?off" by (intro table_off_small) linarith+
  then have sk: "fseek64 (table_off (e_phoff eh) j (e_phentsize eh)) fp = fseek_set ?off fp"
    using fseek64_small [of "table_off (e_phoff eh) j (e_phentsize eh)" fp] b by simp
  have "pos (fseek_set ?off fp) + 56 \<le> length (content (fseek_set ?off fp))"
    using Cons.prems(1) b(1) by (simp add: fseek_set_def)
  then obtain fp1 where f: "fread_var 56 old (fseek_set ?off fp) = Inr (take 56 (drop ?off prog) @ drop 56 old, fp1)"
    "content fp1 = prog"
    using fread_var_full [of "fseek_set ?off fp" 56 old] Cons.prems(1) by (auto simp: fseek_set_def)
  have ph: "phdr_of (take 56 (drop ?off prog) @ drop 56 old) = phdr_at prog j"
    using b(1) by (subst phdr_of_append) (simp_all add: phdr_at_def eh Let_def)
  show ?case
  proof (cases "exec_segment (phdr_at prog j)")
    case True
    then have "phdr_at prog j = ph" using Cons.prems(2) by simp
    then show ?thesis using True ne f(2) by (auto simp: sk f(1) ph split: prod.splits intro!: exI [of _ fp1])
  next
    case False
    then show ?thesis using Cons.IH [OF f(2)] Cons.prems by (simp add: sk f(1) ph)
  qed
qed simp

section \<open>Loading the code of a checkpoint\<close>

text \<open>Every range lies at a file offset of the executable segment that \<open>fseek\<close> accepts.\<close>

definition ranges_in_segment :: "Elf64_Phdr \<Rightarrow> CodeRange list \<Rightarrow> bool" where
  "ranges_in_segment ph rs \<longleftrightarrow> (\<forall>r \<in> set rs. seg_off ph (cr_addr r) < 2 ^ 63)"

lemma in_code_range_iff:
  "range_end r < 2 ^ 63 \<Longrightarrow> in_code_range x r \<longleftrightarrow> in_range x (cr_addr r) (unat (cr_size r))"
  by (simp add: in_code_range_def range_end_def in_range_no_wrap)

lemma text_segment_covers:
  assumes wf: "wf_ranges 4096 rs" and ne: "rs \<noteq> []" and x: "covers rs x"
  shows "in_range x (mr_addr (text_segment (map range_info rs))) (page_up (mr_size (text_segment (map range_info rs))))"
proof -
  let ?f = "hd rs" and ?z = "List.last rs"
  have mem: "?f \<in> set rs" "?z \<in> set rs" using ne by simp_all
  have b: "range_end r < 2 ^ 63" if "r \<in> set rs" for r using wf that by (simp add: wf_ranges_def)
  have lo: "unat (cr_addr ?f) \<le> unat (cr_addr r)" if "r \<in> set rs" for r
    using wf ne that unfolding wf_ranges_def by (cases rs) (fastforce simp: range_end_def)+
  have hi: "range_end r \<le> range_end ?z" if "r \<in> set rs" for r
  proof -
    have "rs = butlast rs @ [?z]" using ne by simp
    then have "sorted_wrt (\<lambda>r s. range_end r \<le> unat (cr_addr s)) (butlast rs @ [?z])" "r \<in> set (butlast rs) \<or> r = ?z"
      using wf that by (simp_all add: wf_ranges_def) (metis in_set_butlastD snoc_eq_iff_butlast that rotate1.simps(2) set_ConsD set_rotate1)
    then show ?thesis by (auto simp: sorted_wrt_append range_end_def)
  qed
  from x obtain r where r: "r \<in> set rs" "in_code_range x r" by (auto simp: covers_def)
  have x1: "unat (cr_addr ?f) \<le> unat x" "unat x < range_end ?z"
    using lo [OF r(1)] hi [OF r(1)] r(2) by (simp_all add: in_code_range_def)
  have "unat (cr_addr ?z + cr_size ?z + 4096) = range_end ?z + 4096"
    using b [OF mem(2)] unat_text_end [of ?z] unat_add_less [of "cr_addr ?z + cr_size ?z" 4096] by simp
  then have "unat (cr_addr ?z + cr_size ?z + 4096 - cr_addr ?f) = range_end ?z + 4096 - unat (cr_addr ?f)"
    using unat_diff_le [of "cr_addr ?f" "cr_addr ?z + cr_size ?z + 4096"] x1 by (simp add: word_le_nat_alt)
  moreover have "unat (x - cr_addr ?f) = unat x - unat (cr_addr ?f)"
    using x1 by (simp add: unat_diff_le word_le_nat_alt)
  ultimately show ?thesis
    using x1 ne unfolding in_range_def text_segment_def page_up_def Let_def
    by (simp add: hd_map last_map range_info_def)
qed

theorem loadelf_code:
  assumes ne: "rs \<noteq> []" "length rs \<le> 2048" and wf: "wf_ranges 4096 rs" and fit: "phdrs_fit prog"
    and ph: "exec_phdr prog = Some ph" and seg: "ranges_in_segment ph rs"
    and mapped: "mapped (text_segment (map range_info rs)) = mr_addr (text_segment (map range_info rs))"
  shows "\<exists>m'. loadelf mapped (Inr (Some prog)) (Some (ranges_bytes rs @ after)) m =
      Inr (text_segment (map range_info rs), m') \<and> (\<forall>x. covers rs x \<longrightarrow> m' x = elf_byte prog ph x)"
proof -
  let ?ti = "map range_info rs" and ?eh = "ehdr_of (take 64 prog)"
  let ?ts = "text_segment ?ti"
  define m1 where "m1 = mmap_zero (mr_addr ?ts) (page_up (mr_size ?ts)) m"
  have f64: "fread_var 64 [] (fopen_rb prog) = Inr (take 64 prog, fopen_rb prog\<lparr>pos := 64\<rparr>)"
    using fit by (simp add: phdrs_fit_def fread_var_def fread_def overlay_def Let_def fopen_rb_def rest_def)
  obtain fp' where ls: "content fp' = prog"
    "load_segments ?eh ?ti [0..<unat (e_phnum ?eh)] [] (fopen_rb prog\<lparr>pos := 64\<rparr>, m1) =
      Inr (snd (fold (load_text_range ph) ?ti (fp', m1)))"
    using load_segments_found [OF fit refl, of "fopen_rb prog\<lparr>pos := 64\<rparr>" "[0..<unat (e_phnum ?eh)]" ph ?ti "[]" m1]
      ph ne(1) by (auto simp: exec_phdr_def fopen_rb_def)
  let ?m' = "snd (fold (load_text_range ph) ?ti (fp', m1))"
  have run: "loadelf mapped (Inr (Some prog)) (Some (ranges_bytes rs @ after)) m = Inr (?ts, ?m')"
    using read_textinfo_saved [OF ne, of after] ls(2) mapped
    by (simp add: loadelf_def Let_def f64 m1_def [symmetric])
  have b: "range_end r < 2 ^ 63" if "r \<in> set rs" for r using wf that by (simp add: wf_ranges_def)
  have "?m' x = elf_byte prog ph x" if c: "covers rs x" for x
  proof -
    have "\<forall>r \<in> set ?ti. seg_off ph (mr_addr r) < 2 ^ 63 \<and> unat (mr_size r) < 2 ^ 63"
      using seg b by (fastforce simp: ranges_in_segment_def range_info_def range_end_def)
    moreover have "\<exists>r \<in> set ?ti. in_range x (mr_addr r) (unat (mr_size r))"
      using c b in_code_range_iff by (fastforce simp: covers_def range_info_def)
    moreover have "m1 x = 0" using text_segment_covers [OF wf ne(1) c] by (simp add: m1_def mmap_zero_def)
    ultimately show ?thesis using load_text_ranges_ok [of ?ti ph fp' m1 x] by (simp add: ls(1) elf_byte_def)
  qed
  with run show ?thesis by blast
qed

text \<open>Without used ranges the loader leaves its array; with more than 2048 it runs over its end.\<close>

lemma loadelf_no_ranges: "loadelf mapped prog (Some (ranges_bytes [] @ after)) m = Inl OutOfBounds"
proof -
  obtain p where p: "fread64 0 (fopen_rb (le64 0 @ after)) = (0, p)"
    using fread64_app [of "fopen_rb (le64 0 @ after)" 0 after 0] by auto
  then show ?thesis by (simp add: loadelf_def read_textinfo_def ranges_bytes_def p split: prod.splits)
qed

text \<open>The four bytes of every instruction that the slice recorded come from the executable.\<close>

lemma addinst_user:
  assumes "unat pc < 2 ^ 61" and "a \<in> addinst pc A" and "a \<notin> A"
  shows "unat a < 2 ^ 62"
proof -
  have pg: "unat (page_of pc) \<le> unat pc" by (rule page_of_bounds)
  then have "unat (page_of pc + 4096) = unat (page_of pc) + 4096" "unat (pc + 4) = unat pc + 4"
      "unat (pc + 4096) = unat pc + 4096"
    using unat_add_less [of "page_of pc" 4096] unat_add_less [of pc 4] unat_add_less [of pc 4096] assms(1) by simp_all
  then show ?thesis using assms pg page_of_bounds(1) [of "pc + 4"] page_of_bounds(1) [of "pc + 4096"]
    by (auto simp: addinst_def Let_def split: if_splits)
qed

lemma addinsts_user:
  assumes "\<forall>pc \<in> set pcs. unat pc < 2 ^ 61"
  shows "\<forall>a \<in> fold addinst pcs {}. unat a < 2 ^ 62"
  using assms
proof (induction pcs rule: rev_induct)
  case (snoc pc pcs)
  then show ?case using addinst_user [of pc _ "fold addinst pcs {}"] by auto
qed simp

lemma addinst_mono: "A \<subseteq> addinst pc A"
  by (auto simp: addinst_def Let_def)

lemma addinst_step: "A \<subseteq> B \<Longrightarrow> addinst pc A \<subseteq> addinst pc B"
  by (auto simp: addinst_def Let_def)

lemma addinsts_member:
  "pc \<in> set pcs \<Longrightarrow> addinst pc {} \<subseteq> fold addinst pcs A"
proof (induction pcs arbitrary: A rule: rev_induct)
  case (snoc q pcs)
  then show ?case using addinst_mono [of "fold addinst pcs A" q] addinst_step [of "{}" "fold addinst pcs A" q] by auto
qed simp

lemma finite_addinsts: "finite A \<Longrightarrow> finite (fold addinst pcs A)"
  by (induction pcs arbitrary: A) (simp_all add: addinst_def Let_def)

section \<open>An example executable\<close>

text \<open>One executable segment at 0x10000 that is the whole file; its only instruction is at 0x10078.\<close>

definition ex_elf :: bytes where
  "ex_elf = replicate 32 0 @ le64 64 @ le64 0 @ replicate 6 0 @ le_enc 2 (56 :: u16) @ le_enc 2 (1 :: u16) @ replicate 6 0 @
     le32 1 @ le32 5 @ le64 0 @ le64 0x10000 @ le64 0x10000 @ le64 124 @ le64 124 @ le64 4096 @ [0x13, 0x05, 0, 0]"

definition ex_phdr :: Elf64_Phdr where
  "ex_phdr = \<lparr>p_type = 1, p_flags = 5, p_offset = 0, p_vaddr = 0x10000, p_filesz = 124, p_memsz = 124\<rparr>"

lemma ex_elf_header: "ehdr_of (take 64 ex_elf) = \<lparr>e_phoff = 64, e_shoff = 0, e_phentsize = 56, e_phnum = 1,
    e_shentsize = 0, e_shnum = 0, e_shstrndx = 0\<rparr>"
  by code_simp

lemma ex_elf_fits: "phdrs_fit ex_elf"
proof -
  have "length ex_elf = 124" by code_simp
  then show ?thesis by (simp add: phdrs_fit_def ex_elf_header)
qed

lemma ex_elf_exec: "exec_phdr ex_elf = Some ex_phdr"
proof -
  have "phdr_at ex_elf 0 = ex_phdr" by code_simp
  moreover have "exec_segment ex_phdr" by code_simp
  ultimately show ?thesis by (simp add: exec_phdr_def ex_elf_header)
qed

lemma ex_elf_range: "getRange_set (fold addinst [0x10078] {}) [] = Inr ([\<lparr>cr_addr = 0x10000, cr_size = 4096\<rparr>], 4096)"
proof -
  have "addinst 0x10078 {} = {0x10078}" by (simp add: addinst_def page_of_def push_bit_eq_mult drop_bit_eq_div)
  moreover have "get_ranges 4096 [0x10078] [] = Inr ([\<lparr>cr_addr = 0x10000, cr_size = 4096\<rparr>], 4096)" by code_simp
  ultimately show ?thesis by (simp add: getRange_set_def)
qed

lemma ex_elf_segment: "ranges_in_segment ex_phdr [\<lparr>cr_addr = 0x10000, cr_size = 4096\<rparr>]"
  by (simp add: ranges_in_segment_def seg_off_def ex_phdr_def)

end
