(* ===== verification/CkptCopy.thy ===== *)
theory CkptCopy
  imports CkptFile
begin

text \<open>
  The part that the helper programs share (\<open>ckpt_helper/rewriteSysInfo\<close> and
  \<open>ckpt_helper/compckpt\<close>): the sections of a checkpoint file that they copy unchanged, one variable
  at a time.
\<close>

section \<open>Copying variables from file to file\<close>

text \<open>One \<open>fread\<close> into a variable and the \<open>fwrite\<close> of it.\<close>

definition copy_item :: "nat \<Rightarrow> bytes \<times> rfile \<times> bytes \<Rightarrow> (bytes \<times> rfile \<times> bytes) res" where
  "copy_item n st =
     (case st of (var, p, out) \<Rightarrow> res_bind (fread_var n var p) (\<lambda>(bs, p'). Inr (bs, p', out @ bs)))"

text \<open>The loop over a counted table: the count has been read and written.\<close>

definition copy_items :: "nat \<Rightarrow> u64 \<Rightarrow> rfile \<times> bytes \<Rightarrow> (rfile \<times> bytes) res" where
  "copy_items n num st =
     (case st of (p, out) \<Rightarrow>
      res_bind (res_fold (\<lambda>_. copy_item n) [0..<unat num] ([], p, out)) (\<lambda>(_, p', out'). Inr (p', out')))"

definition copy_table :: "u64 \<Rightarrow> rfile \<times> bytes \<Rightarrow> (u64 \<times> rfile \<times> bytes) res" where
  "copy_table num0 st =
     (case st of (p, out) \<Rightarrow>
      case fread64 num0 p of (num, p1) \<Rightarrow>
        res_bind (copy_items 16 num (p1, out @ le64 num)) (\<lambda>st'. Inr (num, st')))"

definition copy_block :: "nat \<Rightarrow> rfile \<times> bytes \<Rightarrow> (rfile \<times> bytes) res" where
  "copy_block n st =
     (case st of (p, out) \<Rightarrow> res_bind (copy_item n ([], p, out)) (\<lambda>(_, p', out'). Inr (p', out')))"

definition copy_word :: "rfile \<times> bytes \<Rightarrow> rfile \<times> bytes" where
  "copy_word st = (case st of (p, out) \<Rightarrow> case fread64 0 p of (w, p') \<Rightarrow> (p', out @ le64 w))"

section \<open>A copied section is the same section\<close>

lemma copy_item_app:
  assumes "rest p = xs @ ys" and "length xs = n" and "length var \<le> n"
  shows "\<exists>p'. copy_item n (var, p, out) = Inr (xs, p', out @ xs) \<and> rest p' = ys \<and> content p' = content p"
proof -
  obtain p' where "fread n p = (xs, p')" "rest p' = ys" "content p' = content p" using fread_app [OF assms(1,2)] by auto
  then show ?thesis using assms by (simp add: copy_item_def fread_var_def overlay_def)
qed

lemma copy_items_app:
  assumes "rest p = concat bss @ ys" and "\<forall>bs \<in> set bss. length bs = n" and "length bss < 2 ^ 64"
  shows "\<exists>p'. copy_items n (of_nat (length bss)) (p, out) = Inr (p', out @ concat bss) \<and> rest p' = ys \<and> content p' = content p"
proof -
  have "\<exists>var' p'. res_fold (\<lambda>_. copy_item n) ks (var, p, out) = Inr (var', p', out @ concat bss) \<and> rest p' = ys \<and> content p' = content p"
    if "length ks = length bss" "length var \<le> n" for ks :: "nat list" and var
    using assms(1,2) that
  proof (induction bss arbitrary: ks p var out)
    case (Cons bs bss)
    then obtain k ks' where ks: "ks = k # ks'" by (cases ks) auto
    have r: "rest p = bs @ concat bss @ ys" "length bs = n" using Cons.prems by simp_all
    obtain p1 where p1: "copy_item n (var, p, out) = Inr (bs, p1, out @ bs)" "rest p1 = concat bss @ ys" "content p1 = content p"
      using copy_item_app [OF r Cons.prems(4), of out] by auto
    show ?case using Cons.IH [OF p1(2), of ks' bs "out @ bs"] Cons.prems p1(3) by (simp add: ks p1(1))
  qed simp
  from this [of "[0..<length bss]" "[]"] assms(3) show ?thesis by (auto simp: copy_items_def unat_of_nat_u64)
qed

lemma copy_table_app:
  assumes "rest p = le64 (of_nat (length bss)) @ concat bss @ ys" and "\<forall>bs \<in> set bss. length bs = 16" and "length bss < 2 ^ 64"
  shows "\<exists>p'. copy_table num0 (p, out) = Inr (of_nat (length bss), p', out @ le64 (of_nat (length bss)) @ concat bss) \<and>
    rest p' = ys \<and> content p' = content p"
proof -
  obtain p1 where p1: "fread64 num0 p = (of_nat (length bss), p1)" "rest p1 = concat bss @ ys" "content p1 = content p"
    using fread64_app [OF assms(1), of num0] by auto
  show ?thesis using copy_items_app [OF p1(2) assms(2,3), of "out @ le64 (of_nat (length bss))"] p1(3)
    by (auto simp: copy_table_def p1(1))
qed

lemma copy_block_app:
  assumes "rest p = xs @ ys" and "length xs = n"
  shows "\<exists>p'. copy_block n (p, out) = Inr (p', out @ xs) \<and> rest p' = ys \<and> content p' = content p"
  using copy_item_app [OF assms, of "[]" out] by (auto simp: copy_block_def)

lemma copy_word_app:
  assumes "rest p = le64 w @ ys"
  shows "\<exists>p'. copy_word (p, out) = (p', out @ le64 w) \<and> rest p' = ys \<and> content p' = content p"
  using fread64_app [OF assms, of 0] by (auto simp: copy_word_def)

text \<open>The sections of \<open>saveCkptInfo\<close> before the first loads.\<close>

definition ckpt_head :: "u64 option \<Rightarrow> CkptInfo \<Rightarrow> bytes" where
  "ckpt_head rs c = ranges_bytes (ck_textrange c) @ concat (map le64 (slice_words rs c)) @
     concat (map le64 (ck_intregs c)) @ concat (map le64 (ck_fpregs c)) @ ranges_bytes (ck_memrange c)"

lemma length_concat_le64: "length (concat (map le64 ws)) = 8 * length ws"
  by (induction ws) simp_all

end
