(* ===== verification/RewriteSys.thy ===== *)
theory RewriteSys
  imports CkptCopy
begin

unbundle bit_operations_syntax

text \<open>
  \<open>ckpt_helper/rewriteSysInfo/ckpt_load.cpp\<close>: a checkpoint whose calls are stored in the older
  form (ten words per call, the form of \<open>saveSysInfo1\<close>) is rewritten with the section that
  \<open>saveSysInfo\<close> writes, in which equal calls share a record. The lemmas show that the rewritten
  section is the one the recorder would have written.
\<close>

section \<open>The older section in memory\<close>

record OldSys =
  os_pc :: u64
  os_num :: u64
  os_p0 :: u64
  os_p1 :: u64
  os_p2 :: u64
  os_hasret :: u64
  os_ret :: u64
  os_bufaddr :: u64
  os_data_offset :: u64
  os_data_size :: u64

definition old_of_bytes :: "bytes \<Rightarrow> OldSys" where
  "old_of_bytes bs =
     (let w = (\<lambda>k. un64 (take 8 (drop (8 * k) bs)))
      in \<lparr>os_pc = w 0, os_num = w 1, os_p0 = w 2, os_p1 = w 3, os_p2 = w 4, os_hasret = w 5, os_ret = w 6,
          os_bufaddr = w 7, os_data_offset = w 8, os_data_size = w 9\<rparr>)"

text \<open>\<open>sysinfos[i]\<close>; the section is the mapped file, at \<open>alloc_vaddr\<close>.\<close>

definition old_info :: "cbuf \<Rightarrow> nat \<Rightarrow> OldSys res" where
  "old_info buf i = res_bind (peek buf (8 + 80 * i) 80) (\<lambda>bs. Inr (old_of_bytes bs))"

definition old_data :: "cbuf \<Rightarrow> OldSys \<Rightarrow> bytes res" where
  "old_data buf s = peek buf (unat (os_data_offset s)) (unat (os_data_size s))"

section \<open>Sharing equal calls\<close>

definition isSameSyscall_old :: "cbuf \<Rightarrow> OldSys \<Rightarrow> OldSys \<Rightarrow> bool res" where
  "isSameSyscall_old buf info1 info2 =
     (if os_pc info1 \<noteq> os_pc info2 then Inr False
      else if os_num info1 \<noteq> os_num info2 then Inr False
      else if os_hasret info1 \<noteq> os_hasret info2 then Inr False
      else if os_ret info1 \<noteq> os_ret info2 then Inr False
      else if os_p0 info1 \<noteq> os_p0 info2 then Inr False
      else if os_data_size info1 = 0 then Inr True
      else if os_data_size info1 \<noteq> os_data_size info2 then Inr False
      else if os_bufaddr info1 \<noteq> os_bufaddr info2 then Inr False
      else res_bind (old_data buf info1) (\<lambda>data1.
           res_bind (peek buf (unat (os_data_offset info2)) (unat (os_data_size info1))) (\<lambda>data2.
             Inr (data1 = data2))))"

fun find_same_old :: "cbuf \<Rightarrow> OldSys \<Rightarrow> nat \<Rightarrow> nat list \<Rightarrow> nat option res" where
  "find_same_old buf info c [] = Inr None"
| "find_same_old buf info c (k # ks) =
     res_bind (old_info buf k) (\<lambda>info2.
     res_bind (isSameSyscall_old buf info info2) (\<lambda>same.
       if same then Inr (Some c) else find_same_old buf info (c + 1) ks))"

definition dectect_Sysinfos_old :: "cbuf \<Rightarrow> nat \<Rightarrow> sysgroup \<Rightarrow> (nat \<times> sysgroup) res" where
  "dectect_Sysinfos_old buf idx g =
     res_bind (old_info buf idx) (\<lambda>info.
       let g' = g\<lparr>prepc := insert (os_pc info) (prepc g), prenum := insert (ucast (os_num info)) (prenum g)\<rparr>;
           new = (length (newinfos g), g'\<lparr>newinfos := newinfos g @ [idx]\<rparr>)
       in if os_pc info \<notin> prepc g \<or> ucast (os_num info) \<notin> prenum g then Inr new
          else res_bind (find_same_old buf info 0 (newinfos g)) (\<lambda>r. case r of
                   None \<Rightarrow> Inr new
                 | Some c \<Rightarrow> Inr (c, g')))"

definition classify_old :: "cbuf \<Rightarrow> nat \<Rightarrow> nat list \<times> sysgroup \<times> sysgroup \<Rightarrow> (nat list \<times> sysgroup \<times> sysgroup) res" where
  "classify_old buf i st =
     (case st of (sys_idxs, g, g1) \<Rightarrow>
      res_bind (old_info buf i) (\<lambda>info.
        if os_data_size info \<noteq> 0
        then res_bind (dectect_Sysinfos_old buf i g1) (\<lambda>(r, g1'). Inr (sys_idxs @ [r], g, g1'))
        else res_bind (dectect_Sysinfos_old buf i g) (\<lambda>(r, g'). Inr (sys_idxs @ [r], g', g1))))"

text \<open>The second loop: the calls with data follow those without.\<close>

definition shift_idx :: "cbuf \<Rightarrow> nat list \<Rightarrow> nat \<Rightarrow> nat \<Rightarrow> nat list \<Rightarrow> nat list res" where
  "shift_idx buf sys_idxs size1 i done =
     res_bind (old_info buf i) (\<lambda>info.
       Inr (done @ [if os_data_size info \<noteq> 0 then sys_idxs ! i + size1 else sys_idxs ! i]))"

section \<open>Writing the new section\<close>

definition new_record :: "OldSys \<Rightarrow> u64 \<Rightarrow> bytes" where
  "new_record s data_addr =
     le64 (os_pc s) @ le64 (push_bit 32 (os_num s) + os_data_size s) @ le64 (os_p0 s) @ le64 (os_ret s) @
     le64 (push_bit 8 data_addr + (if os_hasret s \<noteq> 0 then 1 else 0))"

definition rewrite_plain :: "cbuf \<Rightarrow> nat \<Rightarrow> bytes \<Rightarrow> bytes res" where
  "rewrite_plain buf k out = res_bind (old_info buf k) (\<lambda>s. Inr (out @ new_record s invalid_addr))"

definition rewrite_withdata :: "cbuf \<Rightarrow> nat \<Rightarrow> bytes \<times> u64 \<Rightarrow> (bytes \<times> u64) res" where
  "rewrite_withdata buf k st =
     (case st of (out, data_addr) \<Rightarrow>
      res_bind (old_info buf k) (\<lambda>s. Inr (out @ new_record s data_addr, data_addr + os_data_size s + 8)))"

definition rewrite_payload :: "cbuf \<Rightarrow> nat \<Rightarrow> bytes \<Rightarrow> bytes res" where
  "rewrite_payload buf k out =
     res_bind (old_info buf k) (\<lambda>s.
     res_bind (old_data buf s) (\<lambda>data. Inr (out @ le64 (os_bufaddr s) @ data)))"

definition process :: "cbuf \<Rightarrow> u64 \<Rightarrow> bytes res" where
  "process buf totalnum =
     res_bind (res_fold (classify_old buf) [0..<unat totalnum] ([], sysgroup_empty, sysgroup_empty))
       (\<lambda>(sys_idxs0, g, g1).
        let news = newinfos g; news1 = newinfos g1; size1 = length news
        in res_bind (res_fold (shift_idx buf sys_idxs0 size1) [0..<unat totalnum] []) (\<lambda>sys_idxs.
           let idx_size = 4 * totalnum;
               info_size = 5 * 8 * of_nat (length news + length news1);
               out0 = le64 totalnum @ concat (map (\<lambda>i. le32 (of_nat i)) sys_idxs)
           in res_bind (res_fold (rewrite_plain buf) news out0) (\<lambda>out1.
              res_bind (res_fold (rewrite_withdata buf) news1 (out1, idx_size + info_size + 8)) (\<lambda>(out2, _).
                res_fold (rewrite_payload buf) news1 out2))))"

text \<open>The rest of the file is mapped, zero-filled to whole pages.\<close>

definition read_ckptsyscall_old :: "rfile \<times> bytes \<Rightarrow> bytes res" where
  "read_ckptsyscall_old st =
     (case st of (fp, out) \<Rightarrow>
      let nowplace = pos fp;
          filesize = pos (fseek_end fp) - nowplace;
          allocsize = filesize + (4096 - filesize mod 4096);
          bs = fst (fread filesize (fseek_set nowplace (fseek_end fp)));
          buf = buf_of (bs @ replicate (allocsize - length bs) 0)
      in res_bind (peek buf 0 8) (\<lambda>w. res_bind (process buf (un64 w)) (\<lambda>sec. Inr (out @ sec))))"

text \<open>The name of the new file: the name up to its last dot, if that is not its first character.\<close>

definition open_newCKpt :: "string \<Rightarrow> string" where
  "open_newCKpt ckptinfo =
     (let after = takeWhile (\<lambda>c. c \<noteq> CHR ''.'') (rev ckptinfo);
          idx = int (length ckptinfo) - 1 - int (length after)
      in (if idx > 0 then take (nat idx) ckptinfo else ckptinfo) @ ''_new.info'')"

text \<open>The first loads are copied as a counted table of addresses and words.\<close>

definition rewrite_ckptinfo :: "bytes option \<Rightarrow> bytes res" where
  "rewrite_ckptinfo opened =
     (case opened of None \<Rightarrow> Inl (ExitProg 1) | Some ckptfile \<Rightarrow>
      res_bind (copy_table 0 (fopen_rb ckptfile, [])) (\<lambda>(num, st1).
      res_bind (copy_block 32 st1) (\<lambda>st2.
      res_bind (copy_block 512 (copy_word st2)) (\<lambda>st3.
      res_bind (copy_table num st3) (\<lambda>(num', st4).
      res_bind (copy_table num' st4) (\<lambda>(_, st5). read_ckptsyscall_old st5))))))"

section \<open>The older section holds the calls\<close>

text \<open>What the rewriter sees of a call, whose data lie at \<open>off\<close>.\<close>

definition old_of :: "SyscallInfo \<Rightarrow> u64 \<Rightarrow> OldSys" where
  "old_of s off =
     \<lparr>os_pc = si_pc s, os_num = si_num s, os_p0 = si_params s ! 0, os_p1 = si_params s ! 1, os_p2 = si_params s ! 2,
      os_hasret = hasret_bit s, os_ret = si_ret s, os_bufaddr = si_bufaddr s,
      os_data_offset = (if length (si_data s) = 0 then invalid_addr else off), os_data_size = of_nat (length (si_data s))\<rparr>"

definition call_at :: "cbuf \<Rightarrow> nat \<Rightarrow> SyscallInfo \<Rightarrow> bool" where
  "call_at buf i s \<longleftrightarrow> si_params s \<noteq> [] \<and> length (si_data s) < 2 ^ 64 \<and>
     (\<exists>off. old_info buf i = Inr (old_of s off) \<and>
        (si_data s \<noteq> [] \<longrightarrow> peek buf (unat off) (length (si_data s)) = Inr (si_data s)))"

definition holds_calls :: "cbuf \<Rightarrow> SyscallInfo list \<Rightarrow> bool" where
  "holds_calls buf infos \<longleftrightarrow> (\<forall>i < length infos. call_at buf i (infos ! i))"

lemma old_of_simps [simp]:
  "os_pc (old_of s off) = si_pc s" "os_num (old_of s off) = si_num s" "os_ret (old_of s off) = si_ret s"
  "os_bufaddr (old_of s off) = si_bufaddr s" "os_hasret (old_of s off) = hasret_bit s"
  "os_data_size (old_of s off) = of_nat (length (si_data s))"
  by (simp_all add: old_of_def)

lemma hasret_bit_eq [simp]: "hasret_bit s = hasret_bit t \<longleftrightarrow> si_hasret s = si_hasret t" "hasret_bit s \<noteq> 0 \<longleftrightarrow> si_hasret s"
  by (auto simp: hasret_bit_def)

lemma of_nat_length_eq:
  "length xs < 2 ^ 64 \<Longrightarrow> length ys < 2 ^ 64 \<Longrightarrow> (of_nat (length xs) :: u64) = of_nat (length ys) \<longleftrightarrow> length xs = length ys"
  by (metis unat_of_nat_u64)

lemma of_nat_length_0: "length xs < 2 ^ 64 \<Longrightarrow> (of_nat (length xs) :: u64) = 0 \<longleftrightarrow> xs = []"
  using of_nat_length_eq [of xs "[]"] by simp

lemma os_p0_old_of: "si_params s \<noteq> [] \<Longrightarrow> os_p0 (old_of s off) = hd (si_params s)"
  by (simp add: old_of_def hd_conv_nth)

lemma old_data_call:
  assumes "call_at buf i s" and "old_info buf i = Inr w" and "si_data s \<noteq> []"
  shows "peek buf (unat (os_data_offset w)) (length (si_data s)) = Inr (si_data s)" "old_data buf w = Inr (si_data s)"
  using assms by (auto simp: call_at_def old_data_def old_of_def unat_of_nat_u64)

lemma isSameSyscall_old_eq:
  assumes "call_at buf i s" and "call_at buf j t" and "old_info buf i = Inr v" and "old_info buf j = Inr w"
  shows "isSameSyscall_old buf v w = isSameSyscall s t"
proof -
  from assms obtain o1 o2 where vw: "v = old_of s o1" "w = old_of t o2" by (auto simp: call_at_def)
  have ps: "si_params s \<noteq> []" "si_params t \<noteq> []" "length (si_data s) < 2 ^ 64" "length (si_data t) < 2 ^ 64"
    using assms by (simp_all add: call_at_def)
  have size: "os_data_size v = 0 \<longleftrightarrow> si_data s = []" "os_data_size v = os_data_size w \<longleftrightarrow> length (si_data s) = length (si_data t)"
    using of_nat_length_0 [OF ps(3)] of_nat_length_eq [OF ps(3,4)] by (simp_all add: vw)
  have data: "res_bind (old_data buf v) (\<lambda>d1. res_bind (peek buf (unat (os_data_offset w)) (unat (os_data_size v))) (\<lambda>d2. Inr (d1 = d2))) =
      Inr (list_all2 (=) (si_data s) (si_data t))" if "si_data s \<noteq> []" "length (si_data s) = length (si_data t)"
  proof -
    have "unat (os_data_size v) = length (si_data t)" using that ps by (simp add: vw unat_of_nat_u64)
    moreover have "si_data t \<noteq> []" using that by auto
    ultimately show ?thesis
      using old_data_call(2) [OF assms(1,3) that(1)] old_data_call(1) [OF assms(2,4)] by (simp add: list.rel_eq)
  qed
  show ?thesis
    unfolding isSameSyscall_old_def isSameSyscall_def size
    using data ps by (simp add: vw os_p0_old_of)
qed

lemma find_same_old_eq:
  assumes "holds_calls buf infos" and "i < length infos" and "old_info buf i = Inr v" and "\<forall>k \<in> set ks. k < length infos"
  shows "find_same_old buf v c ks = find_same infos (infos ! i) c ks"
  using assms(4)
proof (induction ks arbitrary: c)
  case (Cons k ks)
  have at: "call_at buf i (infos ! i)" "call_at buf k (infos ! k)" using assms(1,2) Cons.prems by (simp_all add: holds_calls_def)
  then obtain w where w: "old_info buf k = Inr w" by (auto simp: call_at_def)
  have same: "isSameSyscall_old buf v w = isSameSyscall (infos ! i) (infos ! k)"
    by (rule isSameSyscall_old_eq [OF at assms(3) w])
  have IH: "find_same_old buf v (c + 1) ks = find_same infos (infos ! i) (c + 1) ks" using Cons by simp
  show ?case
    unfolding find_same_old.simps find_same.simps w same res_bind_simps IH using Cons.prems by simp
qed simp

lemma dectect_old_eq:
  assumes "holds_calls buf infos" and "i < length infos" and "\<forall>k \<in> set (newinfos g). k < length infos"
  shows "dectect_Sysinfos_old buf i g = dectect_Sysinfos infos i g"
proof -
  have "call_at buf i (infos ! i)" using assms by (simp add: holds_calls_def)
  then obtain off where o: "old_info buf i = Inr (old_of (infos ! i) off)" by (auto simp: call_at_def)
  show ?thesis
    using assms(2) find_same_old_eq [OF assms(1,2) o assms(3)]
    by (simp add: dectect_Sysinfos_old_def dectect_Sysinfos_def o Let_def)
qed

lemma classify_old_eq:
  assumes h: "holds_calls buf infos" and ps: "\<forall>t \<in> set infos. si_params t \<noteq> []" and n: "n \<le> length infos"
  shows "res_fold (classify_old buf) [0..<n] ([], sysgroup_empty, sysgroup_empty) =
    res_fold (classify infos) [0..<n] ([], sysgroup_empty, sysgroup_empty)"
  using n
proof (induction n)
  case (Suc n)
  then obtain idxs g g1 where c: "res_fold (classify infos) [0..<n] ([], sysgroup_empty, sysgroup_empty) = Inr (idxs, g, g1)"
    "group_ok infos True g" "group_ok infos False g1" using classify_ok [of n infos] ps by auto
  have b: "\<forall>k \<in> set (newinfos g). k < length infos" "\<forall>k \<in> set (newinfos g1). k < length infos"
    using c(2,3) by (auto simp: group_ok_def)
  have at: "call_at buf n (infos ! n)" using h Suc.prems by (simp add: holds_calls_def)
  then obtain off where o: "old_info buf n = Inr (old_of (infos ! n) off)" "length (si_data (infos ! n)) < 2 ^ 64"
    by (auto simp: call_at_def)
  have "classify_old buf n (idxs, g, g1) = classify infos n (idxs, g, g1)"
    using dectect_old_eq [OF h _ b(1), of n] dectect_old_eq [OF h _ b(2), of n] Suc.prems
    by (simp add: classify_old_def classify_def o(1) of_nat_length_0 [OF o(2)])
  then show ?case using Suc by (cases "classify infos n (idxs, g, g1)") (simp_all add: res_fold_append c(1))
qed simp

section \<open>The rewritten section is the recorder's\<close>

lemma new_record_eq: "si_params s \<noteq> [] \<Longrightarrow> new_record (old_of s off) da = rec_bytes s da"
  by (simp add: new_record_def rec_bytes_def os_p0_old_of hasret_bit_def)

lemma shift_idx_all:
  assumes h: "holds_calls buf infos" and n: "n \<le> length infos"
  shows "res_fold (shift_idx buf idxs sz) [0..<n] [] =
    Inr (map (\<lambda>i. if length (si_data (infos ! i)) \<noteq> 0 then idxs ! i + sz else idxs ! i) [0..<n])"
  using n
proof (induction n)
  case (Suc n)
  then have "call_at buf n (infos ! n)" using h by (simp add: holds_calls_def)
  then obtain off where o: "old_info buf n = Inr (old_of (infos ! n) off)" "length (si_data (infos ! n)) < 2 ^ 64"
    by (auto simp: call_at_def)
  show ?case using Suc by (simp add: res_fold_append shift_idx_def o(1) of_nat_length_0 [OF o(2)])
qed simp

lemma rewrite_plain_eq:
  assumes "holds_calls buf infos" and "\<forall>k \<in> set ks. k < length infos"
  shows "res_fold (rewrite_plain buf) ks out = res_fold (write_plain infos) ks out"
  using assms(2)
proof (induction ks arbitrary: out)
  case (Cons k ks)
  then have "call_at buf k (infos ! k)" using assms(1) by (simp add: holds_calls_def)
  then have "rewrite_plain buf k out = write_plain infos k out"
    by (auto simp: call_at_def rewrite_plain_def write_plain_def new_record_eq sys_record_eq)
  then show ?case using Cons by (cases "write_plain infos k out") simp_all
qed simp

lemma rewrite_withdata_eq:
  assumes "holds_calls buf infos" and "\<forall>k \<in> set ks. k < length infos"
  shows "res_fold (rewrite_withdata buf) ks st = res_fold (write_withdata infos) ks st"
  using assms(2)
proof (induction ks arbitrary: st)
  case (Cons k ks)
  then have "call_at buf k (infos ! k)" using assms(1) by (simp add: holds_calls_def)
  then have "rewrite_withdata buf k st = write_withdata infos k st"
    by (auto simp: call_at_def rewrite_withdata_def write_withdata_def new_record_eq sys_record_eq split: prod.splits)
  then show ?case using Cons by (cases "write_withdata infos k st") simp_all
qed simp

lemma rewrite_payload_eq:
  assumes "holds_calls buf infos" and "\<forall>k \<in> set ks. k < length infos \<and> si_data (infos ! k) \<noteq> []"
  shows "res_fold (rewrite_payload buf) ks out = Inr (out @ concat (map (\<lambda>k. sys_payload (infos ! k)) ks))"
  using assms(2)
proof (induction ks arbitrary: out)
  case (Cons k ks)
  then have at: "call_at buf k (infos ! k)" using assms(1) by (simp add: holds_calls_def)
  then obtain off where o: "old_info buf k = Inr (old_of (infos ! k) off)" by (auto simp: call_at_def)
  have "old_data buf (old_of (infos ! k) off) = Inr (si_data (infos ! k))"
    using old_data_call(2) [OF at o] Cons.prems by simp
  then have "rewrite_payload buf k out = Inr (out @ sys_payload (infos ! k))"
    by (simp add: rewrite_payload_def o sys_payload_def)
  then show ?case using Cons by simp
qed simp

theorem process_eq:
  assumes h: "holds_calls buf infos" and ps: "\<forall>t \<in> set infos. si_params t \<noteq> []" and n: "length infos < 2 ^ 64"
  shows "\<exists>sec infos'. process buf (of_nat (length infos)) = Inr sec \<and> saveSysInfo infos = Inr (sec, infos')"
proof -
  let ?n = "length infos"
  obtain idxs g g1 where c: "res_fold (classify infos) [0..<?n] ([], sysgroup_empty, sysgroup_empty) = Inr (idxs, g, g1)"
    "group_ok infos True g" "group_ok infos False g1" using classify_ok [of ?n infos] ps by auto
  have b: "\<forall>k \<in> set (newinfos g). k < ?n" "\<forall>k \<in> set (newinfos g1). k < ?n" "\<forall>k \<in> set (newinfos g1). k < ?n \<and> si_data (infos ! k) \<noteq> []"
    using c(2,3) by (auto simp: group_ok_def)
  have ps': "\<forall>k \<in> set (newinfos g). si_params (infos ! k) \<noteq> []" "\<forall>k \<in> set (newinfos g1). si_params (infos ! k) \<noteq> []"
    using b ps by auto
  have u: "unat (of_nat ?n :: u64) = ?n" using n by (rule unat_of_nat_u64)
  show ?thesis
    unfolding process_def saveSysInfo_def u classify_old_eq [OF h ps order.refl] c(1) res_bind_simps prod.case Let_def
      shift_idx_all [OF h order.refl] rewrite_plain_eq [OF h b(1)] write_plain_all [OF ps'(1)] rewrite_withdata_eq [OF h b(2)]
      write_withdata_all [OF ps'(2)] rewrite_payload_eq [OF h b(3)]
    by (simp add: algebra_simps)
qed

section \<open>Reading the older form\<close>

definition rec1_words :: "SyscallInfo \<Rightarrow> u64 \<Rightarrow> u64 list" where
  "rec1_words s da = [si_pc s, si_num s, si_params s ! 0, si_params s ! 1, si_params s ! 2, hasret_bit s,
     si_ret s, si_bufaddr s, if length (si_data s) = 0 then invalid_addr else da, of_nat (length (si_data s))]"

definition data_before :: "SyscallInfo list \<Rightarrow> nat \<Rightarrow> nat" where
  "data_before infos i = sum_list (map (\<lambda>s. length (si_data s)) (take i infos))"

lemma write_record1_all:
  assumes "\<forall>s \<in> set infos. 3 \<le> length (si_params s)"
  shows "res_fold write_record1 infos (out, da) =
    Inr (out @ concat (map (\<lambda>i. concat (map le64 (rec1_words (infos ! i) (da + of_nat (data_before infos i))))) [0..<length infos]),
         da + of_nat (data_before infos (length infos)))"
  using assms
proof (induction infos rule: rev_induct)
  case (snoc s infos)
  have m: "map (\<lambda>i. concat (map le64 (rec1_words ((infos @ [s]) ! i) (da + of_nat (data_before (infos @ [s]) i))))) [0..<length infos] =
      map (\<lambda>i. concat (map le64 (rec1_words (infos ! i) (da + of_nat (data_before infos i))))) [0..<length infos]"
    by (rule map_cong) (simp_all add: nth_append data_before_def)
  have d: "data_before (infos @ [s]) (length infos) = data_before infos (length infos)"
    "data_before (infos @ [s]) (Suc (length infos)) = data_before infos (length infos) + length (si_data s)"
    by (simp_all add: data_before_def)
  have step: "write_record1 s (x, a) = Inr (x @ concat (map le64 (rec1_words s a)), a + of_nat (length (si_data s)))" for x a
    using snoc.prems by (simp add: write_record1_def sys_record1_def rec1_words_def)
  have IH: "res_fold write_record1 infos (out, da) =
    Inr (out @ concat (map (\<lambda>i. concat (map le64 (rec1_words (infos ! i) (da + of_nat (data_before infos i))))) [0..<length infos]),
         da + of_nat (data_before infos (length infos)))" using snoc by simp
  have up: "[0..<length (infos @ [s])] = [0..<length infos] @ [length infos]" by simp
  show ?case unfolding res_fold_append IH up map_append m by (simp add: step d add.assoc)
qed (simp add: data_before_def)

lemma nth_concat_le64: "k < length ws \<Longrightarrow> take 8 (drop (8 * k) (concat (map le64 ws))) = le64 (ws ! k)"
  using nth_block [of ws le64 8 k "[]"] by simp

lemma old_of_bytes_words: "old_of_bytes (concat (map le64 (rec1_words s da))) = old_of s da"
proof -
  have w: "un64 (take 8 (drop (8 * k) (concat (map le64 (rec1_words s da))))) = rec1_words s da ! k" if "k < 10" for k
    using nth_concat_le64 [of k "rec1_words s da"] that by (simp add: rec1_words_def)
  show ?thesis
    unfolding old_of_bytes_def Let_def by (simp only: w) (simp add: rec1_words_def old_of_def numeral_eq_Suc)
qed

lemma concat_part:
  assumes "i < length xss"
  shows "take (length (xss ! i)) (drop (sum_list (map length (take i xss))) (concat xss)) = xss ! i"
    "sum_list (map length (take i xss)) + length (xss ! i) \<le> length (concat xss)"
proof -
  have xss: "xss = take i xss @ xss ! i # drop (Suc i) xss" using assms by (rule id_take_nth_drop)
  have c: "concat xss = concat (take i xss) @ xss ! i @ concat (drop (Suc i) xss)" by (subst xss) simp
  have l: "length (concat (take i xss)) = sum_list (map length (take i xss))" by (simp add: length_concat)
  show "take (length (xss ! i)) (drop (sum_list (map length (take i xss))) (concat xss)) = xss ! i"
    unfolding c using l by simp
  show "sum_list (map length (take i xss)) + length (xss ! i) \<le> length (concat xss)" unfolding c using l by simp
qed

theorem saveSysInfo1_holds:
  assumes ps: "\<forall>s \<in> set infos. 3 \<le> length (si_params s)" and len: "8 + 80 * length infos + data_before infos (length infos) < 2 ^ 64"
  shows "\<exists>old infos'. saveSysInfo1 infos = Inr (old, infos') \<and> take 8 old = le64 (of_nat (length infos)) \<and> 8 \<le> length old \<and>
    length old = 8 + 80 * length infos + data_before infos (length infos) \<and> (\<forall>zs. holds_calls (buf_of (old @ zs)) infos)"
proof -
  let ?n = "length infos" and ?D = "8 + 80 * length infos"
  define recs where "recs = map (\<lambda>i. concat (map le64 (rec1_words (infos ! i) (of_nat (10 * 8 * ?n + 8) + of_nat (data_before infos i))))) [0..<?n]"
  define old where "old = le64 (of_nat ?n) @ concat recs @ concat (map si_data infos)"
  have run: "saveSysInfo1 infos = Inr (old, map (\<lambda>s. s\<lparr>si_data := []\<rparr>) infos)"
    unfolding saveSysInfo1_def write_record1_all [OF ps] by (simp add: old_def recs_def)
  have lrec: "\<And>x. x \<in> set recs \<Longrightarrow> length (id x) = 80"
    by (auto simp: recs_def length_concat_le64 rec1_words_def)
  have lR: "length (concat recs) = 80 * ?n" using length_blocks [of recs id 80] lrec by (simp add: recs_def)
  have lD: "length (concat (map si_data infos)) = data_before infos ?n" by (simp add: data_before_def length_concat comp_def)
  have at: "call_at (buf_of (old @ zs)) i (infos ! i)" if i: "i < ?n" for i zs
  proof -
    let ?s = "infos ! i" and ?da = "of_nat (?D + data_before infos i) :: u64"
    have part: "take (length (si_data ?s)) (drop (data_before infos i) (concat (map si_data infos))) = si_data ?s"
      "data_before infos i + length (si_data ?s) \<le> data_before infos ?n"
      using concat_part [of i "map si_data infos"] i by (simp_all add: data_before_def length_concat comp_def take_map)
    have "take 80 (drop (80 * i) (concat recs @ concat (map si_data infos))) = recs ! i"
      using nth_block [of recs id 80 i "concat (map si_data infos)"] lrec i by (simp add: recs_def)
    then have "take 80 (drop (8 + 80 * i) old) = recs ! i" by (simp add: old_def)
    then have "old_info (buf_of (old @ zs)) i = Inr (old_of_bytes (recs ! i))"
      using peek_buf_of_app [of "8 + 80 * i" 80 old zs] i lR by (simp add: old_info_def old_def)
    also have "old_of_bytes (recs ! i) = old_of ?s ?da"
      using i old_of_bytes_words [of ?s ?da] by (simp add: recs_def add.commute add.left_commute)
    finally have info: "old_info (buf_of (old @ zs)) i = Inr (old_of ?s ?da)" .
    have u: "unat ?da = ?D + data_before infos i" using part(2) len by (intro unat_of_nat_u64) linarith
    have "peek (buf_of (old @ zs)) (unat ?da) (length (si_data ?s)) = Inr (si_data ?s)"
    proof -
      have "drop (?D + data_before infos i) old = drop (data_before infos i) (concat (map si_data infos))"
        using lR by (simp add: old_def)
      then show ?thesis unfolding u
        using peek_buf_of_app [of "?D + data_before infos i" "length (si_data ?s)" old zs] part lR lD by (simp add: old_def)
    qed
    moreover have "si_params ?s \<noteq> []" using ps i nth_mem by fastforce
    moreover have "length (si_data ?s) < 2 ^ 64" using part(2) len by linarith
    ultimately show ?thesis using info unfolding call_at_def by blast
  qed
  moreover have "take 8 old = le64 (of_nat ?n)" "8 \<le> length old" "length old = ?D + data_before infos ?n" using lR lD by (simp_all add: old_def)
  ultimately show ?thesis using run by (auto simp: holds_calls_def)
qed

section \<open>Rewriting a whole checkpoint\<close>

text \<open>A file in the older form has the sections of \<open>saveCkptInfo\<close>, plain first loads and ten words per call.\<close>

lemma read_ckptsyscall_old_rest:
  assumes "rest p = old" and "old \<noteq> []"
    and "process (buf_of (old @ replicate (4096 - length old mod 4096) 0)) (un64 (take 8 old)) = Inr sec" and "8 \<le> length old"
  shows "read_ckptsyscall_old (p, out) = Inr (out @ sec)"
proof -
  let ?n = "length old"
  have n: "pos (fseek_end p) - pos p = ?n" using assms(1) by (auto simp: rest_def fseek_end_def)
  have f: "fst (fread ?n (fseek_set (pos p) (fseek_end p))) = old"
    using assms(1) by (simp add: fread_def rest_def fseek_set_def fseek_end_def Let_def)
  have "peek (buf_of (old @ replicate (4096 - ?n mod 4096) 0)) 0 8 = Inr (take 8 old)"
    using peek_buf_of_app [of 0 8 old] assms(4) by simp
  then show ?thesis using assms(3) by (simp add: read_ckptsyscall_old_def Let_def n f)
qed

theorem rewrite_file:
  assumes sys: "\<forall>s \<in> set (ck_sysinfos c). 3 \<le> length (si_params s)"
      "8 + 80 * length (ck_sysinfos c) + data_before (ck_sysinfos c) (length (ck_sysinfos c)) < 2 ^ 64"
    and regs: "length (ck_intregs c) = 32" "length (ck_fpregs c) = 32"
    and loads: "\<forall>f \<in> set (ck_firstloads c). length (fl_data f) = 8"
    and small: "length (ck_textrange c) < 2 ^ 64" "length (ck_memrange c) < 2 ^ 64" "length (ck_firstloads c) < 2 ^ 64"
  shows "\<exists>old infos1 sec infos2. saveSysInfo1 (ck_sysinfos c) = Inr (old, infos1) \<and> saveSysInfo (ck_sysinfos c) = Inr (sec, infos2) \<and>
    rewrite_ckptinfo (Some (ckpt_head rs c @ saveFLoads (ck_firstloads c) @ old)) = Inr (ckpt_head rs c @ saveFLoads (ck_firstloads c) @ sec)"
proof -
  let ?infos = "ck_sysinfos c"
  obtain old infos1 where o: "saveSysInfo1 ?infos = Inr (old, infos1)" "take 8 old = le64 (of_nat (length ?infos))" "8 \<le> length old"
    "\<And>zs. holds_calls (buf_of (old @ zs)) ?infos" using saveSysInfo1_holds [OF sys] by blast
  have ps: "\<forall>t \<in> set ?infos. si_params t \<noteq> []" using sys(1) by fastforce
  have n: "length ?infos < 2 ^ 64" using sys(2) by linarith
  obtain sec infos2 where s: "process (buf_of (old @ replicate (4096 - length old mod 4096) 0)) (of_nat (length ?infos)) = Inr sec"
    "saveSysInfo ?infos = Inr (sec, infos2)" using process_eq [OF o(4) ps n] by blast
  define T M L where "T = map range_bytes (ck_textrange c)" and "M = map range_bytes (ck_memrange c)" and "L = map fl_bytes (ck_firstloads c)"
  have l16: "\<forall>bs \<in> set T. length bs = 16" "\<forall>bs \<in> set M. length bs = 16" "\<forall>bs \<in> set L. length bs = 16"
    using loads by (auto simp: T_def M_def L_def range_bytes_def fl_bytes_def)
  have ns: "length T < 2 ^ 64" "length M < 2 ^ 64" "length L < 2 ^ 64" using small by (simp_all add: T_def M_def L_def)
  obtain w0 w1 w2 w3 where w: "slice_words rs c = [w0, w1, w2, w3, ck_npc c]" by (simp add: slice_words_def)
  define S where "S = concat (map le64 [w0, w1, w2, w3])"
  define R where "R = concat (map le64 (ck_intregs c)) @ concat (map le64 (ck_fpregs c))"
  let ?tab = "\<lambda>bss. le64 (of_nat (length bss)) @ concat bss"
  have head: "ckpt_head rs c @ saveFLoads (ck_firstloads c) @ ys = ?tab T @ S @ le64 (ck_npc c) @ R @ ?tab M @ ?tab L @ ys" for ys
    by (simp add: ckpt_head_def saveFLoads_def ranges_bytes_def T_def M_def L_def S_def R_def w)
  have lens: "length S = 32" "length R = 512" using regs by (simp_all add: S_def R_def length_concat_le64)
  have r0: "rest (fopen_rb (ckpt_head rs c @ saveFLoads (ck_firstloads c) @ old)) =
      le64 (of_nat (length T)) @ concat T @ S @ le64 (ck_npc c) @ R @ ?tab M @ ?tab L @ old" by (simp add: head)
  obtain p1 where p1: "copy_table 0 (fopen_rb (ckpt_head rs c @ saveFLoads (ck_firstloads c) @ old), []) = Inr (of_nat (length T), p1, ?tab T)"
    "rest p1 = S @ le64 (ck_npc c) @ R @ ?tab M @ ?tab L @ old" using copy_table_app [OF r0 l16(1) ns(1), of 0 "[]"] by auto
  obtain p2 where p2: "copy_block 32 (p1, ?tab T) = Inr (p2, ?tab T @ S)" "rest p2 = le64 (ck_npc c) @ R @ ?tab M @ ?tab L @ old"
    using copy_block_app [OF p1(2) lens(1), of "?tab T"] by auto
  obtain p3 where p3: "copy_word (p2, ?tab T @ S) = (p3, ?tab T @ S @ le64 (ck_npc c))" "rest p3 = R @ ?tab M @ ?tab L @ old"
    using copy_word_app [OF p2(2), of "?tab T @ S"] by auto
  obtain p4 where p4: "copy_block 512 (p3, ?tab T @ S @ le64 (ck_npc c)) = Inr (p4, ?tab T @ S @ le64 (ck_npc c) @ R)"
    "rest p4 = le64 (of_nat (length M)) @ concat M @ ?tab L @ old"
    using copy_block_app [OF p3(2) lens(2), of "?tab T @ S @ le64 (ck_npc c)"] by auto
  obtain p5 where p5: "copy_table (of_nat (length T)) (p4, ?tab T @ S @ le64 (ck_npc c) @ R) =
      Inr (of_nat (length M), p5, ?tab T @ S @ le64 (ck_npc c) @ R @ ?tab M)" "rest p5 = le64 (of_nat (length L)) @ concat L @ old"
    using copy_table_app [OF p4(2) l16(2) ns(2), of "of_nat (length T)" "?tab T @ S @ le64 (ck_npc c) @ R"] by auto
  obtain p6 where p6: "copy_table (of_nat (length M)) (p5, ?tab T @ S @ le64 (ck_npc c) @ R @ ?tab M) =
      Inr (of_nat (length L), p6, ?tab T @ S @ le64 (ck_npc c) @ R @ ?tab M @ ?tab L)" "rest p6 = old"
    using copy_table_app [OF p5(2) l16(3) ns(3), of "of_nat (length M)" "?tab T @ S @ le64 (ck_npc c) @ R @ ?tab M"] by auto
  have "old \<noteq> []" using o(3) by auto
  then have "read_ckptsyscall_old (p6, ?tab T @ S @ le64 (ck_npc c) @ R @ ?tab M @ ?tab L) =
      Inr ((?tab T @ S @ le64 (ck_npc c) @ R @ ?tab M @ ?tab L) @ sec)"
    using read_ckptsyscall_old_rest [OF p6(2)] s(1) o(2,3) by simp
  then have "rewrite_ckptinfo (Some (ckpt_head rs c @ saveFLoads (ck_firstloads c) @ old)) = Inr (ckpt_head rs c @ saveFLoads (ck_firstloads c) @ sec)"
    unfolding head rewrite_ckptinfo_def option.case using p1(1) p2(1) p3(1) p4(1) p5(1) p6(1) by (simp add: head)
  then show ?thesis using o(1) s(2) by blast
qed

end
