(* ===== verification/CompCkpt.thy ===== *)
theory CompCkpt
  imports CkptCopy FLoadsRoundTrip Settings
begin

unbundle bit_operations_syntax

text \<open>
  \<open>ckpt_helper/compckpt\<close>: the program that rewrites the first loads of a checkpoint in another
  form. \<open>read_firstload.cpp\<close> reads the three forms into a list, \<open>compress.cpp\<close> writes the list with
  the chosen form, \<open>ckpt_load.cpp\<close> copies the other sections. The lemmas relate the reader to
  the loader's recovery (reading and storing is recovering), the writer to the recorder's, and the
  rewritten file to the recorder's file.
\<close>

section \<open>Reading without compression\<close>

text \<open>\<open>linfo\<close> is one variable for the whole loop; \<open>LoadInfo\<close> is an address and a word.\<close>

definition info_of_bytes :: "bytes \<Rightarrow> FirstLoadInfo" where
  "info_of_bytes bs = \<lparr>fl_addr = un64 (take 8 bs), fl_data = take 8 (drop 8 bs)\<rparr>"

definition read_linfo :: "bytes \<times> rfile \<times> FirstLoadInfo list \<Rightarrow> (bytes \<times> rfile \<times> FirstLoadInfo list) res" where
  "read_linfo st =
     (case st of (linfo, p, infos) \<Rightarrow>
      res_bind (fread_var 16 linfo p) (\<lambda>(bs, p'). Inr (bs, p', infos @ [info_of_bytes bs])))"

definition read_nocomp :: "rfile \<Rightarrow> FirstLoadInfo list \<Rightarrow> (rfile \<times> FirstLoadInfo list) res" where
  "read_nocomp p infos =
     (case fread64 0 p of (loadnum, p1) \<Rightarrow>
      res_bind (res_fold (\<lambda>_. read_linfo) [0..<unat loadnum] ([], p1, infos)) (\<lambda>(_, p2, infos'). Inr (p2, infos')))"

section \<open>Reading a data map\<close>

text \<open>\<open>info\<close> is one variable too: a short read keeps bytes of the word before.\<close>

fun rd_datamap_bits :: "nat \<Rightarrow> nat \<Rightarrow> u64 \<Rightarrow> u8 \<Rightarrow> bytes \<times> rfile \<times> FirstLoadInfo list \<Rightarrow>
    (bytes \<times> rfile \<times> FirstLoadInfo list) res" where
  "rd_datamap_bits 0 m taddr c st = Inr st"
| "rd_datamap_bits (Suc n) m taddr c (var, p, infos) =
     res_bind (if c mod 2 = 1
               then res_bind (fread_var 8 var p) (\<lambda>(bs, p').
                      Inr (bs, p', infos @ [\<lparr>fl_addr = taddr + of_nat (m * 8), fl_data = bs\<rparr>]))
               else Inr (var, p, infos))
       (rd_datamap_bits n (Suc m) taddr (drop_bit 1 c))"

fun rd_datamap_bytes :: "nat \<Rightarrow> u64 \<Rightarrow> bytes \<Rightarrow> bytes \<times> rfile \<times> FirstLoadInfo list \<Rightarrow>
    (bytes \<times> rfile \<times> FirstLoadInfo list) res" where
  "rd_datamap_bytes i addr [] st = Inr st"
| "rd_datamap_bytes i addr (c # cs) st =
     res_bind (rd_datamap_bits 8 0 (addr + of_nat (i * 8 * 8)) c st) (rd_datamap_bytes (Suc i) addr cs)"

lemma fread_var_advances: "fread_var n var p = Inr (bs, p') \<Longrightarrow> advances p p'"
  by (auto simp: fread_var_def split: prod.splits if_splits dest: advances_fread)

lemma rd_datamap_bits_advances:
  "rd_datamap_bits n m taddr c (var, p, infos) = Inr (var', p', infos') \<Longrightarrow> advances p p'"
proof (induction n arbitrary: m c var p infos)
  case (Suc n)
  show ?case
  proof (cases "c mod 2 = 1")
    case True
    then obtain bs p1 where r: "fread_var 8 var p = Inr (bs, p1)"
      "rd_datamap_bits n (Suc m) taddr (drop_bit 1 c) (bs, p1, infos @ [\<lparr>fl_addr = taddr + of_nat (m * 8), fl_data = bs\<rparr>]) = Inr (var', p', infos')"
      using Suc.prems by (auto simp: res_bind_eq_Inr)
    then show ?thesis using Suc.IH fread_var_advances advances_trans by blast
  next
    case False
    then show ?thesis using Suc by simp
  qed
qed simp

lemma rd_datamap_bytes_advances:
  "rd_datamap_bytes i addr cs (var, p, infos) = Inr (var', p', infos') \<Longrightarrow> advances p p'"
proof (induction cs arbitrary: i var p infos)
  case (Cons c cs)
  then obtain v1 p1 infos1 where
    "rd_datamap_bits 8 0 (addr + of_nat (i * 8 * 8)) c (var, p, infos) = Inr (v1, p1, infos1)"
    "rd_datamap_bytes (Suc i) addr cs (v1, p1, infos1) = Inr (var', p', infos')"
    by (auto simp: res_bind_eq_Inr)
  then show ?case using Cons.IH rd_datamap_bits_advances advances_trans by blast
qed simp

lemma rd_datamap_smaller:
  assumes "(addr, p1) = fread64 0 p" "addr \<noteq> 0" "(sz, p2) = fread64 v p1" "(cs, p3) = fread n p2"
    "rd_datamap_bytes i a bs (var, p3, infos) = Inr (var', p4, infos')"
  shows "length (content p4) - pos p4 < length (content p) - pos p"
  using fread64_nonzero [OF sym [OF assms(1)] assms(2)] rd_datamap_bytes_advances [OF assms(5)]
    advances_fread64 [OF sym [OF assms(3)]] advances_fread [OF sym [OF assms(4)]]
  by (auto intro: advances_trans)

function read_datamap :: "u64 \<Rightarrow> bytes \<Rightarrow> rfile \<Rightarrow> FirstLoadInfo list \<Rightarrow> (rfile \<times> FirstLoadInfo list) res" where
  "read_datamap sz0 var p infos =
     (case fread64 0 p of (addr, p1) \<Rightarrow>
      if addr = 0 then Inr (p1, infos)
      else case fread64 sz0 p1 of (sz, p2) \<Rightarrow>
           let mapsize = unat (sz div 64)
           in case fread mapsize p2 of (cs, p3) \<Rightarrow>
              if 1024 < mapsize then Inl OutOfBounds
              else res_bind (rd_datamap_bytes 0 addr (cs @ replicate (mapsize - length cs) 0) (var, p3, infos))
                     (\<lambda>(var', p4, infos'). read_datamap sz var' p4 infos'))"
  by pat_completeness auto
termination
  by (relation "measure (\<lambda>(sz, var, p, infos). length (content p) - pos p)")
    (auto intro!: rd_datamap_smaller)

declare read_datamap.simps [simp del]

section \<open>Reading compressed windows\<close>

type_synonym rd_unpack = "cbuf \<times> nat \<times> FirstLoadInfo list"

definition rd_unpack_bit :: "u64 \<Rightarrow> nat \<Rightarrow> nat \<Rightarrow> rd_unpack \<Rightarrow> rd_unpack res" where
  "rd_unpack_bit taddr ci m st =
     (case st of (raw, base, infos) \<Rightarrow>
      res_bind (peek1 raw ci) (\<lambda>c.
      res_bind (if c mod 2 = 1
                then res_bind (peek raw base 8) (\<lambda>w.
                       Inr (base + 8, infos @ [\<lparr>fl_addr = taddr + of_nat (m * 8), fl_data = w\<rparr>]))
                else Inr (base, infos)) (\<lambda>(base', infos').
      res_bind (poke raw ci [drop_bit 1 c]) (\<lambda>raw'. Inr (raw', base', infos')))))"

definition rd_unpack_byte :: "u64 \<Rightarrow> nat \<Rightarrow> nat \<Rightarrow> rd_unpack \<Rightarrow> rd_unpack res" where
  "rd_unpack_byte addr cmap i st =
     res_fold (rd_unpack_bit (addr + of_nat (i * 8 * 8)) (cmap + i)) [0..<8] st"

fun rd_unpack_infos :: "nat \<Rightarrow> rd_unpack \<Rightarrow> rd_unpack res" where
  "rd_unpack_infos 0 st = Inr st"
| "rd_unpack_infos (Suc n) (raw, base, infos) =
     res_bind (peek raw base 8) (\<lambda>a.
       let addr = un64 a
       in if addr = 0 then Inr (raw, base, infos)
          else res_bind (peek raw (base + 8) 8) (\<lambda>s.
               let mapsize = unat (un64 s :: u64) div 64; cmap = base + 16
               in res_bind (res_fold (rd_unpack_byte addr cmap) [0..<mapsize] (raw, cmap + mapsize, infos))
                    (rd_unpack_infos n)))"

function read_blocks :: "rfile \<Rightarrow> cbuf \<Rightarrow> cbuf \<Rightarrow> FirstLoadInfo list \<Rightarrow> (rfile \<times> FirstLoadInfo list) res" where
  "read_blocks p rawdata cdata infos =
     (case fread64 0 p of (compsize, p1) \<Rightarrow>
      if compsize = 0 then Inr (p1, infos)
      else case fread64 0 p1 of (num, p2) \<Rightarrow>
           case fread (unat compsize) p2 of (bs, p3) \<Rightarrow>
           if 2 ^ 31 \<le> unat compsize then Inl OutOfBounds
           else res_bind (poke cdata 0 bs) (\<lambda>cdata'.
                res_bind (fastlz_decompress cdata' (unat compsize) rawdata (MaxCompressSize + ExtraDataSize))
                  (\<lambda>(rawsize, raw').
                res_bind (rd_unpack_infos (unat num) (raw', 0, infos)) (\<lambda>(raw'', base, infos').
                  read_blocks p3 raw'' cdata' infos'))))"
  by pat_completeness auto
termination
  by (relation "measure (\<lambda>(p, raw, comp, infos). length (content p) - pos p)")
    (auto intro: block_smaller)

declare read_blocks.simps [simp del]

definition read_fastlz :: "rfile \<Rightarrow> FirstLoadInfo list \<Rightarrow> (rfile \<times> FirstLoadInfo list) res" where
  "read_fastlz p infos =
     read_blocks p (zero_buf (MaxCompressSize + ExtraDataSize)) (zero_buf (MaxCompressSize + ExtraDataSize)) infos"

definition read_FirstLoad :: "rfile \<Rightarrow> FirstLoadInfo list \<Rightarrow> (rfile \<times> FirstLoadInfo list) res" where
  "read_FirstLoad p infos =
     (case fread64 0 p of (compressTag, p1) \<Rightarrow>
        if compressTag - 0x123456 = 1 then read_datamap 0 [] p1 infos
        else if compressTag - 0x123456 = 2 \<or> compressTag - 0x123456 = 3 then read_fastlz p1 infos
        else read_nocomp (fseek_set (pos p1 - 8) p1) infos)"

section \<open>Writing with a chosen form\<close>

text \<open>
  \<open>compress_write\<close> of the helper: choice 1 writes the windows as they are, the others compress them
  with level \<open>compress_choice - 1\<close>. Its static arrays are those of the recorder.
\<close>

definition compress_write_choice :: "int \<Rightarrow> u64 list \<Rightarrow> bool \<Rightarrow> compstate \<Rightarrow> (compstate \<times> bytes) res" where
  "compress_write_choice choice data isend s0 =
     res_bind (res_fold append_word data s0) (\<lambda>s1.
       let s = s1\<lparr>infonum := infonum s1 + 1\<rparr>
       in if tdsize s < MaxCompressSize \<and> \<not> isend then Inr (s, [])
          else if choice = 1
          then res_bind (peek (tempdata s) 0 (tdsize s)) (\<lambda>out. Inr (s\<lparr>tdsize := 0, infonum := 0\<rparr>, out))
          else res_bind (fastlz_compress_level (nat (choice - 1)) (tempdata s) (tdsize s) (compdata s)) (\<lambda>(compsize, cd).
               res_bind (peek cd 0 compsize) (\<lambda>out.
                 Inr (s\<lparr>compdata := cd, tdsize := 0, infonum := 0\<rparr>,
                      le64 (of_nat compsize) @ le64 (of_nat (infonum s)) @ out))))"

text \<open>
  The outer loop of \<open>compress_FirstLoad\<close>. The body that fills \<open>map1\<close>, \<open>map2\<close> and \<open>pagedata\<close> and collects
  \<open>sdata\<close> is the recorder's (\<open>window_data\<close>); its local arrays are cleared as far as they are read.
\<close>

function comp_windows :: "int \<Rightarrow> FirstLoadInfo list \<Rightarrow> compstate \<Rightarrow> bytes \<Rightarrow> (compstate \<times> bytes) res" where
  "comp_windows choice [] s out = Inr (s, out)"
| "comp_windows choice (l # ls) s out =
     (let endaddr = fl_addr l + of_nat MaxCoverSize;
          ws = takeWhile (in_window endaddr) ls;
          next = dropWhile (in_window endaddr) ls
      in res_bind (window_data (fl_addr l) (l # ws)) (\<lambda>sdata.
         res_bind (compress_write_choice choice sdata (next = []) s) (\<lambda>(s', bs). comp_windows choice next s' (out @ bs))))"
  by pat_completeness auto
termination
  by (relation "measure (\<lambda>(_, ls, _). length ls)") (auto simp: le_imp_less_Suc length_dropWhile_le)

definition compress_FirstLoad :: "int \<Rightarrow> FirstLoadInfo list \<Rightarrow> compstate \<Rightarrow> (compstate \<times> bytes) res" where
  "compress_FirstLoad choice linfos s =
     res_bind (comp_windows choice linfos s (le64 (0x123456 + of_int choice))) (\<lambda>(s', out). Inr (s', out @ le64 0))"

section \<open>The program\<close>

text \<open>The rest of the file is copied through a mapping.\<close>

definition copy_syscalls :: "rfile \<times> bytes \<Rightarrow> bytes" where
  "copy_syscalls st =
     (case st of (fp, out) \<Rightarrow>
      let nowplace = pos fp;
          filesize = pos (fseek_end fp) - nowplace;
          bs = fst (fread filesize (fseek_set nowplace (fseek_end fp)))
      in out @ bs @ replicate (filesize - length bs) 0)"

definition copy_head :: "bytes \<Rightarrow> (rfile \<times> bytes) res" where
  "copy_head ckptfile =
     res_bind (copy_table 0 (fopen_rb ckptfile, [])) (\<lambda>(_, st1).
     res_bind (copy_block 32 st1) (\<lambda>st2.
     res_bind (copy_block 256 (copy_word st2)) (\<lambda>st3.
     res_bind (copy_block 256 st3) (\<lambda>st4.
     res_bind (copy_table 0 st4) (\<lambda>(_, st5). Inr st5)))))"

definition comp_ckptinfo :: "int \<Rightarrow> bytes option \<Rightarrow> bytes res" where
  "comp_ckptinfo choice opened =
     (case opened of None \<Rightarrow> Inl (ExitProg 1) | Some ckptfile \<Rightarrow>
      res_bind (copy_head ckptfile) (\<lambda>(p, out).
      res_bind (read_FirstLoad p []) (\<lambda>(p', linfos).
      res_bind (if choice = 0 then Inr (saveFLoads linfos)
                else res_bind (compress_FirstLoad choice linfos compstate_init) (\<lambda>(_, fl). Inr fl)) (\<lambda>fl.
        Inr (copy_syscalls (p', out @ fl))))))"

text \<open>
  \<open>main\<close>: the form is 2 unless three arguments are given and the first one is a number. The result is the
  file written and its contents.
\<close>

definition comp_choice :: "string list \<Rightarrow> int" where
  "comp_choice argv =
     (if length argv = 4
      then (case scan_num 10 (argv ! 1) of None \<Rightarrow> 2 | Some (v, _) \<Rightarrow> sint (ucast v :: u32))
      else 2)"

definition comp_main :: "(string \<Rightarrow> bytes option) \<Rightarrow> string list \<Rightarrow> (string \<times> bytes) res" where
  "comp_main fs argv =
     (if length argv < 3 then Inl (ExitProg 0)
      else let k = (if length argv = 4 then 2 else 1)
           in res_bind (comp_ckptinfo (comp_choice argv) (fs (argv ! k))) (\<lambda>out. Inr (argv ! (k + 1), out)))"

section \<open>Reading and storing is recovering\<close>

text \<open>The list of the reader, stored into a memory.\<close>

definition stored :: "memory \<Rightarrow> rd_unpack \<Rightarrow> unpack" where
  "stored mem st = (case st of (raw, base, infos) \<Rightarrow> (raw, base, fold fl_write infos mem))"

lemma unpack_bit_stored: "unpack_bit taddr ci m (stored mem st) = res_image (stored mem) (rd_unpack_bit taddr ci m st)"
proof -
  obtain raw base infos where st: "st = (raw, base, infos)" by (cases st)
  show ?thesis
    by (cases "peek1 raw ci"; cases "peek raw base 8"; cases "poke raw ci [drop_bit 1 (projr (peek1 raw ci))]")
      (auto simp: st stored_def unpack_bit_def rd_unpack_bit_def fl_write_def)
qed

lemma unpack_byte_stored: "unpack_byte addr cmap i (stored mem st) = res_image (stored mem) (rd_unpack_byte addr cmap i st)"
  unfolding unpack_byte_def rd_unpack_byte_def by (rule res_fold_sim) (rule unpack_bit_stored)

lemma unpack_infos_stored: "unpack_infos n (stored mem st) = res_image (stored mem) (rd_unpack_infos n st)"
proof (induction n arbitrary: st)
  case (Suc n)
  obtain raw base infos where st: "st = (raw, base, infos)" by (cases st)
  have win: "res_fold (unpack_byte addr cmap) ks (raw, b, fold fl_write infos mem) =
      res_image (stored mem) (res_fold (rd_unpack_byte addr cmap) ks (raw, b, infos))" for addr cmap ks b
    using res_fold_sim [of ks "unpack_byte addr cmap" "stored mem" "rd_unpack_byte addr cmap" "(raw, b, infos)"] unpack_byte_stored
    by (simp add: stored_def)
  show ?case
    by (cases "peek raw base 8"; cases "peek raw (base + 8) 8")
      (simp_all add: st stored_def Let_def win res_bind_image res_image_bind Suc.IH [unfolded stored_def])
qed simp

lemma recovery_blocks_stored:
  "recovery_blocks p raw cd (fold fl_write infos mem) =
     res_image (\<lambda>(p', infos'). (p', fold fl_write infos' mem)) (read_blocks p raw cd infos)"
proof (induction p raw cd infos rule: read_blocks.induct)
  case (1 p raw cd infos)
  obtain c p1 where p1: "fread64 0 p = (c, p1)" by (cases "fread64 0 p")
  obtain num p2 where p2: "fread64 0 p1 = (num, p2)" by (cases "fread64 0 p1")
  obtain bs p3 where p3: "fread (unat c) p2 = (bs, p3)" by (cases "fread (unat c) p2")
  show ?case
  proof (cases "c = 0 \<or> 2 ^ 31 \<le> unat c")
    case True
    then show ?thesis by (auto simp: recovery_blocks.simps [of p] read_blocks.simps [of p] p1 p2 p3)
  next
    case False
    then have c: "c \<noteq> 0" "\<not> 2 ^ 31 \<le> unat c" by simp_all
    show ?thesis
    proof (cases "poke cd 0 bs")
      case (Inl e)
      then show ?thesis using c by (simp add: recovery_blocks.simps [of p] read_blocks.simps [of p] p1 p2 p3)
    next
      case (Inr cd')
      show ?thesis
      proof (cases "fastlz_decompress cd' (unat c) raw (MaxCompressSize + ExtraDataSize)")
        case (Inl e)
        then show ?thesis using c Inr by (simp add: recovery_blocks.simps [of p] read_blocks.simps [of p] p1 p2 p3)
      next
        case dec: (Inr r)
        obtain n raw' where r: "r = (n, raw')" by (cases r)
        have u: "unpack_infos (unat num) (raw', 0, fold fl_write infos mem) =
            res_image (stored mem) (rd_unpack_infos (unat num) (raw', 0, infos))"
          using unpack_infos_stored [of "unat num" mem "(raw', 0, infos)"] by (simp add: stored_def)
        show ?thesis
        proof (cases "rd_unpack_infos (unat num) (raw', 0, infos)")
          case (Inl e)
          then show ?thesis using c Inr dec u by (simp add: recovery_blocks.simps [of p] read_blocks.simps [of p] p1 p2 p3 r)
        next
          case rd: (Inr st)
          obtain raw'' b infos' where st: "st = (raw'', b, infos')" by (cases st)
          have "recovery_blocks p3 raw'' cd' (fold fl_write infos' mem) =
              res_image (\<lambda>(p', infos'). (p', fold fl_write infos' mem)) (read_blocks p3 raw'' cd' infos')"
            using "1.IH" [OF sym [OF p1] c(1) sym [OF p2] sym [OF p3] c(2) Inr dec sym [OF r] rd sym [OF st] refl] .
          then show ?thesis using c Inr dec rd u
            by (simp add: recovery_blocks.simps [of p] read_blocks.simps [of p] p1 p2 p3 r st stored_def)
        qed
      qed
    qed
  qed
qed

lemma recovery_fastlz_stored:
  "recovery_fastlz p mem = res_image (\<lambda>(p', infos). (p', fold fl_write infos mem)) (read_fastlz p [])"
  using recovery_blocks_stored [of p _ _ "[]" mem] by (simp add: recovery_fastlz_def read_fastlz_def)

section \<open>Form 2 is the recorder's\<close>

lemma compress_write_choice_level:
  "c = 2 \<or> c = 3 \<Longrightarrow> compress_write_choice c data isend s = compress_write data (nat (c - 1)) isend s"
  by (cases "res_fold append_word data s") (auto simp: compress_write_choice_def compress_write_def Let_def)

lemma compress_write_choice_2: "compress_write_choice 2 data isend s = compress_write data 1 isend s"
  by (simp add: compress_write_choice_level)

lemma comp_windows_2: "comp_windows 2 ls s out = save_windows ls s out"
proof (induction ls s out rule: save_windows.induct)
  case (2 l ls s out)
  show ?case
    unfolding comp_windows.simps save_windows.simps Let_def compress_write_choice_2
    by (intro res_bind_cong refl) (use 2 in \<open>auto simp: Let_def\<close>)
qed simp

theorem compress_FirstLoad_2: "compress_FirstLoad 2 linfos s = saveFLoads_comp linfos s"
  by (simp add: compress_FirstLoad_def saveFLoads_comp_def compTag_def comp_windows_2)

section \<open>Copying a file\<close>

lemma copy_head_app:
  assumes regs: "length (ck_intregs c) = 32" "length (ck_fpregs c) = 32"
    and small: "length (ck_textrange c) < 2 ^ 64" "length (ck_memrange c) < 2 ^ 64"
  shows "\<exists>p. copy_head (ckpt_head rs c @ ys) = Inr (p, ckpt_head rs c) \<and> rest p = ys \<and> content p = ckpt_head rs c @ ys"
proof -
  define T M where "T = map range_bytes (ck_textrange c)" and "M = map range_bytes (ck_memrange c)"
  have l16: "\<forall>bs \<in> set T. length bs = 16" "\<forall>bs \<in> set M. length bs = 16" by (auto simp: T_def M_def range_bytes_def)
  have ns: "length T < 2 ^ 64" "length M < 2 ^ 64" using small by (simp_all add: T_def M_def)
  obtain w0 w1 w2 w3 where w: "slice_words rs c = [w0, w1, w2, w3, ck_npc c]" by (simp add: slice_words_def)
  define S where "S = concat (map le64 [w0, w1, w2, w3])"
  let ?I = "concat (map le64 (ck_intregs c))" and ?F = "concat (map le64 (ck_fpregs c))"
  let ?tab = "\<lambda>bss. le64 (of_nat (length bss)) @ concat bss"
  have head: "ckpt_head rs c @ zs = ?tab T @ S @ le64 (ck_npc c) @ ?I @ ?F @ ?tab M @ zs" for zs
    by (simp add: ckpt_head_def ranges_bytes_def T_def M_def S_def w)
  have lens: "length S = 32" "length ?I = 256" "length ?F = 256" using regs by (simp_all add: S_def length_concat_le64)
  have r0: "rest (fopen_rb (ckpt_head rs c @ ys)) = le64 (of_nat (length T)) @ concat T @ S @ le64 (ck_npc c) @ ?I @ ?F @ ?tab M @ ys"
    by (simp add: head)
  have c0: "content (fopen_rb (ckpt_head rs c @ ys)) = ckpt_head rs c @ ys" by (simp add: fopen_rb_def)
  obtain p1 where p1: "copy_table 0 (fopen_rb (ckpt_head rs c @ ys), []) = Inr (of_nat (length T), p1, ?tab T)"
    "rest p1 = S @ le64 (ck_npc c) @ ?I @ ?F @ ?tab M @ ys" "content p1 = ckpt_head rs c @ ys"
    using copy_table_app [OF r0 l16(1) ns(1), of 0 "[]"] c0 by auto
  obtain p2 where p2: "copy_block 32 (p1, ?tab T) = Inr (p2, ?tab T @ S)" "rest p2 = le64 (ck_npc c) @ ?I @ ?F @ ?tab M @ ys" "content p2 = content p1"
    using copy_block_app [OF p1(2) lens(1), of "?tab T"] by auto
  obtain p3 where p3: "copy_word (p2, ?tab T @ S) = (p3, ?tab T @ S @ le64 (ck_npc c))" "rest p3 = ?I @ ?F @ ?tab M @ ys" "content p3 = content p2"
    using copy_word_app [OF p2(2), of "?tab T @ S"] by auto
  obtain p4 where p4: "copy_block 256 (p3, ?tab T @ S @ le64 (ck_npc c)) = Inr (p4, ?tab T @ S @ le64 (ck_npc c) @ ?I)"
    "rest p4 = ?F @ ?tab M @ ys" "content p4 = content p3"
    using copy_block_app [OF p3(2) lens(2), of "?tab T @ S @ le64 (ck_npc c)"] by auto
  obtain p5 where p5: "copy_block 256 (p4, ?tab T @ S @ le64 (ck_npc c) @ ?I) = Inr (p5, ?tab T @ S @ le64 (ck_npc c) @ ?I @ ?F)"
    "rest p5 = le64 (of_nat (length M)) @ concat M @ ys" "content p5 = content p4"
    using copy_block_app [OF p4(2) lens(3), of "?tab T @ S @ le64 (ck_npc c) @ ?I"] by auto
  obtain p6 where p6: "copy_table 0 (p5, ?tab T @ S @ le64 (ck_npc c) @ ?I @ ?F) =
      Inr (of_nat (length M), p6, ?tab T @ S @ le64 (ck_npc c) @ ?I @ ?F @ ?tab M)" "rest p6 = ys" "content p6 = content p5"
    using copy_table_app [OF p5(2) l16(2) ns(2), of 0 "?tab T @ S @ le64 (ck_npc c) @ ?I @ ?F"] by auto
  have "copy_head (ckpt_head rs c @ ys) = Inr (p6, ckpt_head rs c)"
    using p1(1) p2(1) p3(1) p4(1) p5(1) p6(1) head [of "[]"] by (simp add: copy_head_def)
  then show ?thesis using p1(3) p2(3) p3(3) p4(3) p5(3) p6(2,3) by auto
qed

lemma copy_syscalls_rest: "copy_syscalls (p, out) = out @ rest p"
  by (auto simp: copy_syscalls_def Let_def fread_def rest_def fseek_set_def fseek_end_def)

lemma read_nocomp_plain:
  assumes "\<forall>f \<in> set fls. length (fl_data f) = 8" and "length fls < 2 ^ 64" and "rest p = saveFLoads fls @ ys"
  shows "\<exists>p'. read_nocomp p [] = Inr (p', fls) \<and> rest p' = ys \<and> content p' = content p"
proof -
  let ?n = "of_nat (length fls) :: u64"
  have r: "rest p = le64 ?n @ concat (map fl_bytes fls) @ ys" using assms(3) by (simp add: saveFLoads_def)
  obtain p1 where p1: "fread64 0 p = (?n, p1)" "rest p1 = concat (map fl_bytes fls) @ ys" "content p1 = content p"
    using fread64_app [OF r, of 0] by auto
  have "\<exists>var' p'. res_fold (\<lambda>_. read_linfo) ks (var, q, done) = Inr (var', p', done @ fls) \<and> rest p' = ys \<and> content p' = content q"
    if "length ks = length fls" "length var \<le> 16" "rest q = concat (map fl_bytes fls) @ ys" for ks :: "nat list" and var q "done"
    using assms(1) that
  proof (induction fls arbitrary: ks var q "done")
    case (Cons f fls)
    then obtain k ks' where ks: "ks = k # ks'" by (cases ks) auto
    have f: "length (fl_bytes f) = 16" "info_of_bytes (fl_bytes f) = f"
      using Cons.prems(1) by (simp_all add: fl_bytes_def info_of_bytes_def)
    have r: "rest q = fl_bytes f @ concat (map fl_bytes fls) @ ys" using Cons.prems by simp
    obtain q1 where q1: "fread 16 q = (fl_bytes f, q1)" "rest q1 = concat (map fl_bytes fls) @ ys" "content q1 = content q"
      using fread_app [OF r f(1)] by auto
    then have "read_linfo (var, q, done) = Inr (fl_bytes f, q1, done @ [f])"
      using f Cons.prems(3) by (simp add: read_linfo_def fread_var_def overlay_def)
    then show ?case using Cons.IH [of ks' "fl_bytes f" q1 "done @ [f]"] Cons.prems q1 f by (auto simp: ks)
  qed simp
  from this [of "[0..<length fls]" "[]" p1 "[]"] p1 assms(2) show ?thesis
    by (auto simp: read_nocomp_def unat_of_nat_u64)
qed

section \<open>Compressing a plain checkpoint\<close>

lemma plain_count:
  assumes "n < 0x123457"
  shows "(of_nat n :: u64) - 0x123456 \<noteq> 1" "(of_nat n :: u64) - 0x123456 \<noteq> 2" "(of_nat n :: u64) - 0x123456 \<noteq> 3"
proof -
  have "unat ((of_nat n :: u64) - 0x123456) \<noteq> 1 \<and> unat ((of_nat n :: u64) - 0x123456) \<noteq> 2 \<and> unat ((of_nat n :: u64) - 0x123456) \<noteq> 3"
    using assms unat_diff_of_nat [of "0x123456" "of_nat n"] by (auto simp: unat_of_nat_u64)
  then show "(of_nat n :: u64) - 0x123456 \<noteq> 1" "(of_nat n :: u64) - 0x123456 \<noteq> 2" "(of_nat n :: u64) - 0x123456 \<noteq> 3"
    by (auto simp: word_unat_eq_iff)
qed

lemma read_FirstLoad_plain:
  assumes "\<forall>f \<in> set fls. length (fl_data f) = 8" and "length fls < 0x123457" and "rest p = saveFLoads fls @ ys"
  shows "\<exists>p'. read_FirstLoad p [] = Inr (p', fls) \<and> rest p' = ys \<and> content p' = content p"
proof -
  have r: "rest p = le64 (of_nat (length fls)) @ concat (map fl_bytes fls) @ ys" using assms(3) by (simp add: saveFLoads_def)
  obtain p1 where p1: "fread64 0 p = (of_nat (length fls), p1)" "content p1 = content p" "pos p1 = pos p + 8"
    using fread64_app [OF r, of 0] by auto
  have "fseek_set (pos p1 - 8) p1 = p" using p1(2,3) by (simp add: fseek_set_def)
  then show ?thesis
    using read_nocomp_plain [OF assms(1) _ assms(3)] assms(2) plain_count [OF assms(2)] p1(1) by (simp add: read_FirstLoad_def)
qed

lemma savable_8: "savable fls \<Longrightarrow> \<forall>f \<in> set fls. length (fl_data f) = 8"
  by (simp add: savable_def spaced_def)

theorem comp_plain_file:
  assumes regs: "length (ck_intregs c) = 32" "length (ck_fpregs c) = 32"
    and small: "length (ck_textrange c) < 2 ^ 64" "length (ck_memrange c) < 2 ^ 64" "length (ck_firstloads c) < 0x123457"
    and loads: "\<forall>f \<in> set (ck_firstloads c). length (fl_data f) = 8"
    and img: "saveCkptInfo rs c compstate_init = Inr (img, c', s')" and sec: "saveSysInfo (ck_sysinfos c) = Inr (sec, infos)"
  shows "comp_ckptinfo 2 (Some (ckpt_head rs c @ saveFLoads (ck_firstloads c) @ sec)) = Inr img"
proof -
  obtain p where p: "copy_head (ckpt_head rs c @ saveFLoads (ck_firstloads c) @ sec) = Inr (p, ckpt_head rs c)"
    "rest p = saveFLoads (ck_firstloads c) @ sec"
    using copy_head_app [OF regs small(1,2), of rs "saveFLoads (ck_firstloads c) @ sec"] by auto
  obtain p' where p': "read_FirstLoad p [] = Inr (p', ck_firstloads c)" "rest p' = sec"
    using read_FirstLoad_plain [OF loads small(3) p(2)] by auto
  obtain fl where fl: "saveFLoads_comp (ck_firstloads c) compstate_init = Inr (s', fl)" "img = ckpt_head rs c @ fl @ sec"
    using img sec by (auto simp: saveCkptInfo_def res_bind_eq_Inr ckpt_head_def)
  show ?thesis
    using p(1) p' fl by (simp add: comp_ckptinfo_def compress_FirstLoad_2 copy_syscalls_rest)
qed

section \<open>Expanding a compressed checkpoint\<close>

definition words8 :: "FirstLoadInfo list \<Rightarrow> bool" where
  "words8 infos \<longleftrightarrow> (\<forall>f \<in> set infos. length (fl_data f) = 8)"

lemma rd_unpack_bit_words8:
  "rd_unpack_bit taddr ci m (raw, base, infos) = Inr (raw', base', infos') \<Longrightarrow> words8 infos \<Longrightarrow> words8 infos'"
  by (auto simp: rd_unpack_bit_def res_bind_eq_Inr peek_def words8_def even_iff_mod_2_eq_zero split: if_splits)

lemma rd_unpack_byte_words8:
  "rd_unpack_byte addr cmap i st = Inr st' \<Longrightarrow> words8 (snd (snd st)) \<Longrightarrow> words8 (snd (snd st'))"
  unfolding rd_unpack_byte_def
  by (erule res_fold_invariant [where P = "\<lambda>st. words8 (snd (snd st))"]) (auto dest: rd_unpack_bit_words8)

lemma rd_unpack_bytes_words8:
  "res_fold (rd_unpack_byte addr cmap) ks st = Inr st' \<Longrightarrow> words8 (snd (snd st)) \<Longrightarrow> words8 (snd (snd st'))"
  by (erule res_fold_invariant [where P = "\<lambda>st. words8 (snd (snd st))"]) (auto dest: rd_unpack_byte_words8)

lemma rd_unpack_infos_words8:
  "rd_unpack_infos n st = Inr st' \<Longrightarrow> words8 (snd (snd st)) \<Longrightarrow> words8 (snd (snd st'))"
proof (induction n arbitrary: st)
  case (Suc n)
  obtain raw base infos where st: "st = (raw, base, infos)" by (cases st)
  show ?case
    using Suc.prems Suc.IH rd_unpack_bytes_words8
    by (fastforce simp: st res_bind_eq_Inr Let_def split: if_splits)
qed simp

lemma read_blocks_words8:
  "read_blocks p raw cd infos = Inr (p', infos') \<Longrightarrow> words8 infos \<Longrightarrow> words8 infos'"
proof (induction p raw cd infos rule: read_blocks.induct)
  case (1 p raw cd infos)
  obtain c p1 where p1: "fread64 0 p = (c, p1)" by (cases "fread64 0 p")
  obtain num p2 where p2: "fread64 0 p1 = (num, p2)" by (cases "fread64 0 p1")
  obtain bs p3 where p3: "fread (unat c) p2 = (bs, p3)" by (cases "fread (unat c) p2")
  show ?case
  proof (cases "c = 0")
    case True
    then show ?thesis using "1.prems" by (simp add: read_blocks.simps [of p] p1)
  next
    case False
    with "1.prems"(1) obtain cd' n raw' raw'' b infos1 where s: "\<not> 2 ^ 31 \<le> unat c" "poke cd 0 bs = Inr cd'"
      "fastlz_decompress cd' (unat c) raw (MaxCompressSize + ExtraDataSize) = Inr (n, raw')"
      "rd_unpack_infos (unat num) (raw', 0, infos) = Inr (raw'', b, infos1)" "read_blocks p3 raw'' cd' infos1 = Inr (p', infos')"
      by (auto simp: read_blocks.simps [of p] p1 p2 p3 res_bind_eq_Inr split: if_splits)
    have "words8 infos1" using rd_unpack_infos_words8 [OF s(4)] "1.prems"(2) by simp
    then show ?thesis
      using "1.IH" [OF sym [OF p1] False sym [OF p2] sym [OF p3] s(1,2,3) refl s(4) refl refl s(5)] by simp
  qed
qed

theorem comp_expand_file:
  assumes regs: "length (ck_intregs c) = 32" "length (ck_fpregs c) = 32"
    and small: "length (ck_textrange c) < 2 ^ 64" "length (ck_memrange c) < 2 ^ 64"
    and fls: "savable fls" "blocks_fit fls" "pending s []" and fl: "saveFLoads_comp fls s = Inr (s', fl)"
  shows "\<exists>infos. comp_ckptinfo 0 (Some (ckpt_head rs c @ fl @ sec)) = Inr (ckpt_head rs c @ saveFLoads infos @ sec) \<and>
    (length infos < 0x123457 \<longrightarrow> (\<forall>p mem after. rest p = saveFLoads infos @ after \<and> pos p + 8 \<le> length (content p) \<longrightarrow>
      (\<exists>p' mem'. recovery_FirstLoad p mem = Inr (p', mem') \<and> recovered fls mem mem' \<and> rest p' = after)))"
proof -
  obtain s1 out where "saveFLoads_comp fls s = Inr (s1, out)"
    "\<forall>p mem after. rest p = out @ after \<longrightarrow>
       (\<exists>p' mem'. recovery_FirstLoad p mem = Inr (p', mem') \<and> recovered fls mem mem' \<and> rest p' = after \<and> content p' = content p)"
    using save_recover [OF fls(1,3,2)] by blast
  then have rec: "\<exists>p' mem'. recovery_FirstLoad p mem = Inr (p', mem') \<and> recovered fls mem mem' \<and> rest p' = after"
    if "rest p = fl @ after" for p mem after using that fl by fastforce
  obtain bs where bs: "fl = le64 compTag @ concat (map block_bytes bs) @ le64 0"
    using saveFLoads_comp_ok [OF fls(1,3)] fl by auto
  obtain p where p: "copy_head (ckpt_head rs c @ fl @ sec) = Inr (p, ckpt_head rs c)" "rest p = fl @ sec"
    using copy_head_app [OF regs small, of rs "fl @ sec"] by auto
  have r: "rest p = le64 compTag @ concat (map block_bytes bs) @ le64 0 @ sec" using p(2) by (simp add: bs)
  obtain p1 where p1: "fread64 0 p = (compTag, p1)" using fread64_app [OF r, of 0] by auto
  have forms: "recovery_FirstLoad p mem = recovery_fastlz p1 mem" "read_FirstLoad p [] = read_fastlz p1 []" for mem
    using p1 by (simp_all add: recovery_FirstLoad_def read_FirstLoad_def compTag_def)
  obtain q infos where q: "read_fastlz p1 [] = Inr (q, infos)"
    using rec [OF p(2), of "\<lambda>_. 0"] by (cases "read_fastlz p1 []") (auto simp: forms recovery_fastlz_stored)
  have m: "recovered fls mem (fold fl_write infos mem)" "rest q = sec" for mem
    using rec [OF p(2), of mem] q by (auto simp: forms recovery_fastlz_stored)
  have "words8 infos" using read_blocks_words8 q by (fastforce simp: read_fastlz_def words8_def)
  then have "\<exists>p' mem'. recovery_FirstLoad p mem = Inr (p', mem') \<and> recovered fls mem mem' \<and> rest p' = after"
    if "length infos < 0x123457" "rest p = saveFLoads infos @ after" "pos p + 8 \<le> length (content p)" for p mem after
    using nocomp_recover [OF _ that, of mem] m(1) by (auto simp: words8_def)
  moreover have "comp_ckptinfo 0 (Some (ckpt_head rs c @ fl @ sec)) = Inr (ckpt_head rs c @ saveFLoads infos @ sec)"
    using p(1) q m(2) by (simp add: comp_ckptinfo_def forms copy_syscalls_rest)
  ultimately show ?thesis by blast
qed

end
