(* ===== verification/DataMap.thy ===== *)
theory DataMap
  imports CompCkpt
begin

unbundle bit_operations_syntax

text \<open>
  The form between the two others: windows written as they are (choice 1 of
  \<open>ckpt_helper/compckpt\<close>), which \<open>recovery_datamap\<close> of the loader reads word by word. What the
  helper writes restores the same bytes, for any number of windows.
\<close>

section \<open>Reading a window from the file\<close>

definition nz_words :: "(nat \<Rightarrow> u8) \<Rightarrow> nat \<Rightarrow> nat \<Rightarrow> bytes" where
  "nz_words page a b = concat (map (page_word page) (filter (nz page) [a..<b]))"

lemma nz_words_Suc:
  "a < b \<Longrightarrow> nz_words page a b = (if nz page a then page_word page a else []) @ nz_words page (Suc a) b"
  by (simp add: nz_words_def upt_conv_Cons)

lemma nz_words_split: "a \<le> b \<Longrightarrow> b \<le> c \<Longrightarrow> nz_words page a c = nz_words page a b @ nz_words page b c"
  using upt_add_eq_append [of a b "c - b"] by (simp add: nz_words_def)

lemma datamap_bits_window:
  assumes "rest p = nz_words page (8 * i + m) (8 * i + m + n) @ after" and "m + n \<le> 8"
  shows "\<exists>p'. datamap_bits n m (addr + of_nat (i * 8 * 8)) (drop_bit m (flag_byte page i)) (p, mem) =
      (p', fold (put_word addr page) [8 * i + m..<8 * i + m + n] mem) \<and> rest p' = after \<and> content p' = content p"
  using assms
proof (induction n arbitrary: m p mem)
  case 0
  then show ?case by (simp add: nz_words_def)
next
  case (Suc n)
  let ?w = "8 * i + m"
  have split: "nz_words page ?w (?w + Suc n) = (if nz page ?w then page_word page ?w else []) @ nz_words page (Suc ?w) (?w + Suc n)"
    by (rule nz_words_Suc) simp
  have odd: "drop_bit m (flag_byte page i) mod 2 = 1 \<longleftrightarrow> nz page ?w"
    using Suc.prems(2) bit_flag_byte [of m page i] by (simp add: odd_u8 bit_drop_bit_eq)
  have shift: "drop_bit 1 (drop_bit m (flag_byte page i)) = drop_bit (Suc m) (flag_byte page i)" by (simp add: drop_bit_drop_bit)
  have adr: "addr + of_nat (i * 8 * 8) + of_nat (m * 8) = addr + of_nat (8 * ?w)" by (simp add: algebra_simps)
  have up: "[?w..<?w + Suc n] = ?w # [Suc ?w..<?w + Suc n]" by (simp add: upt_conv_Cons)
  obtain p1 where p1: "(if nz page ?w then (case fread 8 p of (bs, p') \<Rightarrow> (p', mem_write mem (addr + of_nat (8 * ?w)) bs)) else (p, mem)) =
      (p1, put_word addr page ?w mem)" "rest p1 = nz_words page (Suc ?w) (?w + Suc n) @ after" "content p1 = content p"
  proof (cases "nz page ?w")
    case True
    then have "rest p = page_word page ?w @ nz_words page (Suc ?w) (?w + Suc n) @ after" using Suc.prems(1) split by simp
    from fread_app [OF this, of 8] True that show ?thesis by (auto simp: put_word_def)
  next
    case False
    then show ?thesis using that [of p] Suc.prems(1) split by (simp add: put_word_def)
  qed
  have IH: "\<exists>p'. datamap_bits n (Suc m) (addr + of_nat (i * 8 * 8)) (drop_bit (Suc m) (flag_byte page i)) (p1, put_word addr page ?w mem) =
      (p', fold (put_word addr page) [8 * i + Suc m..<8 * i + Suc m + n] (put_word addr page ?w mem)) \<and> rest p' = after \<and> content p' = content p1"
    using Suc.IH [of p1 "Suc m" "put_word addr page ?w mem"] p1(2) Suc.prems(2) by simp
  show ?case
    unfolding datamap_bits.simps up odd shift adr p1(1) using IH p1(3) by simp
qed

lemma datamap_bytes_window:
  assumes "rest p = nz_words page (8 * i) (8 * (i + n)) @ after"
  shows "\<exists>p'. datamap_bytes i addr (map (flag_byte page) [i..<i + n]) (p, mem) =
      (p', fold (put_word addr page) [8 * i..<8 * (i + n)] mem) \<and> rest p' = after \<and> content p' = content p"
  using assms
proof (induction n arbitrary: i p mem)
  case 0
  then show ?case by (simp add: nz_words_def)
next
  case (Suc n)
  have split: "nz_words page (8 * i) (8 * (i + Suc n)) = nz_words page (8 * i + 0) (8 * i + 0 + 8) @ nz_words page (8 * Suc i) (8 * (Suc i + n))"
    using nz_words_split [of "8 * i" "8 * i + 8" "8 * (i + Suc n)" page] by (simp add: add.commute)
  have up: "[8 * i..<8 * (i + Suc n)] = [8 * i..<8 * i + 8] @ [8 * Suc i..<8 * (Suc i + n)]"
    using upt_add_eq_append [of "8 * i" "8 * i + 8" "8 * n"] by (simp add: algebra_simps)
  have cs: "map (flag_byte page) [i..<i + Suc n] = flag_byte page i # map (flag_byte page) [Suc i..<Suc i + n]"
    by (simp add: upt_conv_Cons del: upt_Suc)
  have r: "rest p = nz_words page (8 * i + 0) (8 * i + 0 + 8) @ nz_words page (8 * Suc i) (8 * (Suc i + n)) @ after"
    using Suc.prems split by simp
  obtain p1 where p1: "datamap_bits 8 0 (addr + of_nat (i * 8 * 8)) (flag_byte page i) (p, mem) =
      (p1, fold (put_word addr page) [8 * i..<8 * i + 8] mem)"
    "rest p1 = nz_words page (8 * Suc i) (8 * (Suc i + n)) @ after" "content p1 = content p"
    using datamap_bits_window [OF r, of addr mem] by auto
  show ?case
    using Suc.IH [OF p1(2), of "fold (put_word addr page) [8 * i..<8 * i + 8] mem"] p1(1,3)
    unfolding cs up fold_append comp_apply by simp
qed

lemma recovery_datamap_window:
  assumes "rest p = win_raw (addr, page) @ after" and "addr \<noteq> 0"
  shows "\<exists>p'. recovery_datamap sz0 p mem = recovery_datamap 4096 p' (win_apply (addr, page) mem) \<and> rest p' = after \<and> content p' = content p"
proof -
  let ?fl = "map (flag_byte page) [0..<64]"
  have raw: "win_raw (addr, page) = le64 addr @ le64 4096 @ ?fl @ nz_words page (8 * 0) (8 * (0 + 64))"
    by (simp add: win_raw_def nz_words_def del: upt_rec_numeral)
  obtain p1 where p1: "fread64 0 p = (addr, p1)" "rest p1 = le64 4096 @ ?fl @ nz_words page (8 * 0) (8 * (0 + 64)) @ after" "content p1 = content p"
    using fread64_app [of p addr "le64 4096 @ ?fl @ nz_words page (8 * 0) (8 * (0 + 64)) @ after" 0] assms(1) raw by auto
  obtain p2 where p2: "fread64 sz0 p1 = (4096, p2)" "rest p2 = ?fl @ nz_words page (8 * 0) (8 * (0 + 64)) @ after" "content p2 = content p1"
    using fread64_app [OF p1(2), of sz0] by auto
  have l64: "length ?fl = 64" by simp
  obtain p3 where p3: "fread 64 p2 = (?fl, p3)" "rest p3 = nz_words page (8 * 0) (8 * (0 + 64)) @ after" "content p3 = content p2"
    using fread_app [OF p2(2) l64] by auto
  obtain p4 where p4: "datamap_bytes 0 addr ?fl (p3, mem) = (p4, fold (put_word addr page) [8 * 0..<8 * (0 + 64)] mem)" "rest p4 = after" "content p4 = content p3"
    using datamap_bytes_window [OF p3(2), of addr mem] by auto
  have win: "fold (put_word addr page) [8 * 0..<8 * (0 + 64)] mem = win_apply (addr, page) mem"
    using put_words_apply [of 512 addr page mem] by (simp add: win_apply_def fun_eq_iff del: upt_rec_numeral)
  have ms: "unat ((4096 :: u64) div 64) = 64" by simp
  have "recovery_datamap sz0 p mem = recovery_datamap 4096 p4 (win_apply (addr, page) mem)"
    using assms(2) p1(1) p2(1) p3(1) p4(1) l64 unfolding win
    by (subst recovery_datamap.simps) (simp add: ms Let_def del: upt_rec_numeral)
  then show ?thesis using p1(3) p2(3) p3(3) p4(2,3) by auto
qed

lemma recovery_datamap_windows:
  assumes "rest p = raw_of ws @ le64 0 @ after" and "\<forall>w \<in> set ws. fst w \<noteq> 0"
  shows "\<exists>p'. recovery_datamap sz0 p mem = Inr (p', fold win_apply ws mem) \<and> rest p' = after \<and> content p' = content p"
  using assms
proof (induction ws arbitrary: p sz0 mem)
  case Nil
  obtain p' where "fread64 0 p = (0, p')" "rest p' = after" "content p' = content p"
    using fread64_app [of p 0 after 0] Nil.prems(1) by auto
  then show ?case by (subst recovery_datamap.simps) simp
next
  case (Cons w ws)
  obtain addr page where w: "w = (addr, page)" by (cases w)
  have r: "rest p = win_raw (addr, page) @ raw_of ws @ le64 0 @ after" using Cons.prems(1) by (simp add: w)
  have a: "addr \<noteq> 0" using Cons.prems(2) by (simp add: w)
  obtain p1 where p1: "recovery_datamap sz0 p mem = recovery_datamap 4096 p1 (win_apply w mem)" "rest p1 = raw_of ws @ le64 0 @ after"
    "content p1 = content p"
    using recovery_datamap_window [OF r a, of sz0 mem] unfolding w by blast
  show ?case using Cons.IH [OF p1(2), of 4096 "win_apply w mem"] Cons.prems(2) p1(1,3) by auto
qed

section \<open>Writing windows as they are\<close>

interpretation plain: window_writer "compress_write_choice 1" "comp_windows 1" "\<lambda>bs ws. bs = raw_of ws"
proof
  fix s ws and data :: "u64 list" and w :: window and isend
  assume p: "pending s ws" and w: "concat (map le64 data) = win_raw w" and a: "fst w \<noteq> 0"
  from p w a obtain t n where t: "res_fold append_word data s = Inr (s\<lparr>tempdata := t, tdsize := n\<rparr>)" "slice t 0 n = raw_of (ws @ [w])"
    "n + 1 \<le> blen t" "n < MaxCompressSize \<longrightarrow> pending (s\<lparr>tempdata := t, tdsize := n, infonum := infonum s + 1\<rparr>) (ws @ [w])"
    "\<forall>cd. blen cd = blen (compdata s) \<longrightarrow> pending (s\<lparr>tempdata := t, compdata := cd, tdsize := 0, infonum := 0\<rparr>) []"
    by (rule append_window)
  have keep: "s\<lparr>tempdata := t, compdata := compdata s, tdsize := 0, infonum := 0\<rparr> = s\<lparr>tempdata := t, tdsize := 0, infonum := 0\<rparr>" by simp
  show "(\<exists>s'. compress_write_choice 1 data isend s = Inr (s', []) \<and> \<not> isend \<and> pending s' (ws @ [w])) \<or>
      (\<exists>s' bs. compress_write_choice 1 data isend s = Inr (s', bs) \<and> pending s' [] \<and> bs = raw_of (ws @ [w]))"
  proof (cases "n < MaxCompressSize \<and> \<not> isend")
    case True
    then show ?thesis using t(1,4) by (simp add: compress_write_choice_def Let_def)
  next
    case False
    have "peek t 0 n = Inr (raw_of (ws @ [w]))" using t(2,3) by (simp add: peek_def)
    then show ?thesis
      using False t(1) t(5) [rule_format, of "compdata s", unfolded keep] by (auto simp: compress_write_choice_def Let_def)
  qed
qed (simp_all add: Let_def)

text \<open>The compressed forms of the helper write blocks as the recorder does, form 3 with level 2 of FastLZ.\<close>

lemma packed_put_ok:
  assumes "c = 2 \<or> c = 3" and p: "pending s ws" "concat (map le64 data) = win_raw w" "fst w \<noteq> 0"
  shows "(\<exists>s'. compress_write_choice c data isend s = Inr (s', []) \<and> \<not> isend \<and> pending s' (ws @ [w])) \<or>
      (\<exists>s' bs. compress_write_choice c data isend s = Inr (s', bs) \<and> pending s' [] \<and> block_part bs (ws @ [w]))"
proof -
  have "nat (c - 1) = 1 \<or> nat (c - 1) = 2" using assms(1) by auto
  from compress_write_ok [OF p this, of isend] show ?thesis
    unfolding compress_write_choice_level [OF assms(1)] block_part_def by blast
qed

interpretation packed2: window_writer "compress_write_choice 2" "comp_windows 2" block_part
  by unfold_locales (use packed_put_ok [of 2] in \<open>simp_all add: Let_def\<close>)

interpretation packed3: window_writer "compress_write_choice 3" "comp_windows 3" block_part
  by unfold_locales (use packed_put_ok [of 3] in \<open>simp_all add: Let_def\<close>)

lemmas packed_loop_ok = packed2.loop_ok packed3.loop_ok

lemma compress_FirstLoad_1:
  assumes "savable fls" and "pending s []"
  shows "\<exists>s'. compress_FirstLoad 1 fls s = Inr (s', le64 0x123457 @ raw_of (windows_of fls) @ le64 0) \<and> pending s' []"
proof -
  obtain s' ps where r: "comp_windows 1 fls s (le64 0x123457) = Inr (s', le64 0x123457 @ concat (map fst ps))" "pending s' []"
    "concat (map snd ps) = windows_of fls" "\<forall>p \<in> set ps. fst p = raw_of (snd p)"
    using plain.loop_ok [OF assms, of "le64 0x123457"] by auto
  have "concat (map fst ps) = raw_of (concat (map snd ps))" using r(4) by (induction ps) auto
  then show ?thesis using r(1-3) by (simp add: compress_FirstLoad_def)
qed

lemma compress_FirstLoad_packed:
  assumes "savable fls" and "pending s []" and c: "c = 2 \<or> c = 3"
  shows "\<exists>s' bs. compress_FirstLoad c fls s = Inr (s', le64 (0x123456 + of_int c) @ concat (map block_bytes bs) @ le64 0) \<and>
    pending s' [] \<and> concat (map snd bs) = windows_of fls \<and> (\<forall>b \<in> set bs. block_ok b)"
proof -
  let ?tag = "le64 (0x123456 + of_int c)"
  obtain s' ps where r: "comp_windows c fls s ?tag = Inr (s', ?tag @ concat (map fst ps))" "pending s' []"
    "concat (map snd ps) = windows_of fls" "\<forall>p \<in> set ps. block_part (fst p) (snd p)"
    using packed_loop_ok [OF assms(1,2), of ?tag] c by auto
  from blocks_of_parts [OF r(4)] obtain bs where "map fst ps = map block_bytes bs" "map snd ps = map snd bs" "\<forall>b \<in> set bs. block_ok b"
    by blast
  with r(1-3) show ?thesis by (intro exI [of _ s'] exI [of _ bs]) (simp add: compress_FirstLoad_def)
qed

lemma windows_of_nonzero: "savable fls \<Longrightarrow> w \<in> set (windows_of fls) \<Longrightarrow> fst w \<noteq> 0"
  using windows_of_bases by (fastforce simp: savable_def)

theorem datamap_roundtrip:
  assumes "savable fls" and "pending s []"
  shows "\<exists>s' out. compress_FirstLoad 1 fls s = Inr (s', out) \<and> pending s' [] \<and>
    (\<forall>p mem after. rest p = out @ after \<longrightarrow>
       (\<exists>p' mem'. recovery_FirstLoad p mem = Inr (p', mem') \<and> recovered fls mem mem' \<and> rest p' = after \<and> content p' = content p))"
proof -
  obtain s' where w: "compress_FirstLoad 1 fls s = Inr (s', le64 0x123457 @ raw_of (windows_of fls) @ le64 0)" "pending s' []"
    using compress_FirstLoad_1 [OF assms] by blast
  have "\<exists>p' mem'. recovery_FirstLoad p mem = Inr (p', mem') \<and> recovered fls mem mem' \<and> rest p' = after \<and> content p' = content p"
    if "rest p = (le64 0x123457 @ raw_of (windows_of fls) @ le64 0) @ after" for p mem after
  proof -
    have r: "rest p = le64 0x123457 @ raw_of (windows_of fls) @ le64 0 @ after" using that by simp
    obtain p1 where p1: "fread64 0 p = (0x123457, p1)" "rest p1 = raw_of (windows_of fls) @ le64 0 @ after" "content p1 = content p"
      using fread64_app [OF r, of 0] by auto
    obtain p' where "recovery_datamap 0 p1 mem = Inr (p', fold win_apply (windows_of fls) mem)" "rest p' = after" "content p' = content p1"
      using recovery_datamap_windows [OF p1(2), of 0 mem] windows_of_nonzero [OF assms(1)] by blast
    moreover have "recovered fls mem (fold win_apply (windows_of fls) mem)"
      using assms(1) by (intro recovered_windows) (simp add: savable_def)
    ultimately show ?thesis using p1(1,3) by (simp add: recovery_FirstLoad_def)
  qed
  then show ?thesis using w by blast
qed

theorem packed_roundtrip:
  assumes sv: "savable fls" "pending s []" and c: "c = 2 \<or> c = 3" and fit: "blocks_fit_of (compress_FirstLoad c) (0x123456 + of_int c) fls"
  shows "\<exists>s' out. compress_FirstLoad c fls s = Inr (s', out) \<and> pending s' [] \<and>
    (\<forall>p mem after. rest p = out @ after \<longrightarrow>
       (\<exists>p' mem'. recovery_FirstLoad p mem = Inr (p', mem') \<and> recovered fls mem mem' \<and> rest p' = after \<and> content p' = content p))"
proof -
  obtain s' bs where r: "compress_FirstLoad c fls s = Inr (s', le64 (0x123456 + of_int c) @ concat (map block_bytes bs) @ le64 0)"
    "pending s' []" "concat (map snd bs) = windows_of fls" "\<forall>b \<in> set bs. block_ok b"
    using compress_FirstLoad_packed [OF sv c] by blast
  moreover have "(0x123456 + of_int c :: u64) = 0x123456 + 2 \<or> (0x123456 + of_int c :: u64) = 0x123456 + 3" using c by auto
  ultimately show ?thesis using saved_recovers [OF sv fit r(1,3,4)] by blast
qed

end
