(* ===== verification/Spec2Isabelle.thy ===== *)
theory Spec2Isabelle
  imports Examples SyscallEmul ElfLoad RewriteSys DataMap
begin

text \<open>
  A verification development for the RISC-V checkpoint tool chain. A recorder inside gem5 watches a program
  run and writes a checkpoint of a slice of it; a loader rebuilds the slice on other hardware and replays it
  without an operating system behind it. Below, \<open>G\<close> is \<open>src/createCkpt/gem5_create\<close>
  and \<open>R\<close> is \<open>src/restoreCkpt/ckptinfo\<close>.

  \<^bold>\<open>How the parts work together.\<close> The atomic CPU (\<open>G/cpu/simple/atomic.cc\<close>) runs one instruction per
  \<open>tick\<close>. Each load, store, executed address and system call is handed to the collector
  (\<open>G/sim/ckpt_collect.cc\<close>), which passes it to every pending \<open>CkptInfo\<close> (\<open>G/sim/ckptinfo.cc\<close>). When
  the slice is long enough and \<open>tick\<close> finds an instruction that the loader can replace by a jump, the
  object computes first loads, code ranges and memory ranges and writes the file; the first loads are packed by
  \<open>G/sim/ckpt_saveFLoads.cc\<close> and compressed by \<open>G/sim/fastlz.cc\<close>. The loader (\<open>R/newreadckpt\<close>) maps the
  code from the program file, maps and fills the memory ranges, replaces every call and the exit instruction by
  jumps to itself, and answers each call from the record. \<open>R/readckpt\<close> is the loader for
  the core with temporary registers; \<open>R/ckpt_helper\<close> has programs that convert checkpoint files.

  \<^bold>\<open>The recorder.\<close>
  \<^item> \<open>AccessTrack\<close>: \<open>addAddrInfo\<close>, \<open>addload\<close>, \<open>addstore\<close>. The \<open>std::map\<close> \<open>preAccess\<close> is a red-black tree from chunk
    addresses to 8192 flags. The lemmas show that the marked flags are the touched bytes.
  \<^item> \<open>FirstLoads\<close>: \<open>combine_loads\<close>, \<open>getFistloads\<close>. The records of a run, expanded and combined, are exactly the
    bytes that the run read before writing them (the abstract specification \<open>spec_access\<close>).
  \<^item> \<open>Ranges\<close>: \<open>addinst\<close>, both \<open>getRange\<close> and the trimming in \<open>detectOver\<close>. The loop is verified once in the
    locale \<open>merger\<close>, interpreted for code pages (\<open>pages\<close>) and memory chunks (\<open>chunks\<close>).
  \<^item> \<open>SysInfo\<close>: recording calls and \<open>saveSysInfo\<close>, \<open>saveSysInfo1\<close>. Calls with the same outcome share a record,
    and every index leads back to its call.
  \<^item> \<open>FastLZ\<close>, \<open>LZTokens\<close>, \<open>LZRoundTrip\<close>, \<open>LZLevel2\<close>: both levels of the compressor on byte buffers with bounds. The tokens of
    a stream have an abstract meaning (\<open>lz_run\<close>) that the levels share; each compressor emits tokens of its input and its decompressor runs them.
  \<^item> \<open>SaveFLoads\<close>, \<open>WindowCodec\<close>, \<open>FLoadsRoundTrip\<close>: windows of 4096 bytes, their bit maps and blocks. What the
    block layer needs of a compressor is the locale \<open>codec\<close>; \<open>lz\<close> and \<open>lz2\<close> interpret it on the two levels of FastLZ. The loop over the
    windows is verified in the locale \<open>window_writer\<close>, interpreted for the recorder (\<open>recorder\<close>) and in \<open>DataMap\<close> for the forms of \<open>compckpt\<close>
    (\<open>plain\<close>, \<open>packed2\<close>, \<open>packed3\<close>).
  \<^item> \<open>CkptFile\<close>: the object \<open>CkptInfo\<close> (a record with the fields of the class), \<open>finish_slice\<close> (the body of \<open>detectOver\<close>)
    and the bytes of the file. \<open>SliceEnd\<close>: every accessed byte lies in a written range.
  \<^item> \<open>Settings\<close>, \<open>Collect\<close>, \<open>CollectProps\<close>: the settings file with \<open>fgets\<close> and \<open>sscanf\<close>, the schedule of slices, the
    pending slices, and \<open>initCkptSysInfo\<close> with \<open>ckpt_insert_syscall\<close>, which take the calls of an old checkpoint during a restored run.
  \<^item> \<open>TraceCollect\<close>: \<open>G/sim/trace_collect.cc\<close>, which instructions are traced into which file and the bytes of a record.
  \<^item> \<open>AtomicTick\<close>, \<open>MemAccess\<close>: \<open>readMem\<close>, \<open>writeMem\<close>, \<open>amoMem\<close>, the system call hooks
    (\<open>G/arch/riscv/linux/se_workload.cc\<close>, \<open>G/sim/syscall_desc.cc\<close>) and \<open>tick\<close> on the state \<open>cpu\<close>.
    \<open>SliceRun\<close>: frames of every hook and invariants of whole runs. \<open>Restored\<close>: from the end of a slice to the loaded state.
  \<^item> \<open>SyscallEmul\<close>: the handlers of \<open>G/sim/syscall_emul.hh\<close> and \<open>syscall_emul.cc\<close> that write into the program's memory, with their reports to
    the recorder. \<open>replayable\<close> is what a handler owes the loader: the report is enough to repeat the effect of the call. All handlers meet it but for the
    bytes in \<open>lost\<close>.
  \<^item> \<open>Decoder\<close>: fetching and decoding (\<open>G/arch/riscv/decoder.cc\<close>, the fetch part of \<open>G/cpu/simple/base.cc\<close> and the decoder
    of \<open>gem5_restore\<close>). What fetching needs of a decoder is the locale \<open>word_decoder\<close>, interpreted for both (\<open>creating\<close>,
    \<open>restoring\<close>). The field \<open>isCompressed\<close> that \<open>tick\<close> reads is an input of the model of \<open>tick\<close>; \<open>Decoder\<close> shows that the compiled decoder
    does not assign it.

  \<^bold>\<open>The loaders.\<close>
  \<^item> \<open>RecoverFLoads\<close>: \<open>recovery_fload.cpp\<close>, the three forms of first loads.
  \<^item> \<open>CkptLoad\<close>, \<open>Loader\<close>: \<open>ckpt_load.cpp\<close> and \<open>takeover_syscall.cpp\<close>; the memory of the process is a function from addresses
    to bytes, and the loader's own data (\<open>RunningInfo\<close>, jump table, saved registers) the fields of a record.
  \<^item> \<open>JumpPatch\<close>, \<open>RVInst\<close>, \<open>JumpLayout\<close>: \<open>user_jmp.cpp\<close>. The built words are run by a small RISC-V semantics
    (\<open>rv_step\<close>, after the unprivileged ISA) to show that the patched code goes where it should.
  \<^item> \<open>ElfLoad\<close>: \<open>elf_load.cpp\<close> and \<open>main\<close>: every address executed while recording holds the bytes of the program file.
  \<^item> \<open>HwLoader\<close>: \<open>R/readckpt\<close> with its sampling control. \<open>Replay\<close>: a run is a rule-based
    relation (\<open>replays\<close>) that alternates steps of the program with answered calls. The locale \<open>replayer\<close> states what a loader
    promises, and \<open>jp\<close> and \<open>hw\<close> interpret it on the two loaders.

  \<^bold>\<open>The helpers.\<close> \<open>CkptCopy\<close>: the copied sections. \<open>RewriteSys\<close>: \<open>rewriteSysInfo\<close>, calls of ten words to shared records.
  \<open>CompCkpt\<close>, \<open>DataMap\<close>: \<open>compckpt\<close>, which reads first loads in one form and writes them in another.

  \<^bold>\<open>Shared.\<close> \<open>CkptPrelude\<close>: faults, the result type, little-endian words, byte-addressed memory, files and C buffers, with the
  fact collections \<open>ckpt_word\<close>, \<open>ckpt_le\<close>, \<open>ckpt_mem\<close>, \<open>ckpt_file\<close>. \<open>Examples\<close>: the concrete states of the witnesses.

  \<^bold>\<open>Modelling choices.\<close> Machine integers are words of their width, so casts and wrap-around are those of the code. A read or write
  outside a buffer, a read of bytes never written, a dereferenced \<open>end()\<close> or null pointer, a use of a closed file and
  \<open>exit\<close> and a failed \<open>assert\<close> are values of \<open>fault\<close>; a result is \<open>Inl\<close> a fault or \<open>Inr\<close> a value, so that a theorem which gives \<open>Inr\<close>
  also shows that none of these happens. No fuel is used: every loop has a termination proof. The page loop of \<open>mark_pages\<close> has a counter
  that can wrap, which is the fault \<open>Endless\<close>. A \<open>printf\<close> that shows progress is left out.

  \<^bold>\<open>Bounds in the theorems.\<close> Addresses below \<open>2 ^ 63\<close> (\<open>2 ^ 61\<close> and \<open>2 ^ 62\<close> where the code adds to or subtracts them as signed
  numbers): user space of RISC-V Linux lies below. Accesses have 1 to 8 bytes and do not cross into a chunk already known
  (\<open>plain_access\<close>); the two theorems on overruns show what the code does otherwise. Code ends below \<open>2 ^ 31\<close>, since \<open>detectOver\<close> keeps its end in
  an \<open>int\<close>. \<open>blocks_fit\<close> asks that every written block fits the buffer that the loader reads it into, which is smaller than the worst expansion of a full
  block; \<open>blocks_fit_raw\<close> shows that it holds for up to 30000000 bytes of windows, beyond that it depends on how well they compress. An uncompressed section has fewer than \<open>0x123457\<close> records, since the count doubles as tag. \<open>loadelf\<close> has room for 2048
  text ranges.

  \<^bold>\<open>Parameters.\<close> Outside the sources and arguments of the model: what \<open>mmap\<close> returns, the performance counters, whether \<open>fopen\<close> succeeds,
  address translation and the memory system behind an access, the generated table of instructions, the decoded instruction and the thread's registers after it, the file table, the
  file system and the clock that the emulation of a call uses.

  \<^bold>\<open>Not modelled.\<close> Of the emulated calls those that write no memory, and \<open>poll\<close>, \<open>getdents\<close>, \<open>gethostname\<close> and \<open>_llseek\<close>, which the table of
  64-bit RISC-V does not have. \<open>saveDetailInfo\<close> and \<open>R/ckpt_helper/showckpt\<close> print values that the model has. \<open>R/ckpt_tester\<close> holds earlier
  variants of the encoder that only report sizes. The rest of gem5 (both copies), the proxy kernel
  and the Scala core are third-party or not part of the tool chain's own C++ code.
\<close>

section \<open>Runs and slices\<close>

text \<open>
  C1: when the running instruction may end a slice (not compressed, no system call, its
  address not executed since the last call), the slice is over, and its contents are ones the formats can hold,
  then \<open>tick\<close> returns and writes one checkpoint file, and loading that file restores the program counter, the
  integer registers and every byte that the slice read before writing it.
\<close>

theorem slice_end_restores:
  assumes "old u = None" "\<not> traceOpen (trc u)" "pendingCkpts (coll u) = [c]" "pending (compst (coll u)) []"
      "\<not> strictLength u" "isCkptStart (numInst u) (coll u) = (None, coll u)"
    and "step_events x = []" "\<not> step_fault x" "\<not> isCompressed (step_inst x)" "\<not> isSyscall (step_inst x)"
      "step_pc x \<notin> preinsts u"
    and "restorable accs (c\<lparr>ck_textAccess := addinst (step_pc x) (ck_textAccess c)\<rparr>)"
      "ck_startnum c + ck_length c \<le> numInst u"
  shows "\<exists>go u' img. tick x u = Inr (go, u') \<and> files (coll u') = files (coll u) @ [img] \<and>
    restores accs (c\<lparr>ck_textAccess := addinst (step_pc x) (ck_textAccess c)\<rparr>) img"
  using assms by (rule tick_writes)

theorem slice_end_restores_witness:
  "\<exists>go u' img. tick ex2 ex_cpu2 = Inr (go, u') \<and> files (coll u') = files (coll ex_cpu2) @ [img] \<and>
    restores [ex_load] (ex_slice\<lparr>ck_textAccess := addinst (step_pc ex2) (ck_textAccess ex_slice)\<rparr>) img"
proof (rule slice_end_restores)
  show "restorable [ex_load] (ex_slice\<lparr>ck_textAccess := addinst (step_pc ex2) (ck_textAccess ex_slice)\<rparr>)"
    using ex_restorable by (simp add: ex_end_def)
qed (simp_all add: ex_cpu2_def ex_cpu1_def ex_cpu_def cpu_init_def collector_init_def tracer_init_def isCkptStart_def CkptSettings_new_def
      pending_init ex2_def ex_step_def ex_inst_def ex_slice_def ex_begun_def CkptInfo_new_def)

text \<open>
  C2: after any run of instructions from a fresh simulator, every pending slice splits the
  run into the instructions before its start, the one it starts behind, and those since. It has the start number, the registers and the
  next program counter of that instruction, and its tables are exactly what recording the accesses of the
  instructions since gives.
\<close>

theorem pending_slices_complete:
  assumes "ticks hist u0 = Inr u" and "old u0 = None" and "pendingCkpts (coll u0) = []" and "numInst u0 = 0"
    and "c \<in> set (pendingCkpts (coll u))"
  shows "\<exists>ys x zs. hist = ys @ x # zs \<and> ck_startnum c = sum_list (map counted ys) \<and>
    res_fold do_access (concat (map step_accesses zs)) (RBT.empty, []) = Inr (ck_preAccess c, ck_loads c) \<and>
    ck_intregs c = map (th_int (step_thread x)) (map of_nat [0..<32]) \<and>
    ck_fpregs c = map (th_float (step_thread x)) (map of_nat [0..<32]) \<and> ck_npc c = th_npc (step_thread x)"
proof -
  have "since_start hist c" using pending_since_start [OF assms(1-4)] assms(5) by blast
  then show ?thesis using since_start_recorded unfolding recorded_run_def by blast
qed

theorem pending_slices_complete_witness:
  "\<exists>ys x zs. [ex0, ex1] = ys @ x # zs \<and> ck_startnum ex_slice = sum_list (map counted ys) \<and>
    res_fold do_access (concat (map step_accesses zs)) (RBT.empty, []) = Inr (ck_preAccess ex_slice, ck_loads ex_slice) \<and>
    ck_intregs ex_slice = map (th_int (step_thread x)) (map of_nat [0..<32]) \<and>
    ck_fpregs ex_slice = map (th_float (step_thread x)) (map of_nat [0..<32]) \<and> ck_npc ex_slice = th_npc (step_thread x)"
proof (rule pending_slices_complete)
  show "ticks [ex0, ex1] ex_cpu = Inr ex_cpu2" by (simp add: ex_tick0 ex_tick1)
qed (simp_all add: ex_cpu2_def ex_cpu_def cpu_init_def collector_init_def)



text \<open>
  C4: every file the simulator writes comes from a slice of the run that has reached its length;
  the slice begins behind some instruction of the run and has recorded every instruction since, the ending one included.
\<close>

theorem files_are_slices:
  assumes "ticks hist u0 = Inr u" "old u0 = None" "pendingCkpts (coll u0) = []" "numInst u0 = 0"
    and "tick x u = Inr (go, u')"
  shows "\<exists>fs. files (coll u') = files (coll u) @ fs \<and> (\<forall>f \<in> set fs. \<exists>c ns c1 s1 c2 s2. since_start (hist @ [x]) c \<and>
    ck_startnum c + ck_length c \<le> sum_list (map counted hist) \<and>
    finish_slice (slice_closed c (sum_list (map counted hist)) (exit_addr x u) ns) = Inr c1 \<and>
    saveCkptInfo (oldstart (coll u0)) c1 s1 = Inr (f, c2, s2))"
  using assms by (rule file_since_start)

theorem files_are_slices_witness:
  "\<exists>go u'. tick ex2 ex_cpu2 = Inr (go, u') \<and> files (coll u') \<noteq> [] \<and>
    (\<exists>fs. files (coll u') = files (coll ex_cpu2) @ fs \<and> (\<forall>f \<in> set fs. \<exists>c ns c1 s1 c2 s2. since_start ([ex0, ex1] @ [ex2]) c \<and>
    ck_startnum c + ck_length c \<le> sum_list (map counted [ex0, ex1]) \<and>
    finish_slice (slice_closed c (sum_list (map counted [ex0, ex1])) (exit_addr ex2 ex_cpu2) ns) = Inr c1 \<and>
    saveCkptInfo (oldstart (coll ex_cpu)) c1 s1 = Inr (f, c2, s2)))"
proof -
  obtain go u3 img where t: "tick ex2 ex_cpu2 = Inr (go, u3)" "files (coll u3) = files (coll ex_cpu2) @ [img]"
    using ex_ends by blast
  have "ticks [ex0, ex1] ex_cpu = Inr ex_cpu2" by (simp add: ex_tick0 ex_tick1)
  moreover have "old ex_cpu = None" "pendingCkpts (coll ex_cpu) = []" "numInst ex_cpu = 0"
    by (simp_all add: ex_cpu_def cpu_init_def collector_init_def)
  ultimately show ?thesis using files_are_slices [of "[ex0, ex1]" ex_cpu ex_cpu2 ex2 go u3] t by auto
qed

section \<open>Recording loads\<close>

text \<open>
  C5: recording any sequence of memory accesses of one to eight bytes, each inside one 8 KiB
  chunk, and then packing the recorded loads, succeeds, and the packed records are exactly
  the first-load image of the run: stored in order into zeroed memory they give each byte whose
  first access was a load the value that load returned, and every other byte zero.
\<close>

theorem first_loads_of_run:
  assumes "\<forall>acc \<in> set accs. plain_access acc"
  shows "\<exists>t loads fls. res_fold do_access accs (RBT.empty, []) = Inr (t, loads) \<and>
    getFistloads loads [] = Inr fls \<and> spaced fls \<and>
    touched t = fst (fold spec_access accs ({}, Map.empty)) \<and>
    fl_image fls = byte_image (snd (fold spec_access accs ({}, Map.empty)))"
proof -
  obtain t loads where run: "res_fold do_access accs (RBT.empty, []) = Inr (t, loads)"
    "records (t, loads) (fold spec_access accs ({}, Map.empty))"
    using records_run [OF records_init assms] by auto
  moreover have "touched t = fst (fold spec_access accs ({}, Map.empty))"
    using run(2) by (simp add: records_def)
  ultimately show ?thesis
    using records_first_loads [of t loads "fst (fold spec_access accs ({}, Map.empty))"] by auto
qed

theorem first_loads_of_run_witness:
  "\<exists>t loads fls. res_fold do_access [LoadAcc 0x1000 [1, 2], StoreAcc 0x1004 4] (RBT.empty, []) = Inr (t, loads) \<and>
    getFistloads loads [] = Inr fls \<and> spaced fls \<and>
    touched t = fst (fold spec_access [LoadAcc 0x1000 [1, 2], StoreAcc 0x1004 4] ({}, Map.empty)) \<and>
    fl_image fls = byte_image (snd (fold spec_access [LoadAcc 0x1000 [1, 2], StoreAcc 0x1004 4] ({}, Map.empty)))"
  by (rule first_loads_of_run) (simp add: plain_access_def)

section \<open>Storing and restoring first loads\<close>

text \<open>
  C6: a list of first-load records that is packed, written with \<open>saveFLoads_comp\<close> (windows, bit
  maps, FastLZ blocks) and read back by \<open>recovery_FirstLoad\<close> of the loader puts the recorded bytes
  into every byte of memory that was zero, changes nothing outside the windows, and leaves the file
  at the data behind the section. The records have to be non-null, and every written block has to fit
  the loader's buffer, which is smaller than the worst expansion of a full block.
\<close>

theorem first_loads_restored:
  assumes "savable fls" and "blocks_fit fls"
  shows "\<exists>s' out. saveFLoads_comp fls compstate_init = Inr (s', out) \<and>
    (\<forall>p mem after. rest p = out @ after \<longrightarrow>
       (\<exists>p' mem'. recovery_FirstLoad p mem = Inr (p', mem') \<and> recovered fls mem mem' \<and> rest p' = after))"
  using save_recover [OF assms(1) pending_init assms(2)] by blast

theorem first_loads_restored_witness:
  "\<exists>s' out. saveFLoads_comp [\<lparr>fl_addr = 0x1000, fl_data = [1, 2, 3, 4, 5, 6, 7, 8]\<rparr>] compstate_init = Inr (s', out) \<and>
    (\<forall>p mem after. rest p = out @ after \<longrightarrow>
       (\<exists>p' mem'. recovery_FirstLoad p mem = Inr (p', mem') \<and>
          recovered [\<lparr>fl_addr = 0x1000, fl_data = [1, 2, 3, 4, 5, 6, 7, 8]\<rparr>] mem mem' \<and> rest p' = after))"
  by (rule first_loads_restored) (simp_all add: savable_def spaced_def blocks_fit_few)

section \<open>FastLZ\<close>

text \<open>
  C7: \<open>fastlz1_compress\<close> followed by \<open>fastlz1_decompress\<close> gives the input back, the output is at most
  33/32 of the input plus one byte, and neither routine leaves its buffers, provided that one byte
  behind the input may be read and the output buffer has the documented head room.
\<close>

theorem fastlz_level1_roundtrip:
  assumes "0 < n" and "n + 1 \<le> blen b" and "33 * n + 1100 \<le> 32 * blen out"
  shows "\<exists>c out'. fastlz1_compress b n out = Inr (c, out') \<and> 32 * c \<le> 33 * n + 31 \<and>
    (\<forall>dst maxout. n \<le> maxout \<and> maxout \<le> blen dst \<longrightarrow>
       (\<exists>dst'. fastlz1_decompress out' c dst maxout = Inr (n, dst') \<and> slice dst' 0 n = slice b 0 n))"
proof -
  obtain c out' where r: "fastlz1_compress b n out = Inr (c, out')" "blen out' = blen out" "32 * c \<le> 33 * n + 31"
    "\<forall>src dst maxout. slice src 0 c = slice out' 0 c \<and> c \<le> blen src \<and> n \<le> maxout \<and> maxout \<le> blen dst \<longrightarrow>
       (\<exists>dst'. fastlz1_decompress src c dst maxout = Inr (n, dst') \<and> blen dst' = blen dst \<and> slice dst' 0 n = slice b 0 n)"
    using fastlz1_roundtrip [OF assms] by blast
  have "c \<le> blen out'" using r(2,3) assms(3) by simp
  with r show ?thesis by blast
qed

theorem fastlz_level1_roundtrip_witness:
  "\<exists>c out'. fastlz1_compress (buf_of (replicate 40 7)) 39 (buf_of (replicate 100 0)) = Inr (c, out') \<and> 32 * c \<le> 33 * 39 + 31 \<and>
    (\<forall>dst maxout. 39 \<le> maxout \<and> maxout \<le> blen dst \<longrightarrow>
       (\<exists>dst'. fastlz1_decompress out' c dst maxout = Inr (39, dst') \<and> slice dst' 0 39 = slice (buf_of (replicate 40 7)) 0 39))"
  by (rule fastlz_level1_roundtrip) simp_all

text \<open>
  C8: the same for level 2, whose tokens chain match lengths over several bytes and reach back over the
  window of level 1: \<open>fastlz2_decompress\<close> gives back what \<open>fastlz2_compress\<close> was given, and the first byte carries the
  level that \<open>fastlz_decompress\<close> looks for.
\<close>

theorem fastlz_level2_roundtrip:
  assumes "0 < n" and "n + 1 \<le> blen b" and "33 * n + 1100 \<le> 32 * blen out"
  shows "\<exists>c out'. fastlz2_compress b n out = Inr (c, out') \<and> 32 * c \<le> 33 * n + 31 \<and> drop_bit 5 (unat (bm out' 0)) = 1 \<and>
    (\<forall>dst maxout. n \<le> maxout \<and> maxout \<le> blen dst \<longrightarrow>
       (\<exists>dst'. fastlz2_decompress out' c dst maxout = Inr (n, dst') \<and> slice dst' 0 n = slice b 0 n))"
proof -
  obtain c out' where r: "fastlz2_compress b n out = Inr (c, out')" "blen out' = blen out" "32 * c \<le> 33 * n + 31"
    "drop_bit 5 (unat (bm out' 0)) = 1"
    "\<forall>src dst maxout. slice src 0 c = slice out' 0 c \<and> c \<le> blen src \<and> n \<le> maxout \<and> maxout \<le> blen dst \<longrightarrow>
       (\<exists>dst'. fastlz2_decompress src c dst maxout = Inr (n, dst') \<and> blen dst' = blen dst \<and> slice dst' 0 n = slice b 0 n)"
    using fastlz2_roundtrip [OF assms] by blast
  have "c \<le> blen out'" using r(2,3) assms(3) by simp
  with r show ?thesis by blast
qed

theorem fastlz_level2_roundtrip_witness:
  "\<exists>c out'. fastlz2_compress (buf_of (replicate 40 7)) 39 (buf_of (replicate 100 0)) = Inr (c, out') \<and> 32 * c \<le> 33 * 39 + 31 \<and>
    drop_bit 5 (unat (bm out' 0)) = 1 \<and>
    (\<forall>dst maxout. 39 \<le> maxout \<and> maxout \<le> blen dst \<longrightarrow>
       (\<exists>dst'. fastlz2_decompress out' c dst maxout = Inr (39, dst') \<and> slice dst' 0 39 = slice (buf_of (replicate 40 7)) 0 39))"
  by (rule fastlz_level2_roundtrip) simp_all

text \<open>
  C9: \<open>fastlz1_decompress\<close> is memory safe on every input, however corrupt: it returns, it never
  reads outside the compressed data and never writes outside the first \<open>maxout\<close> bytes.
\<close>

theorem fastlz_level1_safe:
  assumes "0 < n" "n \<le> blen b" "maxout \<le> blen out"
  shows "\<exists>k out'. fastlz1_decompress b n out maxout = Inr (k, out') \<and> k \<le> maxout \<and> blen out' = blen out"
  using assms by (rule fastlz1_decompress_safe)

theorem fastlz_level1_safe_witness:
  "\<exists>k out'. fastlz1_decompress (buf_of [0xff, 0xff, 0xff]) 3 (buf_of (replicate 4 0)) 4 = Inr (k, out') \<and>
     k \<le> 4 \<and> blen out' = blen (buf_of (replicate 4 0))"
  by (rule fastlz_level1_safe) simp_all

section \<open>The checkpoint file\<close>

text \<open>
  C10: a checkpoint object with non-null packed records, 32 registers of each kind and calls with arguments is written,
  and loading the file restores the exit address, all 64 registers, the section of calls and the number of calls, and puts the
  first loads over the zeroed memory ranges.
\<close>

theorem file_roundtrip:
  assumes "ckpt_ok c" and "pending s []"
  shows "\<exists>img sec c' s'. saveCkptInfo rs c s = Inr (img, c', s') \<and> pending s' [] \<and>
    saveSysInfo (ck_sysinfos c) = Inr (sec, ck_sysinfos c') \<and>
    (\<forall>i < length (ck_sysinfos c). sec_call sec (length (ck_sysinfos c)) i (ck_sysinfos c ! i)) \<and>
    (length img < 2 ^ 63 \<longrightarrow> (\<forall>l va. \<exists>l'. load_sections va img l = Inr (ck_npc c, l') \<and> loaded_as c sec va l l'))"
  using assms by (rule ckpt_file_roundtrip)

theorem file_roundtrip_witness:
  "\<exists>img sec c' s'. saveCkptInfo None (ex_begun\<lparr>ck_sysinfos := [ex_call]\<rparr>) compstate_init = Inr (img, c', s') \<and> pending s' [] \<and>
    saveSysInfo (ck_sysinfos (ex_begun\<lparr>ck_sysinfos := [ex_call]\<rparr>)) = Inr (sec, ck_sysinfos c') \<and>
    (\<forall>i < length (ck_sysinfos (ex_begun\<lparr>ck_sysinfos := [ex_call]\<rparr>)).
       sec_call sec (length (ck_sysinfos (ex_begun\<lparr>ck_sysinfos := [ex_call]\<rparr>))) i (ck_sysinfos (ex_begun\<lparr>ck_sysinfos := [ex_call]\<rparr>) ! i)) \<and>
    (length img < 2 ^ 63 \<longrightarrow> (\<forall>l va. \<exists>l'. load_sections va img l = Inr (ck_npc (ex_begun\<lparr>ck_sysinfos := [ex_call]\<rparr>), l') \<and>
       loaded_as (ex_begun\<lparr>ck_sysinfos := [ex_call]\<rparr>) sec va l l'))"
  by (rule file_roundtrip)
    (simp_all add: ckpt_ok_def savable_def spaced_def blocks_fit_few pending_init ex_begun_def CkptInfo_new_def ex_call_def)

text \<open>
  C11: a written checkpoint that is used as the old checkpoint of a new run is read back: the section of calls, the start
  number and the bounds of the text are those that were written.
\<close>

theorem reread_roundtrip:
  assumes "ckpt_ok c" and "pending s []" and "saveCkptInfo rs c s = Inr (img, c', s')"
    and "saveSysInfo (ck_sysinfos c) = Inr (sec, infos')" and "length img < 2 ^ 63"
    and "ck_textrange c \<noteq> []" "\<forall>r \<in> set (ck_textrange c). near_text (cr_addr (hd (ck_textrange c))) r"
  shows "\<exists>od. initCkptSysInfo (Some img) = Some (Inr od) \<and> syssec od = buf_of sec \<and>
    ckptstartnum od = hd (slice_words rs c) \<and> ckpt_textstart od = cr_addr (hd (ck_textrange c)) \<and>
    ckpt_textend od = cr_addr (last (ck_textrange c)) + cr_size (last (ck_textrange c))"
  using assms by (rule old_of_saved)

theorem reread_roundtrip_witness:
  "\<exists>img c' s' od. saveCkptInfo None (ex_begun\<lparr>ck_sysinfos := [ex_call], ck_textrange := [\<lparr>cr_addr = 0x10000, cr_size = 4096\<rparr>]\<rparr>) compstate_init =
      Inr (img, c', s') \<and>
    (length img < 2 ^ 63 \<longrightarrow> initCkptSysInfo (Some img) = Some (Inr od) \<and> syssec od = buf_of ex_sec \<and> ckptstartnum od = 0)"
proof -
  let ?c = "ex_begun\<lparr>ck_sysinfos := [ex_call], ck_textrange := [\<lparr>cr_addr = 0x10000, cr_size = 4096\<rparr>]\<rparr>"
  have ok: "ckpt_ok ?c"
    by (simp add: ckpt_ok_def savable_def spaced_def blocks_fit_few ex_begun_def CkptInfo_new_def ex_call_def)
  obtain fl sec c' s' where w: "saveCkptInfo None ?c compstate_init = Inr (fl, c', s')"
    using saveCkptInfo_parts [OF ok pending_init, of None] by blast
  obtain infos where s: "saveSysInfo (ck_sysinfos ?c) = Inr (ex_sec, infos)" using ex_saved by auto
  have "near_text 0x10000 \<lparr>cr_addr = 0x10000, cr_size = 4096\<rparr>" by (simp add: near_text_def ct_mapsize_def)
  then show ?thesis
    using reread_roundtrip [OF ok pending_init w s] w by (auto simp: slice_words_def ex_begun_def CkptInfo_new_def)
qed

section \<open>System calls\<close>

text \<open>
  C16: the section written for a list of calls starts with their number and holds for each of them an index, a record with its
  fields and, if it has data, the buffer address and the data, although equal calls share one record.
\<close>

theorem calls_saved:
  assumes "\<forall>t \<in> set infos. si_params t \<noteq> []"
  shows "\<exists>sec infos'. saveSysInfo infos = Inr (sec, infos') \<and> take 8 sec = le64 (of_nat (length infos)) \<and>
    (\<forall>i < length infos. sec_call sec (length infos) i (infos ! i))"
  using assms by (rule saveSysInfo_ok)

theorem calls_saved_witness:
  "\<exists>sec infos'. saveSysInfo [ex_call, ex_call] = Inr (sec, infos') \<and> take 8 sec = le64 (of_nat (length [ex_call, ex_call])) \<and>
    (\<forall>i < length [ex_call, ex_call]. sec_call sec (length [ex_call, ex_call]) i ([ex_call, ex_call] ! i))"
  by (rule calls_saved) (simp add: ex_call_def)

text \<open>
  C12: when the replayed program makes its \<open>i\<close>-th call and the number matches, the loader copies the recorded data to
  the recorded buffer, returns the recorded result in \<open>a0\<close>, keeps the other registers, plants the return jump of the call's record, arms the exit
  jump when this was the last call, and counts the call.
\<close>

theorem call_answered:
  assumes "sec_loaded l sec n" and "sec_call sec n i s" and "i < n"
    and "nowcallnum (runinfo l) = of_nat i" and "regs 17 = si_num s"
    and "call_fits (syscall_info_addr (runinfo l)) sec s"
    and "Suc (unat (sysidx_at l (of_nat i))) < length (sysJmpinfos (runinfo l))"
  shows "\<exists>l' j. j = sysJmpinfos (runinfo l) ! Suc (unat (sysidx_at l (of_nat i))) \<and>
    takeoverSyscall ci0 ci1 regs l = Inr l' \<and>
    lmem l' = armed_mem (runinfo l) (put32 (jal_addr j) (jal_inst j) (call_mem s (lmem l))) \<and>
    tempMemory l' = jalr_target j \<and> program_intregs l' 10 = call_a0 s \<and>
    (\<forall>x. 1 \<le> x \<longrightarrow> x < 32 \<longrightarrow> x \<noteq> 10 \<longrightarrow> program_intregs l' x = regs x) \<and>
    nowcallnum (runinfo l') = of_nat (Suc i)"
  by (rule takeover_replays [where regs = regs, OF assms, of ci0 ci1]) blast

theorem call_answered_witness:
  "\<exists>l' j. j = sysJmpinfos (runinfo ex_loader) ! Suc (unat (sysidx_at ex_loader (of_nat 0))) \<and>
    takeoverSyscall (0, 0) (0, 0) ex_regs ex_loader = Inr l' \<and>
    lmem l' = armed_mem (runinfo ex_loader) (put32 (jal_addr j) (jal_inst j) (call_mem ex_call (lmem ex_loader))) \<and>
    tempMemory l' = jalr_target j \<and> program_intregs l' 10 = call_a0 ex_call \<and>
    (\<forall>x. 1 \<le> x \<longrightarrow> x < 32 \<longrightarrow> x \<noteq> 10 \<longrightarrow> program_intregs l' x = ex_regs x) \<and>
    nowcallnum (runinfo l') = of_nat (Suc 0)"
  by (rule call_answered [OF ex_sec_loaded ex_sec_call(1)])
    (use ex_call_fits in \<open>simp_all add: ex_sysidx ex_runinfo ex_regs_def ex_call_def ex_run_def\<close>)

text \<open>
  C17: in a restored run the \<open>i\<close>-th call of the old checkpoint is added to every pending slice as one entry that is the
  same call: same address, number, result, first argument and data.
\<close>

theorem old_call_reinserted:
  assumes "sec_call sec n i s" and "i < n" "n < 2 ^ 32" and "length sec < 2 ^ 32 - 1" and "unat (si_num s) < 2 ^ 32"
    and "take 8 sec = le64 (of_nat n)" and "syssec od = buf_of sec"
  shows "ckpt_insert_syscall od (of_nat i) k =
    Inr (k\<lparr>pendingCkpts := map (\<lambda>c. c\<lparr>ck_sysinfos := ck_sysinfos c @ [replayed s]\<rparr>) (pendingCkpts k)\<rparr>) \<and> same_call s (replayed s)"
  using insert_recorded [OF assms] replayed_same by blast

theorem old_call_reinserted_witness:
  "ckpt_insert_syscall \<lparr>syssec = buf_of ex_sec, ckptstartnum = 0, ckpt_textstart = 0, ckpt_textend = 0, ckptinst_map = (\<lambda>_. False)\<rparr> (of_nat 0) (coll ex_cpu1) =
    Inr ((coll ex_cpu1)\<lparr>pendingCkpts := map (\<lambda>c. c\<lparr>ck_sysinfos := ck_sysinfos c @ [replayed ex_call]\<rparr>) (pendingCkpts (coll ex_cpu1))\<rparr>) \<and>
    same_call ex_call (replayed ex_call)"
  by (rule old_call_reinserted [OF ex_sec_call(1)]) (simp_all add: ex_sec_call ex_call_def)

section \<open>Jumps between the program and the loader\<close>





text \<open>
  C15: for program counters near the free gaps, every midpoint that \<open>findMidPoints\<close> finds lies with its 64 bytes inside a
  gap, is reached from the call and reaches the call and the instruction behind it.
\<close>

theorem midpoints_reachable:
  assumes "findMidPoints frs pcs = Inr pcs'" and "sorted (map pc_label pcs)" "distinct (map pc_label pcs)" and "pcs_near frs pcs"
  shows "map pc_key pcs' = map pc_key pcs \<and> (\<forall>p \<in> set pcs'. mid_ok (pc_pc p) frs (pc_midpoint p))"
  using findMidPoints_ok [OF assms(1-3)] assms(4) by blast

theorem midpoints_reachable_witness:
  "\<exists>pcs'. findMidPoints [\<lparr>mr_addr = 0x20000, mr_size = 0x1000\<rparr>] [\<lparr>pc_label = 0, pc_pc = 0x10100, pc_midpoint = 0\<rparr>] = Inr pcs' \<and>
    map pc_key pcs' = [(0, 0x10100)] \<and> (\<forall>p \<in> set pcs'. mid_ok (pc_pc p) [\<lparr>mr_addr = 0x20000, mr_size = 0x1000\<rparr>] (pc_midpoint p))"
proof -
  have f: "findMidPoints [\<lparr>mr_addr = 0x20000, mr_size = 0x1000\<rparr>] [\<lparr>pc_label = 0, pc_pc = 0x10100, pc_midpoint = 0\<rparr>] =
      Inr [\<lparr>pc_label = 0, pc_pc = 0x10100, pc_midpoint = 0x20000\<rparr>]"
    by code_simp
  show ?thesis
    using midpoints_reachable [OF f] f by (simp add: pcs_near_def gap_near_def pc_key_def)
qed

section \<open>Loading the program code\<close>



section \<open>Converting checkpoints\<close>

text \<open>
  C19: a checkpoint in the oldest form (ten words per call, plain first loads) that goes through the two
  helper programs, \<open>rewriteSysInfo\<close> and then \<open>compckpt\<close> with its default form, becomes byte for byte the file that the recorder writes for
  the same slice.
\<close>

theorem old_checkpoint_converted:
  assumes "ckpt_ok c" and "\<forall>s \<in> set (ck_sysinfos c). 3 \<le> length (si_params s)"
    and "8 + 80 * length (ck_sysinfos c) + data_before (ck_sysinfos c) (length (ck_sysinfos c)) < 2 ^ 64"
    and "length (ck_textrange c) < 2 ^ 64" "length (ck_memrange c) < 2 ^ 64" "length (ck_firstloads c) < 0x123457"
  shows "\<exists>old infos mid img c' s'. saveSysInfo1 (ck_sysinfos c) = Inr (old, infos) \<and>
    rewrite_ckptinfo (Some (ckpt_head rs c @ saveFLoads (ck_firstloads c) @ old)) = Inr mid \<and>
    comp_ckptinfo 2 (Some mid) = Inr img \<and> saveCkptInfo rs c compstate_init = Inr (img, c', s')"
proof -
  have regs: "length (ck_intregs c) = 32" "length (ck_fpregs c) = 32" using assms(1) by (simp_all add: ckpt_ok_def)
  have loads: "\<forall>f \<in> set (ck_firstloads c). length (fl_data f) = 8" using assms(1) savable_8 unfolding ckpt_ok_def by blast
  have n: "length (ck_firstloads c) < 2 ^ 64" using assms(6) by simp
  obtain old infos1 sec infos2 where r: "saveSysInfo1 (ck_sysinfos c) = Inr (old, infos1)" "saveSysInfo (ck_sysinfos c) = Inr (sec, infos2)"
    "rewrite_ckptinfo (Some (ckpt_head rs c @ saveFLoads (ck_firstloads c) @ old)) = Inr (ckpt_head rs c @ saveFLoads (ck_firstloads c) @ sec)"
    using rewrite_file [OF assms(2,3) regs loads assms(4,5) n, of rs] by blast
  obtain img c' s' where s: "saveCkptInfo rs c compstate_init = Inr (img, c', s')"
    using saveCkptInfo_parts [OF assms(1) pending_init, of rs] by blast
  show ?thesis using r s comp_plain_file [OF regs assms(4-6) loads s r(2)] by blast
qed

theorem old_checkpoint_converted_witness:
  "\<exists>old infos mid img c' s'. saveSysInfo1 [ex_call] = Inr (old, infos) \<and>
    rewrite_ckptinfo (Some (ckpt_head None (ex_begun\<lparr>ck_sysinfos := [ex_call]\<rparr>) @ saveFLoads [] @ old)) = Inr mid \<and>
    comp_ckptinfo 2 (Some mid) = Inr img \<and> saveCkptInfo None (ex_begun\<lparr>ck_sysinfos := [ex_call]\<rparr>) compstate_init = Inr (img, c', s')"
  using old_checkpoint_converted [of "ex_begun\<lparr>ck_sysinfos := [ex_call]\<rparr>" None]
  by (simp add: ckpt_ok_def savable_def spaced_def blocks_fit_few ex_begun_def CkptInfo_new_def ex_call_def data_before_def)

text \<open>
  C20: on the ten-word form of any list of calls, the rewriter's \<open>process\<close> computes exactly the section of
  \<open>saveSysInfo\<close>, the routine that the recorder has for the same purpose on its own data.
\<close>

theorem calls_rewritten:
  assumes "\<forall>s \<in> set infos. 3 \<le> length (si_params s)" and "8 + 80 * length infos + data_before infos (length infos) < 2 ^ 64"
  shows "\<exists>old infos1 sec infos2. saveSysInfo1 infos = Inr (old, infos1) \<and> saveSysInfo infos = Inr (sec, infos2) \<and>
    (\<forall>zs. process (buf_of (old @ zs)) (of_nat (length infos)) = Inr sec)"
proof -
  obtain old infos1 where o: "saveSysInfo1 infos = Inr (old, infos1)" "\<And>zs. holds_calls (buf_of (old @ zs)) infos"
    using saveSysInfo1_holds [OF assms] by blast
  have ps: "\<forall>t \<in> set infos. si_params t \<noteq> []" using assms(1) by fastforce
  have n: "length infos < 2 ^ 64" using assms(2) by linarith
  obtain sec infos2 where s: "saveSysInfo infos = Inr (sec, infos2)" using saveSysInfo_ok [OF ps] by blast
  have "process (buf_of (old @ zs)) (of_nat (length infos)) = Inr sec" for zs using process_eq [OF o(2) ps n, of zs] s by auto
  with o(1) s show ?thesis by blast
qed

theorem calls_rewritten_witness:
  "\<exists>old infos1 sec infos2. saveSysInfo1 [ex_call, ex_call] = Inr (old, infos1) \<and> saveSysInfo [ex_call, ex_call] = Inr (sec, infos2) \<and>
    (\<forall>zs. process (buf_of (old @ zs)) 2 = Inr sec)"
  using calls_rewritten [of "[ex_call, ex_call]"] by (simp add: ex_call_def data_before_def)


text \<open>
  C22: expanding a recorder's checkpoint with form 0 gives a file with the same other sections, whose plain
  first loads restore what the compressed ones did, as long as their number is below the first tag.
\<close>

theorem expanded_checkpoint_restores:
  assumes "length (ck_intregs c) = 32" "length (ck_fpregs c) = 32"
    and "length (ck_textrange c) < 2 ^ 64" "length (ck_memrange c) < 2 ^ 64"
    and "savable fls" "blocks_fit fls" "pending s []" and "saveFLoads_comp fls s = Inr (s', fl)"
  shows "\<exists>infos. comp_ckptinfo 0 (Some (ckpt_head rs c @ fl @ sec)) = Inr (ckpt_head rs c @ saveFLoads infos @ sec) \<and>
    (length infos < 0x123457 \<longrightarrow> (\<forall>p mem after. rest p = saveFLoads infos @ after \<and> pos p + 8 \<le> length (content p) \<longrightarrow>
      (\<exists>p' mem'. recovery_FirstLoad p mem = Inr (p', mem') \<and> recovered fls mem mem' \<and> rest p' = after)))"
  using assms by (rule comp_expand_file)

theorem expanded_checkpoint_restores_witness:
  "\<exists>s' fl infos. saveFLoads_comp [\<lparr>fl_addr = 0x1000, fl_data = [1, 2, 3, 4, 5, 6, 7, 8]\<rparr>] compstate_init = Inr (s', fl) \<and>
    comp_ckptinfo 0 (Some (ckpt_head None ex_begun @ fl @ ex_sec)) = Inr (ckpt_head None ex_begun @ saveFLoads infos @ ex_sec)"
proof -
  have ok: "savable [\<lparr>fl_addr = 0x1000, fl_data = [1, 2, 3, 4, 5, 6, 7, 8]\<rparr>]" "blocks_fit [\<lparr>fl_addr = 0x1000, fl_data = [1, 2, 3, 4, 5, 6, 7, 8]\<rparr>]"
    by (simp_all add: savable_def spaced_def blocks_fit_few)
  then obtain s' fl where fl: "saveFLoads_comp [\<lparr>fl_addr = 0x1000, fl_data = [1, 2, 3, 4, 5, 6, 7, 8]\<rparr>] compstate_init = Inr (s', fl)"
    using saveFLoads_comp_ok [OF ok(1) pending_init] by blast
  show ?thesis
    using expanded_checkpoint_restores [OF _ _ _ _ ok pending_init fl, of ex_begun None ex_sec] fl
    by (auto simp: ex_begun_def CkptInfo_new_def)
qed

text \<open>
  C23: first loads that \<open>compckpt\<close> writes as windows, without compression (form 1) or packed with FastLZ level 1 or 2
  (forms 2 and 3), are recovered by the loader. Form 1 has no bound on the size of the windows; the blocks of the packed forms have
  to fit the loader's buffer.
\<close>

theorem recompressed_restored:
  assumes "savable fls" and "pending s []"
    and "choice = 1 \<or> (choice = 2 \<or> choice = 3) \<and> blocks_fit_of (compress_FirstLoad choice) (0x123456 + of_int choice) fls"
  shows "\<exists>s' out. compress_FirstLoad choice fls s = Inr (s', out) \<and> pending s' [] \<and>
    (\<forall>p mem after. rest p = out @ after \<longrightarrow>
       (\<exists>p' mem'. recovery_FirstLoad p mem = Inr (p', mem') \<and> recovered fls mem mem' \<and> rest p' = after \<and> content p' = content p))"
proof (cases "choice = 1")
  case True
  then show ?thesis using datamap_roundtrip [OF assms(1,2)] by simp
next
  case False
  then show ?thesis using packed_roundtrip [OF assms(1,2)] assms(3) by simp
qed

theorem recompressed_restored_witness:
  "\<exists>s' out. compress_FirstLoad 3 [\<lparr>fl_addr = 0x1000, fl_data = [1, 2, 3, 4, 5, 6, 7, 8]\<rparr>] compstate_init = Inr (s', out) \<and>
    (\<forall>p mem after. rest p = out @ after \<longrightarrow> (\<exists>p' mem'. recovery_FirstLoad p mem = Inr (p', mem') \<and> rest p' = after))"
  using recompressed_restored [OF _ pending_init, of "[\<lparr>fl_addr = 0x1000, fl_data = [1, 2, 3, 4, 5, 6, 7, 8]\<rparr>]" 3]
  by (simp add: savable_def spaced_def blocks_fit_of_few) blast

section \<open>Replaying a slice\<close>

text \<open>
  C24: in every run in which a program and the loader alternate, whatever the program does in between as long as it
  leaves the loader's data alone, at most the recorded calls are answered, they are answered in the recorded order, and each of them
  with the recorded result and every other register unchanged.
\<close>

theorem replay_follows_record:
  assumes "replays jp_answer env l tr l'" and "jp_serves calls sec 0 l" and "\<And>j t t'. jp_serves calls sec j t \<Longrightarrow> env t t' \<Longrightarrow> jp_serves calls sec j t'"
  shows "length tr \<le> length calls \<and>
    (\<forall>k < length tr. entry_regs (fst (tr ! k)) 17 = si_num (calls ! k) \<and> answered (calls ! k) (fst (tr ! k)) (program_intregs (snd (tr ! k))))"
  using jp.run_follows_record [OF assms(1,2)] assms(3) by simp

theorem replay_follows_record_witness:
  "\<exists>tr l'. replays jp_answer (=) ex_loader tr l' \<and> map fst tr = [ex_entry] \<and> answered ex_call ex_entry (program_intregs (snd (tr ! 0)))"
proof -
  have "map (\<lambda>e. entry_regs e 17) [ex_entry] = map si_num (drop 0 [ex_call])" by (simp add: ex_entry_def entry_regs_def ex_regs_def ex_call_def)
  from jp.run_exists [OF ex_jp_serves _ this] obtain tr l' where r: "replays jp_answer (=) ex_loader tr l'" "map fst tr = [ex_entry]" by auto
  have "length tr = 1" "fst (tr ! 0) = ex_entry" using r(2) by (cases tr; auto)+
  then show ?thesis using replay_follows_record [OF r(1) ex_jp_serves] r by auto
qed



text \<open>
  C26: the two loaders answer a call alike: both return, with the same program registers and the same count of
  calls; the one with temporary registers leaves the address behind the call in register 2.
\<close>

theorem loaders_agree:
  assumes "jp_serves calls sec i l" and "i < length calls" and "regs 17 = si_num (calls ! i)"
  shows "\<exists>l1 l2 h'. takeoverSyscall ci0 ci1 regs l = Inr l1 \<and> hw_takeoverSyscall ci0 ci1 regs (l, h) = Inr (l2, h') \<and>
    (\<forall>x. 1 \<le> x \<and> x < 32 \<longrightarrow> program_intregs l1 x = program_intregs l2 x) \<and>
    nowcallnum (runinfo l1) = nowcallnum (runinfo l2) \<and> rtemp h' 2 = si_pc (calls ! i) + 4"
proof -
  have s: "sec_loaded l sec (length calls)" "sec_call sec (length calls) i (calls ! i)" "nowcallnum (runinfo l) = of_nat i"
    "call_fits (syscall_info_addr (runinfo l)) sec (calls ! i)" "exit_apart l sec"
    using assms(1,2) by (simp_all add: jp_serves_def serving_def section_ok_def)
  obtain l1 where 1: "takeoverSyscall ci0 ci1 regs l = Inr l1" "jp_serves calls sec (Suc i) l1" "program_intregs l1 10 = call_a0 (calls ! i)"
    "\<forall>x. 1 \<le> x \<and> x < 32 \<and> x \<noteq> 10 \<longrightarrow> program_intregs l1 x = regs x"
    using jp_answers [where regs = regs, OF assms, of ci0 ci1] by blast
  obtain l2 h' where 2: "hw_takeoverSyscall ci0 ci1 regs (l, h) = Inr (l2, h')" "rtemp h' 2 = si_pc (calls ! i) + 4"
    "program_intregs l2 10 = call_a0 (calls ! i)" "\<forall>x. 1 \<le> x \<and> x < 32 \<and> x \<noteq> 10 \<longrightarrow> program_intregs l2 x = regs x"
    "nowcallnum (runinfo l2) = of_nat (Suc i)"
    by (rule hw_takeover_replays [where h = h and regs = regs and ?ci0.0 = ci0 and ?ci1.0 = ci1, OF s(1,2) assms(2) s(3) assms(3) s(4,5)]) simp
  have "program_intregs l1 x = program_intregs l2 x" if "1 \<le> x" "x < 32" for x using that 1(3,4) 2(3,4) by (cases "x = 10") auto
  moreover have "nowcallnum (runinfo l1) = of_nat (Suc i)" using 1(2) by (simp add: jp_serves_def serving_def)
  ultimately show ?thesis using 1(1) 2(1,2,5) by auto
qed

theorem loaders_agree_witness:
  "\<exists>l1 l2 h'. takeoverSyscall (0, 0) (0, 0) ex_regs ex_loader = Inr l1 \<and> hw_takeoverSyscall (0, 0) (0, 0) ex_regs (ex_loader, ex_hw) = Inr (l2, h') \<and>
    (\<forall>x. 1 \<le> x \<and> x < 32 \<longrightarrow> program_intregs l1 x = program_intregs l2 x) \<and> nowcallnum (runinfo l1) = nowcallnum (runinfo l2) \<and> rtemp h' 2 = 0x10104"
  using loaders_agree [where regs = ex_regs, OF ex_jp_serves, of "(0, 0)" "(0, 0)" ex_hw] by (simp add: ex_regs_def ex_call_def)

section \<open>Recorded accesses and their ranges\<close>

text \<open>
  C27: whatever plain accesses are recorded, the access map stays well formed: every key is the base of an
  8 KiB chunk and every flag is 0 or 1, and the flagged bytes are exactly those of the accesses.
\<close>

theorem access_map_well_formed:
  assumes "\<forall>acc \<in> set accs. plain_access acc"
  shows "\<exists>t ls. res_fold do_access accs (RBT.empty, []) = Inr (t, ls) \<and> wf_access t \<and>
    touched t = (\<Union>acc \<in> set accs. {x. in_range x (acc_addr acc) (acc_size acc)})"
proof -
  obtain st where st: "res_fold do_access accs (RBT.empty, []) = Inr st" "records st (fold spec_access accs ({}, Map.empty))"
    using records_run [OF records_init assms] by blast
  have "fst (fold spec_access accs (T, F)) = T \<union> (\<Union>acc \<in> set accs. {x. in_range x (acc_addr acc) (acc_size acc)})" for T F
  proof (induction accs arbitrary: T F)
    case (Cons acc accs)
    then show ?case by (cases acc) auto
  qed simp
  with st show ?thesis by (cases st) (auto simp: records_def)
qed

theorem access_map_well_formed_witness:
  "\<exists>t ls. res_fold do_access [StoreAcc 0x20000 4, LoadAcc 0x20002 [1, 2, 3, 4]] (RBT.empty, []) = Inr (t, ls) \<and> wf_access t \<and>
    touched t = (\<Union>acc \<in> set [StoreAcc 0x20000 4, LoadAcc 0x20002 [1, 2, 3, 4]]. {x. in_range x (acc_addr acc) (acc_size acc)})"
  by (rule access_map_well_formed) (simp add: plain_access_def)





section \<open>Settings and schedule\<close>



text \<open>
  C31: when the starts of the slices increase strictly, asking \<open>isCkptStart\<close> for every instruction number from 0 on
  starts every slice whose start has been reached, once, at its start and with its length.
\<close>

theorem schedule_starts_slices:
  assumes "sorted_wrt (<) (map ctrl_start (left_ctrls k))" and "m \<le> 2 ^ 64"
  shows "fst (schedule (map of_nat [0..<m]) k) = map slice_of (takeWhile (\<lambda>c. unat (ctrl_start c) < m) (left_ctrls k))"
  using schedule_from [OF assms(1), of 0 m] assms(2) by simp

theorem schedule_starts_slices_witness:
  "fst (schedule (map of_nat [0..<50]) (collector_init (CkptSettings_new\<lparr>ctrls := [\<lparr>ctrl_start = 10, ctrl_end = 30, ctrl_warmup = 0\<rparr>,
      \<lparr>ctrl_start = 100, ctrl_end = 130, ctrl_warmup = 0\<rparr>]\<rparr>) None)) = [(10, 20)]"
  using schedule_starts_slices [of "collector_init (CkptSettings_new\<lparr>ctrls := [\<lparr>ctrl_start = 10, ctrl_end = 30, ctrl_warmup = 0\<rparr>,
      \<lparr>ctrl_start = 100, ctrl_end = 130, ctrl_warmup = 0\<rparr>]\<rparr>) None" 50]
  by (simp add: left_ctrls_def collector_init_def CkptSettings_new_def slice_of_def del: upt_rec_numeral)

section \<open>Traces\<close>



section \<open>Emulated calls\<close>



text \<open>
  C38: the exceptions are real. Behind a short read the emulation clears the rest of the buffer and the loader does not, and in the
  bytes of \<open>sysinfo\<close> that are not assigned the loader puts what happened to be on the simulator's stack, where the emulation leaves the program's bytes.
\<close>

theorem lost_bytes_differ:
  assumes "d \<noteq> []" "length d \<le> i" "i < n" "n < 2 ^ 31" and "a \<noteq> 0" and "112 \<le> length stack" "8 \<le> j" "j < 32"
  shows "\<exists>e e'. emulate (Read True True nonblock (HostData d) a n) True m = Inr e \<and> em_mem e (a + of_nat i) = 0 \<and>
      call_mem (call_of pc regs name e) m (a + of_nat i) = m (a + of_nat i) \<and>
    emulate (Sysinfo memSize stack a) True m = Inr e' \<and> em_mem e' (a + of_nat j) = m (a + of_nat j) \<and>
      call_mem (call_of pc regs name e') m (a + of_nat j) = stack ! j"
proof -
  have "length d < n" using assms(2,3) by simp
  from short_read_differs [OF assms(1) this assms(5,4,2,3), of nonblock m pc regs name]
  obtain e where e: "readFunc True True nonblock (HostData d) True a n m = Inr e" "em_mem e (a + of_nat i) = 0"
    "call_mem (call_of pc regs name e) m (a + of_nat i) = m (a + of_nat i)" by blast
  have "\<not> assigned (sysinfo_fields memSize) j" using assms(7,8) by (simp add: sysinfo_fields_def fields_simps)
  from struct_leaks [OF assms(5) sysinfo_layout(1) assms(6) _ _ this, of 0 0 m pc regs name] assms(8) e show ?thesis
    by (auto simp: sysinfoFunc_def)
qed

theorem lost_bytes_differ_witness:
  "\<exists>e e'. emulate (Read True True False (HostData [1, 2]) 0x30000 8) True (\<lambda>_. 5) = Inr e \<and> em_mem e 0x30004 = 0 \<and>
      call_mem (call_of 0x10100 ex_callregs ''read'' e) (\<lambda>_. 5) 0x30004 = 5 \<and>
    emulate (Sysinfo 0 (replicate 112 9) 0x30000) True (\<lambda>_. 5) = Inr e' \<and> em_mem e' 0x30008 = 5 \<and>
      call_mem (call_of 0x10100 ex_callregs ''read'' e') (\<lambda>_. 5) 0x30008 = 9"
  using lost_bytes_differ [of "[1, 2]" 4 8 "0x30000" "replicate 112 9" 8 False "\<lambda>_. 5" "0x10100" ex_callregs "''read''" 0] by simp

section \<open>Decoding in the simulators\<close>

text \<open>
  C33: whatever instructions the recording simulator fetches one after the other, at even addresses and with memory changing in
  between, two ticks are enough for each of them, and each is decoded to the entry of the instruction table for the bytes that memory holds there, with
  the registers replaced in an instruction on the additional registers. The next program counter is 2 or 4 further. Excepted are the two words that
  stand in for the additional instructions.
\<close>

theorem decoder_faithful:
  assumes "temp_shapes decodeInst" and "fetch_ready f" "cached f = Map.empty" and "\<forall>(mem, pc) \<in> set xs. pc mod 4 = 0 \<or> pc mod 4 = 2"
  shows "\<exists>rs f'. fetch_run (decode_create decodeInst) xs f = Inr (rs, f') \<and> fetch_ready f' \<and> cache_ok decodeInst (cached f') \<and>
    list_all2 (decodes_as create_temp decodeInst) xs rs"
  using fetch_run_ok [OF creating.word_decoder_axioms assms(1,2) _ assms(4)] cache_ok_empty [of decodeInst] assms(3) by simp

theorem decoder_faithful_witness:
  "\<exists>rs f'. fetch_run (decode_create ex_table) [(ex_to_loader, 0x10100), (ex_to_loader, 0x9002)] ex_fetcher = Inr (rs, f') \<and> fetch_ready f' \<and>
    cache_ok ex_table (cached f') \<and> list_all2 (decodes_as create_temp ex_table) [(ex_to_loader, 0x10100), (ex_to_loader, 0x9002)] rs"
  by (rule decoder_faithful) (simp_all add: ex_shapes ex_fetcher_ready)

text \<open>
  C34: the loader with temporary registers replaces the instruction at the address of every record, when those addresses lie outside
  the section and do not overlap. The recording simulator decodes what it finds there as a jump through register 35, the third additional one, while
  the simulator in \<open>gem5_restore\<close> decodes it as an ordinary addition to \<open>x0\<close>.
\<close>

theorem planted_jump_decoded:
  assumes "sec_loaded l sec n" and "8 + 4 * n + 40 * k \<le> length sec" and "pcs_apart l sec k" and "r < k"
    and "call_pc l r mod 4 = 0 \<or> call_pc l r mod 4 = 2"
    and "temp_shapes decodeInst" "fetch_ready f" "cache_ok decodeInst (cached f)"
  shows "\<exists>f1 f2. fetch_ticks (decode_create decodeInst) (lmem (fold replace_call [0..<k] l)) (call_pc l r) 2 f =
      Inr (Some ((decodeInst tjalrinst)\<lparr>di_src := (di_src (decodeInst tjalrinst))[0 := (IntRegClass, 35)]\<rparr>, call_pc l r + 4), f1) \<and>
    fetch_ticks (decode_restore decodeInst) (lmem (fold replace_call [0..<k] l)) (call_pc l r) 2 f =
      Inr (Some (decodeInst (ucast JmpRTemp3Inst), call_pc l r + 4), f2)"
proof -
  let ?m = "lmem (fold replace_call [0..<k] l)"
  have "get32 ?m (call_pc l r) = JmpRTemp3Inst" using replaced_calls [OF assms(1-3) order.refl] assms(4) by blast
  then have w: "inst_at ?m (call_pc l r) = ucast (SpecialInst_URet_word 3)" by (rule planted_jump_at)
  have c: "\<not> compressed (ucast (SpecialInst_URet_word 3))" unfolding SpecialInst_URet_word_def by (rule addi_fields(6))
  have o: "ordinary create_temp (inst_at ?m (call_pc l r))" "ordinary restore_temp (inst_at ?m (call_pc l r))"
    unfolding w by (rule planted_jump_ordinary)+
  show ?thesis
    using fetch_ok [OF creating.word_decoder_axioms assms(6-8,5) o(1)] fetch_ok [OF restoring.word_decoder_axioms assms(6-8,5) o(2)]
    by (auto simp: w c planted_jump_meant JmpRTemp3_word)
qed

theorem planted_jump_decoded_witness:
  "\<exists>f1 f2. fetch_ticks (decode_create ex_table) (lmem (fold replace_call [0..<1] ex_loader)) 0x10100 2 ex_fetcher =
      Inr (Some ((ex_table tjalrinst)\<lparr>di_src := (di_src (ex_table tjalrinst))[0 := (IntRegClass, 35)]\<rparr>, 0x10104), f1) \<and>
    fetch_ticks (decode_restore ex_table) (lmem (fold replace_call [0..<1] ex_loader)) 0x10100 2 ex_fetcher =
      Inr (Some (ex_table (ucast JmpRTemp3Inst), 0x10104), f2)"
proof -
  have pc: "call_pc ex_loader 0 = 0x10100"
    using call_pc_section [OF ex_sec_loaded, of 0] ex_sec_call(3) by (simp add: ex_sec_def)
  have "apart 0x40000 64 0x10100 4" by (simp add: apart_def)
  then have "pcs_apart ex_loader ex_sec 1" by (simp add: pcs_apart_def pc ex_runinfo ex_run_def ex_sec_call(3))
  then show ?thesis
    using planted_jump_decoded [OF ex_sec_loaded, of 1 0 ex_table ex_fetcher] pc ex_sec_call(3)
    by (simp add: ex_shapes ex_fetcher_ready cache_ok_empty)
qed

text \<open>
  C35: once the recording simulator has decoded the jump of the loader, a \<open>ret\<close> of the program is decoded to the same changed
  object: it goes where the additional register points and not where \<open>ra\<close> does.
\<close>

theorem return_redirected:
  assumes "temp_shapes decodeInst" and "fetch_ready f"
    and "pc1 mod 4 = 0 \<or> pc1 mod 4 = 2" "get32 mem1 pc1 = JmpRTemp3Inst" and "pc2 mod 4 = 0 \<or> pc2 mod 4 = 2" "get32 mem2 pc2 = 0x8067"
  shows "\<exists>j f'. fetch_run (decode_create decodeInst) [(mem1, pc1), (mem2, pc2)] f = Inr ([Some (j, pc1 + 4), Some (j, pc2 + 4)], f') \<and>
    j = (decodeInst tjalrinst)\<lparr>di_src := (di_src (decodeInst tjalrinst))[0 := (IntRegClass, 35)]\<rparr>"
  using ret_after_jump [OF assms] by (simp add: planted_jump_meant)

theorem return_redirected_witness:
  "\<exists>j f'. fetch_run (decode_create ex_table) [(put32 0x10100 JmpRTemp3Inst (\<lambda>_. 0), 0x10100), (put32 0x20000 0x8067 (\<lambda>_. 0), 0x20000)] ex_fetcher =
      Inr ([Some (j, 0x10100 + 4), Some (j, 0x20000 + 4)], f') \<and> di_src j = [(IntRegClass, 35)] \<and> di_src (ex_table 0x8067) = [(IntRegClass, 1)]"
proof -
  have g: "get32 (put32 a w m) a = w" for a w m
    using mem_read_write_same [of "le32 w" m a] by (simp add: get32_def put32_def)
  have a: "(0x10100 :: u64) mod 4 = 0 \<or> (0x10100 :: u64) mod 4 = 2" "(0x20000 :: u64) mod 4 = 0 \<or> (0x20000 :: u64) mod 4 = 2" by simp_all
  obtain j f' where "fetch_run (decode_create ex_table) [(put32 0x10100 JmpRTemp3Inst (\<lambda>_. 0), 0x10100), (put32 0x20000 0x8067 (\<lambda>_. 0), 0x20000)] ex_fetcher =
      Inr ([Some (j, 0x10100 + 4), Some (j, 0x20000 + 4)], f')" "j = (ex_table tjalrinst)\<lparr>di_src := (di_src (ex_table tjalrinst))[0 := (IntRegClass, 35)]\<rparr>"
    using return_redirected [OF ex_shapes ex_fetcher_ready(1) a(1) g [of "0x10100" JmpRTemp3Inst "\<lambda>_. 0"] a(2) g [of "0x20000" "0x8067" "\<lambda>_. 0"]] by blast
  moreover from this(2) have "di_src j = [(IntRegClass, 35)]" by (simp add: ex_table_def)
  moreover have "di_src (ex_table 0x8067) = [(IntRegClass, 1)]" by (simp add: ex_table_def)
  ultimately show ?thesis by blast
qed



section \<open>Where recording goes wrong\<close>


text \<open>
  C40: an access of \<open>sz\<close> bytes with \<open>b\<close> bytes left in its chunk, at most four, that reaches into a chunk already known
  marks \<open>2 * b\<close> bytes instead of \<open>sz\<close>.
\<close>

theorem known_neighbour_mismarked:
  assumes "wf_access t" and "unat addr < 2 ^ 63" and "0 < unat sz" "unat sz \<le> 8" and "length ex = 8"
    and "bytes_left addr < unat sz" and "bytes_left addr \<le> 4" and "RBT.lookup t (chunk_base addr + 8192) = Some d"
  shows "\<exists>t' ex'. addAddrInfo addr sz (t, ex) = Inr (t', ex') \<and> touched t' = touched t \<union> {x. in_range x addr (2 * bytes_left addr)}"
  using addAddrInfo_known_neighbour(2) [OF assms(1-6,8,7)] by blast

theorem known_neighbour_mismarked_witness:
  "\<exists>t' ex'. addAddrInfo 0x21fff 8 (RBT.insert 0x22000 (\<lambda>_. 0) RBT.empty, exist_uninit) = Inr (t', ex') \<and>
    touched t' = touched (RBT.insert 0x22000 (\<lambda>_. 0) RBT.empty) \<union> {x. in_range x 0x21fff 2}"
proof -
  have b: "chunk_base 0x22000 = 0x22000" "chunk_base 0x21fff + 8192 = 0x22000" by code_simp+
  have l: "bytes_left 0x21fff = 1" by (simp add: bytes_left_def)
  have "wf_access (RBT.insert 0x22000 (\<lambda>_. 0) RBT.empty)" using wf_access_empty b(1) by (simp add: wf_access_def)
  then show ?thesis
    using known_neighbour_mismarked [of "RBT.insert 0x22000 (\<lambda>_. 0) RBT.empty" "0x21fff" 8 exist_uninit "\<lambda>_. 0"] b(2) l
    by (simp add: exist_uninit_def)
qed

end
